(* ===== verification/Prelude.thy ===== *)
theory Prelude
  imports Main "HOL-Library.Word" "HOL-Library.Finite_Map" "HOL-Library.Multiset"
begin

text \<open>
  What the components share: Go's byte slices (with the nil slice apart from the empty
  one), two's-complement \<open>int64\<close> arithmetic on \<open>int\<close>, Go's truncating division, big-endian numbers, finite
  maps with their length and weighted sums, and the error values of \<open>pkg/types/errors.go\<close>.
\<close>

section \<open>Collections of facts\<close>

named_theorems inv_intros \<open>introduction rules for the invariants of the components\<close>
named_theorems map_len_simps \<open>length of a Go map after an update\<close>
named_theorems weight_simps \<open>weighted sum over a Go map after an update\<close>

section \<open>Bytes and slices\<close>

type_synonym byte = "8 word"
type_synonym bytes = "byte list"

text \<open>
  A Go \<open>[]byte\<close> where the code tells \<open>nil\<close> from an empty slice; \<open>None\<close> is \<open>nil\<close>.
\<close>

type_synonym slice = "bytes option"

definition slice_len :: "slice \<Rightarrow> nat" where
  "slice_len s = (case s of None \<Rightarrow> 0 | Some b \<Rightarrow> length b)"

definition slice_bytes :: "slice \<Rightarrow> bytes" where
  "slice_bytes s = (case s of None \<Rightarrow> [] | Some b \<Rightarrow> b)"

text \<open>\<open>append([]byte(nil), b...)\<close>: a copy of \<open>b\<close>, which is nil when \<open>b\<close> is empty.\<close>

definition copy_slice :: "bytes \<Rightarrow> slice" where
  "copy_slice b = (if b = [] then None else Some b)"

lemma slice_len_copy [simp]: "slice_len (copy_slice b) = length b"
  by (simp add: slice_len_def copy_slice_def)

lemma slice_bytes_copy [simp]: "slice_bytes (copy_slice b) = b"
  by (simp add: slice_bytes_def copy_slice_def)

lemma slice_bytes_Some [simp]: "slice_bytes (Some b) = b"
  by (simp add: slice_bytes_def)

lemma slice_len_bytes: "slice_len s = length (slice_bytes s)"
  by (cases s) (simp_all add: slice_len_def slice_bytes_def)

lemma copy_slice_None_iff [simp]: "copy_slice b = None \<longleftrightarrow> b = []"
  by (simp add: copy_slice_def)

section \<open>Machine integers\<close>

text \<open>The value an \<open>int64\<close> holds when the mathematical result is \<open>x\<close>.\<close>

definition i64 :: "int \<Rightarrow> int" where
  "i64 x = (x + 2 ^ 63) mod 2 ^ 64 - 2 ^ 63"

definition in_i64 :: "int \<Rightarrow> bool" where
  "in_i64 x \<longleftrightarrow> - (2 ^ 63) \<le> x \<and> x < 2 ^ 63"

lemma i64_id [simp]: "in_i64 x \<Longrightarrow> i64 x = x"
  by (simp add: i64_def in_i64_def)

lemma in_i64_i64 [simp]: "in_i64 (i64 x)"
proof -
  have "0 \<le> (x + 2 ^ 63) mod 2 ^ 64" and "(x + 2 ^ 63) mod 2 ^ 64 < 2 ^ 64"
    by (rule pos_mod_sign pos_mod_bound; simp)+
  then show ?thesis by (simp add: i64_def in_i64_def)
qed

lemma i64_add_left [simp]: "i64 (i64 x + y) = i64 (x + y)"
proof -
  have "i64 x + y + 2 ^ 63 = (x + 2 ^ 63) mod 2 ^ 64 + y" by (simp add: i64_def)
  then have "(i64 x + y + 2 ^ 63) mod 2 ^ 64 = (x + 2 ^ 63 + y) mod 2 ^ 64"
    by (simp only: mod_add_left_eq)
  then show ?thesis by (simp add: i64_def ac_simps)
qed

text \<open>Go's \<open>/\<close> and \<open>%\<close> on signed integers truncate towards zero.\<close>

definition go_div :: "int \<Rightarrow> int \<Rightarrow> int" where
  "go_div a b = sgn a * sgn b * (\<bar>a\<bar> div \<bar>b\<bar>)"

definition go_mod :: "int \<Rightarrow> int \<Rightarrow> int" where
  "go_mod a b = a - b * go_div a b"

lemma go_div_nonneg [simp]: "0 \<le> a \<Longrightarrow> 0 < b \<Longrightarrow> go_div a b = a div b"
  by (cases "a = 0") (simp_all add: go_div_def)

lemma go_mod_nonneg [simp]: "0 \<le> a \<Longrightarrow> 0 < b \<Longrightarrow> go_mod a b = a mod b"
  by (simp add: go_mod_def minus_mult_div_eq_mod)

section \<open>Big-endian numbers\<close>

text \<open>The last \<open>n\<close> bytes of a number, most significant first.\<close>

definition be_bytes :: "nat \<Rightarrow> int \<Rightarrow> bytes" where
  "be_bytes n x = map (\<lambda>k. word_of_int (x div 2 ^ (8 * k))) (rev [0..<n])"

lemma be_bytes_inj: "be_bytes n x = be_bytes n y \<Longrightarrow> x mod 2 ^ (8 * n) = y mod 2 ^ (8 * n)"
proof (induction n)
  case (Suc n)
  have split: "z mod 2 ^ (8 * Suc n) = 2 ^ (8 * n) * (z div 2 ^ (8 * n) mod 256) + z mod 2 ^ (8 * n)" for z :: int
    by (simp add: power_add mult.commute [of 256] mod_mult2_eq' zmod_zmult2_eq)
  from Suc.prems have hd: "(word_of_int (x div 2 ^ (8 * n)) :: byte) = word_of_int (y div 2 ^ (8 * n))"
    and tl: "be_bytes n x = be_bytes n y" by (simp_all add: be_bytes_def)
  have "x div 2 ^ (8 * n) mod 256 = y div 2 ^ (8 * n) mod 256"
    using arg_cong [OF hd, of uint] by (simp add: uint_word_of_int take_bit_eq_mod)
  then show ?case using Suc.IH [OF tl] unfolding split by simp
qed simp

lemma length_be_bytes [simp]: "length (be_bytes n x) = n"
  by (simp add: be_bytes_def)

lemma be_bytes_Suc: "be_bytes (Suc n) x = word_of_int (x div 2 ^ (8 * n)) # be_bytes n x"
  by (simp add: be_bytes_def)

text \<open>The number a byte string stands for.\<close>

fun be_value :: "bytes \<Rightarrow> int" where
  "be_value [] = 0"
| "be_value (b # bs) = uint b * 2 ^ (8 * length bs) + be_value bs"

lemma be_value_bounds: "0 \<le> be_value bs \<and> be_value bs < 2 ^ (8 * length bs)"
proof (induction bs)
  case (Cons b bs)
  have "uint b \<le> 255" using uint_range_size [of b] by (simp add: word_size)
  then have "uint b * 2 ^ (8 * length bs) \<le> 255 * 2 ^ (8 * length bs)" by (intro mult_right_mono) simp_all
  moreover have "(2 :: int) ^ (8 * length (b # bs)) = 256 * 2 ^ (8 * length bs)" by (simp add: power_add)
  moreover have "0 \<le> uint b * 2 ^ (8 * length bs)" by simp
  ultimately show ?case using Cons.IH unfolding be_value.simps by linarith
qed simp

lemma be_value_bytes [simp]: "be_value (be_bytes n x) = x mod 2 ^ (8 * n)"
proof (induction n)
  case 0
  then show ?case by (simp add: be_bytes_def)
next
  case (Suc n)
  have split: "x mod 2 ^ (8 * Suc n) = 2 ^ (8 * n) * (x div 2 ^ (8 * n) mod 256) + x mod 2 ^ (8 * n)"
    by (simp add: power_add mult.commute [of 256] mod_mult2_eq' zmod_zmult2_eq)
  show ?case unfolding split by (simp add: be_bytes_Suc Suc.IH uint_word_of_int take_bit_eq_mod)
qed

lemma mod_inj_in_range:
  "x mod 2 ^ Suc n = y mod 2 ^ Suc n \<Longrightarrow> - (2 ^ n) \<le> x \<Longrightarrow> x < 2 ^ n \<Longrightarrow> - (2 ^ n) \<le> y \<Longrightarrow> y < 2 ^ n \<Longrightarrow>
   x = (y :: int)"
proof -
  assume m: "x mod 2 ^ Suc n = y mod 2 ^ Suc n" and b: "- (2 ^ n) \<le> x" "x < 2 ^ n" "- (2 ^ n) \<le> y" "y < 2 ^ n"
  have "(x + 2 ^ n) mod 2 ^ Suc n = (y + 2 ^ n) mod 2 ^ Suc n" by (rule mod_add_cong [OF m refl])
  moreover have "(x + 2 ^ n) mod 2 ^ Suc n = x + 2 ^ n" "(y + 2 ^ n) mod 2 ^ Suc n = y + 2 ^ n"
    using b by (intro mod_pos_pos_trivial; simp)+
  ultimately show "x = y" by simp
qed

section \<open>Errors\<close>

text \<open>
  The sentinel errors the modelled code returns; \<open>ErrOther\<close> is an error built from a message
  only, or one that a callback supplies. An \<open>error\<close> result of the code is an
  \<open>error option\<close>, where \<open>None\<close> is \<open>nil\<close>; wrapping with \<open>%w\<close> keeps the sentinel.
\<close>

datatype error =
    ErrInvalidTx | ErrTxTooLarge | ErrTxAlreadyExists | ErrTxNotFound | ErrNoTxValidator
  | ErrMempoolFull | ErrMempoolClosed
  | ErrBlockNotFound | ErrBlockAlreadyExists | ErrInvalidBlock | ErrNoBlockValidator
  | ErrNonContiguousBlock | ErrStoreClosed
  | ErrCertificateNotFound | ErrCertificateAlreadyExists
  | ErrBatchNotFound | ErrBatchAlreadyExists
  | ErrInvalidPruneHeight | ErrPruneHeightTooHigh | ErrPruningDisabled
  | ErrPruningInProgress | ErrPrunerAlreadyActive | ErrPrunerNotActive
  | ErrInvalidHeight | ErrInvalidBatchSize | ErrInvalidSize | ErrDataTooLarge | ErrEmptyData
  | ErrInvalidMessage | ErrUnknownMessageType
  | ErrPeerNotFound | ErrPeerBlacklisted | ErrPeerAlreadyConnected | ErrMaxPeersReached | ErrNotConnected
  | ErrHandshakeTimeout | ErrAlreadySyncing | ErrNotSyncing | ErrSyncFailed | ErrKeyNotFound
  | ErrChainIDMismatch | ErrVersionMismatch | ErrHandshakeFailed
  | ErrInvalidVotingPower | ErrDuplicateValidator | ErrInsufficientQuorum
  | ErrValidatorSetNotFound
  | ErrComponentNotFound | ErrComponentAlreadyRegistered | ErrCircularDependency
  | ErrContainerAlreadyStarted | ErrDependencyNotFound
  | ErrStreamAlreadyRegistered | ErrStreamNotFound | ErrInvalidStreamConfig | ErrStreamInUse
  | ErrOther string

section \<open>Go maps\<close>

text \<open>
  A Go map is a finite map. Reading a missing key gives \<open>None\<close>; \<open>len\<close> is \<open>map_len\<close>. Where
  the code ranges over a map, the order is not determined by Go: the model takes the order as
  an argument, a list with \<open>enumerates ks m\<close>, and the properties hold for every such list.
\<close>

definition map_len :: "('k, 'v) fmap \<Rightarrow> nat" where
  "map_len m = card (fmdom' m)"

definition enumerates :: "'k list \<Rightarrow> ('k, 'v) fmap \<Rightarrow> bool" where
  "enumerates ks m \<longleftrightarrow> distinct ks \<and> set ks = fmdom' m"

text \<open>The sum of \<open>f v\<close> over the entries of a map.\<close>

definition map_weight :: "('v \<Rightarrow> int) \<Rightarrow> ('k, 'v) fmap \<Rightarrow> int" where
  "map_weight f m = (\<Sum>k\<in>fmdom' m. f (the (fmlookup m k)))"

lemma map_len_empty [simp]: "map_len fmempty = 0"
  by (simp add: map_len_def)

lemma map_len_upd_new [map_len_simps]:
  "fmlookup m k = None \<Longrightarrow> map_len (fmupd k v m) = Suc (map_len m)"
  by (simp add: map_len_def fmdom'_notI card_insert_if)

lemma map_len_upd_old [map_len_simps]:
  "fmlookup m k = Some w \<Longrightarrow> map_len (fmupd k v m) = map_len m"
  by (simp add: map_len_def fmdom'I insert_absorb)

lemma map_len_drop_old [map_len_simps]:
  "fmlookup m k = Some w \<Longrightarrow> map_len (fmdrop k m) = map_len m - 1"
  by (simp add: map_len_def fmdom'I)

lemma map_len_drop_new [map_len_simps]:
  "fmlookup m k = None \<Longrightarrow> map_len (fmdrop k m) = map_len m"
  by (simp add: map_len_def fmdom'_notI)

lemma map_len_pos: "fmlookup m k = Some v \<Longrightarrow> 0 < map_len m"
  unfolding map_len_def by (metis card_gt_0_iff empty_iff finite_fmdom' fmdom'I)

lemma map_len_enumerates: "enumerates ks m \<Longrightarrow> map_len m = length ks"
  unfolding enumerates_def map_len_def by (metis distinct_card)

lemma map_len_drop_le: "map_len (fmdrop k m) \<le> map_len m"
  by (simp add: map_len_def card_mono)

lemma map_len_filter_le: "map_len (fmfilter P m) \<le> map_len m"
  by (simp add: map_len_def card_mono)

lemma map_len_upd_le: "map_len (fmupd k v m) \<le> Suc (map_len m)"
  by (simp add: map_len_def card_insert_if)

lemma map_weight_empty [simp]: "map_weight f fmempty = 0"
  by (simp add: map_weight_def)

lemma map_weight_upd_new [weight_simps]:
  assumes "fmlookup m k = None"
  shows "map_weight f (fmupd k v m) = map_weight f m + f v"
proof -
  have k: "k \<notin> fmdom' m" using assms by (rule fmdom'_notI)
  have "(\<Sum>x\<in>fmdom' m. f (the (fmlookup (fmupd k v m) x)))
      = (\<Sum>x\<in>fmdom' m. f (the (fmlookup m x)))"
    using k by (intro sum.cong) auto
  then show ?thesis using k by (simp add: map_weight_def)
qed

lemma map_weight_drop_old [weight_simps]:
  assumes "fmlookup m k = Some v"
  shows "map_weight f (fmdrop k m) = map_weight f m - f v"
proof -
  have k: "k \<in> fmdom' m" using assms by (rule fmdom'I)
  have "(\<Sum>x\<in>fmdom' m - {k}. f (the (fmlookup (fmdrop k m) x)))
      = (\<Sum>x\<in>fmdom' m - {k}. f (the (fmlookup m x)))"
    by (intro sum.cong) auto
  then show ?thesis using k assms by (simp add: map_weight_def sum_diff1)
qed

lemma map_weight_drop_new [weight_simps]:
  "fmlookup m k = None \<Longrightarrow> map_weight f (fmdrop k m) = map_weight f m"
  by (simp add: fmdrop_idle' fmdom'_notI)

lemma map_weight_nonneg:
  "(\<And>k v. fmlookup m k = Some v \<Longrightarrow> 0 \<le> f v) \<Longrightarrow> 0 \<le> map_weight f m"
  unfolding map_weight_def by (rule sum_nonneg) (auto simp: fmlookup_dom'_iff)

lemma enumerates_empty [simp]: "enumerates ks fmempty \<longleftrightarrow> ks = []"
  by (auto simp: enumerates_def)

lemma enumerates_lookup: "enumerates ks m \<Longrightarrow> k \<in> set ks \<longleftrightarrow> (\<exists>v. fmlookup m k = Some v)"
  by (simp add: enumerates_def fmlookup_dom'_iff)

lemma enumerates_exists: "\<exists>ks. enumerates ks m"
  unfolding enumerates_def using finite_distinct_list [OF finite_fmdom' [of m]] by auto

lemma map_len_fmmap [simp]: "map_len (fmmap f m) = map_len m"
  by (simp add: map_len_def)

lemma map_weight_fmmap [simp]: "map_weight g (fmmap f m) = map_weight (\<lambda>x. g (f x)) m"
  unfolding map_weight_def
  by (intro sum.cong) (auto simp: fmlookup_dom'_iff)

lemma enumerates_fmmap [simp]: "enumerates ks (fmmap f m) = enumerates ks m"
  by (simp add: enumerates_def)

lemma map_weight_cong:
  "(\<And>k v. fmlookup m k = Some v \<Longrightarrow> f v = g v) \<Longrightarrow> map_weight f m = map_weight g m"
  unfolding map_weight_def by (intro sum.cong) (auto simp: fmlookup_dom'_iff)

lemma map_len_mono: "m1 \<subseteq>\<^sub>f m2 \<Longrightarrow> map_len m1 \<le> map_len m2"
  unfolding map_len_def by (rule card_mono) (auto simp: fmsubset_alt_def fmlookup_dom'_iff fmpred_iff)

lemma fmdrop_set_insert: "fmdrop_set (insert k A) m = fmdrop_set A (fmdrop k m)"
  by (rule fmap_ext) auto

lemma fmdrop_set_weight_le:
  assumes "\<And>v. 0 \<le> f v"
  shows "map_weight f (fmdrop_set A m) \<le> map_weight f m"
proof -
  have "map_weight f (fmdrop_set A m) = (\<Sum>k\<in>fmdom' m - A. f (the (fmlookup m k)))"
    unfolding map_weight_def by (intro sum.cong) auto
  also have "\<dots> \<le> map_weight f m"
    unfolding map_weight_def using assms by (intro sum_mono2) auto
  finally show ?thesis .
qed

lemma fmdrop_set_len_le: "map_len (fmdrop_set A m) \<le> map_len m"
  by (rule map_len_mono) (auto simp: fmsubset_alt_def fmpred_iff)

end
