(* ===== verification/AddressBook.thy ===== *)
theory AddressBook
  imports Prelude "HOL-Library.List_Lexorder" "HOL-Library.Char_ord"
begin

text \<open>
  \<open>internal/pex/address_book.go\<close>. A \<open>peer.ID\<close> is a Go string. Where the code ranges over the peers,
  the order is given by \<open>ord\<close>, a function from the map to a list of its keys; \<open>sort.Slice\<close> is the
  parameter \<open>srt\<close>, any function that returns a sorted permutation. The clock is \<open>now\<close>. The loop of
  \<open>SetMaxAddresses\<close> may not end, so it is a partial function. For \<open>Load\<close> and \<open>Save\<close> the model has
  what is written and read; the JSON encoding and the file system are not modelled.
\<close>

section \<open>Entries\<close>

record addressEntry =
  ae_Multiaddr :: string
  ae_NodeID :: string
  ae_LastSeen :: int
  ae_Latency :: int
  ae_IsSeed :: bool
  ae_LastAttempt :: int
  ae_AttemptCount :: int

type_synonym peers = "(string, addressEntry) fmap"

record addressBook =
  ab_peers :: peers
  ab_seeds :: "string list"
  ab_maxAddresses :: int

definition NewAddressBookWithLimit :: "int \<Rightarrow> addressBook" where
  "NewAddressBookWithLimit maxAddresses = \<lparr>ab_peers = fmempty, ab_seeds = [], ab_maxAddresses = maxAddresses\<rparr>"

definition NewAddressBook :: addressBook where
  "NewAddressBook = NewAddressBookWithLimit 0"

section \<open>Eviction\<close>

text \<open>The loop of \<open>evictOldestLocked\<close>; the empty string stands for no peer found.\<close>

fun oldest_loop :: "peers \<Rightarrow> string list \<Rightarrow> string \<Rightarrow> int \<Rightarrow> string" where
  "oldest_loop m [] oldestID oldestTime = oldestID"
| "oldest_loop m (i # is) oldestID oldestTime =
     (case fmlookup m i of
        None \<Rightarrow> oldest_loop m is oldestID oldestTime
      | Some entry \<Rightarrow>
          if ae_IsSeed entry then oldest_loop m is oldestID oldestTime
          else if ae_LastSeen entry < oldestTime then oldest_loop m is i (ae_LastSeen entry)
          else oldest_loop m is oldestID oldestTime)"

definition evictOldestLocked :: "(peers \<Rightarrow> string list) \<Rightarrow> peers \<Rightarrow> peers" where
  "evictOldestLocked ord m =
     (let oldestID = oldest_loop m (ord m) [] (2 ^ 63 - 1)
      in if oldestID \<noteq> [] then fmdrop oldestID m else m)"

definition ab_AddPeer ::
  "(peers \<Rightarrow> string list) \<Rightarrow> addressBook \<Rightarrow> string \<Rightarrow> string \<Rightarrow> string \<Rightarrow> int \<Rightarrow> int \<Rightarrow> addressBook" where
  "ab_AddPeer ord ab peerID multiaddr nodeID latency now =
     (case fmlookup (ab_peers ab) peerID of
        Some entry \<Rightarrow>
          ab\<lparr>ab_peers := fmupd peerID
            (entry\<lparr>ae_Multiaddr := multiaddr, ae_NodeID := nodeID, ae_LastSeen := now, ae_Latency := latency,
                   ae_AttemptCount := 0\<rparr>) (ab_peers ab)\<rparr>
      | None \<Rightarrow>
          let m = (if ab_maxAddresses ab > 0 \<and> int (map_len (ab_peers ab)) \<ge> ab_maxAddresses ab
                   then evictOldestLocked ord (ab_peers ab) else ab_peers ab)
          in ab\<lparr>ab_peers := fmupd peerID
               \<lparr>ae_Multiaddr = multiaddr, ae_NodeID = nodeID, ae_LastSeen = now, ae_Latency = latency,
                ae_IsSeed = False, ae_LastAttempt = 0, ae_AttemptCount = 0\<rparr> m\<rparr>)"

definition ab_MaxAddresses :: "addressBook \<Rightarrow> int" where
  "ab_MaxAddresses ab = ab_maxAddresses ab"

partial_function (option) evict_until :: "(peers \<Rightarrow> string list) \<Rightarrow> peers \<Rightarrow> int \<Rightarrow> peers option" where
  [code]: "evict_until ord m mx =
     (if int (map_len m) > mx then evict_until ord (evictOldestLocked ord m) mx else Some m)"

definition ab_SetMaxAddresses :: "(peers \<Rightarrow> string list) \<Rightarrow> addressBook \<Rightarrow> int \<Rightarrow> addressBook option" where
  "ab_SetMaxAddresses ord ab mx =
     (if mx > 0
      then (case evict_until ord (ab_peers ab) mx of
              None \<Rightarrow> None
            | Some m \<Rightarrow> Some (ab\<lparr>ab_peers := m, ab_maxAddresses := mx\<rparr>))
      else Some (ab\<lparr>ab_maxAddresses := mx\<rparr>))"

section \<open>Lookups and updates\<close>

definition ab_RemovePeer :: "addressBook \<Rightarrow> string \<Rightarrow> addressBook" where
  "ab_RemovePeer ab peerID = ab\<lparr>ab_peers := fmdrop peerID (ab_peers ab)\<rparr>"

definition ab_GetPeer :: "addressBook \<Rightarrow> string \<Rightarrow> addressEntry option" where
  "ab_GetPeer ab peerID = fmlookup (ab_peers ab) peerID"

definition ab_HasPeer :: "addressBook \<Rightarrow> string \<Rightarrow> bool" where
  "ab_HasPeer ab peerID \<longleftrightarrow> fmlookup (ab_peers ab) peerID \<noteq> None"

definition ab_GetPeers :: "addressBook \<Rightarrow> peers" where
  "ab_GetPeers ab = ab_peers ab"

definition ab_Size :: "addressBook \<Rightarrow> nat" where
  "ab_Size ab = map_len (ab_peers ab)"

text \<open>The update of an entry that is there; the next five methods have this shape.\<close>

definition update_entry :: "(addressEntry \<Rightarrow> addressEntry) \<Rightarrow> addressBook \<Rightarrow> string \<Rightarrow> addressBook" where
  "update_entry f ab peerID =
     (case fmlookup (ab_peers ab) peerID of
        None \<Rightarrow> ab
      | Some entry \<Rightarrow> ab\<lparr>ab_peers := fmupd peerID (f entry) (ab_peers ab)\<rparr>)"

definition ab_MarkSeed :: "addressBook \<Rightarrow> string \<Rightarrow> addressBook" where
  "ab_MarkSeed ab peerID = update_entry (\<lambda>e. e\<lparr>ae_IsSeed := True\<rparr>) ab peerID"

definition ab_UpdateLastSeen :: "addressBook \<Rightarrow> string \<Rightarrow> int \<Rightarrow> addressBook" where
  "ab_UpdateLastSeen ab peerID now = update_entry (\<lambda>e. e\<lparr>ae_LastSeen := now\<rparr>) ab peerID"

definition ab_UpdateLatency :: "addressBook \<Rightarrow> string \<Rightarrow> int \<Rightarrow> addressBook" where
  "ab_UpdateLatency ab peerID latency = update_entry (\<lambda>e. e\<lparr>ae_Latency := latency\<rparr>) ab peerID"

definition ab_RecordAttempt :: "addressBook \<Rightarrow> string \<Rightarrow> int \<Rightarrow> addressBook" where
  "ab_RecordAttempt ab peerID now =
     update_entry (\<lambda>e. e\<lparr>ae_LastAttempt := now, ae_AttemptCount := i64 (ae_AttemptCount e + 1)\<rparr>) ab peerID"

definition ab_ResetAttempts :: "addressBook \<Rightarrow> string \<Rightarrow> addressBook" where
  "ab_ResetAttempts ab peerID = update_entry (\<lambda>e. e\<lparr>ae_AttemptCount := 0\<rparr>) ab peerID"

section \<open>Selections\<close>

text \<open>\<open>candidates[:min(len(candidates), max)]\<close>, which panics for a negative \<open>max\<close>.\<close>

definition first_n :: "'a list \<Rightarrow> int \<Rightarrow> 'a list option" where
  "first_n xs mx = (if mx < 0 then None else Some (take (nat mx) xs))"

definition GetPeersForExchange ::
  "(addressEntry list \<Rightarrow> addressEntry list) \<Rightarrow> (peers \<Rightarrow> string list) \<Rightarrow> addressBook \<Rightarrow> int \<Rightarrow> int \<Rightarrow>
   addressEntry list option" where
  "GetPeersForExchange srt ord ab lastSeenAfter mx =
     (let candidates = filter (\<lambda>e. ae_LastSeen e \<ge> lastSeenAfter)
            (List.map_filter (fmlookup (ab_peers ab)) (ord (ab_peers ab)))
      in first_n (srt candidates) mx)"

text \<open>\<open>int64(1 << n)\<close>: the bit is lost when the shift is 64 or more.\<close>

definition shift_one :: "int \<Rightarrow> int" where
  "shift_one n = (if n \<ge> 64 then 0 else i64 (2 ^ nat n))"

definition backoff_of :: "addressEntry \<Rightarrow> int" where
  "backoff_of e = min (shift_one (ae_AttemptCount e)) 3600"

definition can_connect :: "(string \<Rightarrow> bool) option \<Rightarrow> int \<Rightarrow> string \<Rightarrow> addressEntry \<Rightarrow> bool" where
  "can_connect exclude now peerID e \<longleftrightarrow>
     \<not> (case exclude of None \<Rightarrow> False | Some ex \<Rightarrow> ex peerID) \<and>
     \<not> (ae_AttemptCount e > 0 \<and> now - ae_LastAttempt e < backoff_of e)"

definition GetPeersToConnect ::
  "(addressEntry list \<Rightarrow> addressEntry list) \<Rightarrow> (peers \<Rightarrow> string list) \<Rightarrow> addressBook \<Rightarrow> (string \<Rightarrow> bool) option \<Rightarrow>
   int \<Rightarrow> int \<Rightarrow> addressEntry list option" where
  "GetPeersToConnect srt ord ab exclude mx now =
     (let candidates = List.map_filter (\<lambda>peerID. case fmlookup (ab_peers ab) peerID of
            None \<Rightarrow> None
          | Some e \<Rightarrow> if can_connect exclude now peerID e then Some e else None) (ord (ab_peers ab))
      in first_n (srt candidates) mx)"

definition ab_AddSeeds :: "addressBook \<Rightarrow> string list \<Rightarrow> addressBook" where
  "ab_AddSeeds ab seeds = ab\<lparr>ab_seeds := ab_seeds ab @ seeds\<rparr>"

definition ab_GetSeeds :: "addressBook \<Rightarrow> string list" where
  "ab_GetSeeds ab = ab_seeds ab"

text \<open>\<open>nowNs\<close> is in nanoseconds; \<open>Unix\<close> rounds down to seconds.\<close>

definition ab_Prune :: "addressBook \<Rightarrow> int \<Rightarrow> int \<Rightarrow> nat \<times> addressBook" where
  "ab_Prune ab maxAge nowNs =
     (let cutoff = (nowNs - maxAge) div 1000000000;
          stale = (\<lambda>e. \<not> ae_IsSeed e \<and> ae_LastSeen e < cutoff);
          kept = fmfilter (\<lambda>p. \<not> stale (the (fmlookup (ab_peers ab) p))) (ab_peers ab)
      in (map_len (ab_peers ab) - map_len kept, ab\<lparr>ab_peers := kept\<rparr>))"

section \<open>Load and Save\<close>

text \<open>The contents of the file: the entries of the peers, then the seeds.\<close>

definition saved_data :: "(peers \<Rightarrow> string list) \<Rightarrow> addressBook \<Rightarrow> addressEntry list \<times> string list" where
  "saved_data ord ab = (List.map_filter (fmlookup (ab_peers ab)) (ord (ab_peers ab)), ab_seeds ab)"

definition load_peers :: "addressEntry list \<Rightarrow> peers" where
  "load_peers es = fold (\<lambda>entry m. if ae_NodeID entry = [] then m else fmupd (ae_NodeID entry) entry m) es fmempty"

definition loaded_book :: "addressBook \<Rightarrow> addressEntry list \<times> string list \<Rightarrow> addressBook" where
  "loaded_book ab book = ab\<lparr>ab_peers := load_peers (fst book), ab_seeds := snd book\<rparr>"

section \<open>Eviction takes the oldest peer that is not a seed\<close>

definition evictable :: "peers \<Rightarrow> string \<Rightarrow> bool" where
  "evictable m p \<longleftrightarrow> (\<exists>e. fmlookup m p = Some e \<and> \<not> ae_IsSeed e)"

text \<open>Identifiers are not empty and clock readings are below the largest int64.\<close>

definition book_ok :: "peers \<Rightarrow> bool" where
  "book_ok m \<longleftrightarrow> fmlookup m [] = None \<and> (\<forall>p e. fmlookup m p = Some e \<longrightarrow> ae_LastSeen e < 2 ^ 63 - 1)"

lemma oldest_loop_spec:
  assumes "oldestID = [] \<and> t = 2 ^ 63 - 1 \<or> (\<exists>e. fmlookup m oldestID = Some e \<and> \<not> ae_IsSeed e \<and> ae_LastSeen e = t)"
  shows "(let r = oldest_loop m ps oldestID t in
    (r = oldestID \<and> (\<forall>p \<in> set ps. \<forall>e. fmlookup m p = Some e \<and> \<not> ae_IsSeed e \<longrightarrow> t \<le> ae_LastSeen e)) \<or>
    (\<exists>e. r \<in> set ps \<and> fmlookup m r = Some e \<and> \<not> ae_IsSeed e \<and> ae_LastSeen e < t \<and>
      (\<forall>p \<in> set ps. \<forall>e'. fmlookup m p = Some e' \<and> \<not> ae_IsSeed e' \<longrightarrow> ae_LastSeen e \<le> ae_LastSeen e')))"
  using assms
proof (induction m ps oldestID t rule: oldest_loop.induct)
  case (2 m i ps oldestID t)
  show ?case
  proof (cases "fmlookup m i")
    case None
    then show ?thesis using "2.IH"(1) [OF None "2.prems"] by (auto simp: Let_def)
  next
    case (Some e)
    consider (seed) "ae_IsSeed e" | (older) "\<not> ae_IsSeed e" "ae_LastSeen e < t" | (newer) "\<not> ae_IsSeed e" "t \<le> ae_LastSeen e"
      by linarith
    then show ?thesis
    proof cases
      case seed
      then show ?thesis using "2.IH"(2) [OF Some seed "2.prems"] Some by (auto simp: Let_def)
    next
      case older
      then have "let r = oldest_loop m ps i (ae_LastSeen e) in
          (r = i \<and> (\<forall>p \<in> set ps. \<forall>e'. fmlookup m p = Some e' \<and> \<not> ae_IsSeed e' \<longrightarrow> ae_LastSeen e \<le> ae_LastSeen e')) \<or>
          (\<exists>e''. r \<in> set ps \<and> fmlookup m r = Some e'' \<and> \<not> ae_IsSeed e'' \<and> ae_LastSeen e'' < ae_LastSeen e \<and>
            (\<forall>p \<in> set ps. \<forall>e'. fmlookup m p = Some e' \<and> \<not> ae_IsSeed e' \<longrightarrow> ae_LastSeen e'' \<le> ae_LastSeen e'))"
        using "2.IH"(3) [OF Some] Some by simp
      then show ?thesis using older Some by (fastforce simp: Let_def)
    next
      case newer
      then have "\<not> ae_LastSeen e < t" by simp
      then show ?thesis using "2.IH"(4) [OF Some newer(1) _ "2.prems"] newer Some by (fastforce simp: Let_def)
    qed
  qed
qed (simp add: Let_def)

lemma enumerates_set: "enumerates ks m \<Longrightarrow> p \<in> set ks \<longleftrightarrow> fmlookup m p \<noteq> None"
  by (metis enumerates_def fmdom'_notD fmdom'_notI)

lemma book_evict_cases:
  assumes ord: "enumerates (ord m) m" and ok: "book_ok m"
  obtains (evict) p e where "evictOldestLocked ord m = fmdrop p m" "fmlookup m p = Some e" "\<not> ae_IsSeed e"
      "\<And>q e'. fmlookup m q = Some e' \<Longrightarrow> \<not> ae_IsSeed e' \<Longrightarrow> ae_LastSeen e \<le> ae_LastSeen e'"
  | (none) "evictOldestLocked ord m = m" "\<And>p. \<not> evictable m p"
proof -
  let ?r = "oldest_loop m (ord m) [] (2 ^ 63 - 1)"
  have set: "p \<in> set (ord m)" if "fmlookup m p = Some e" for p e using enumerates_set [OF ord] that by simp
  consider (empty) "?r = []" "\<forall>p \<in> set (ord m). \<forall>e. fmlookup m p = Some e \<and> \<not> ae_IsSeed e \<longrightarrow> 2 ^ 63 - 1 \<le> ae_LastSeen e"
    | (found) e where "?r \<in> set (ord m)" "fmlookup m ?r = Some e" "\<not> ae_IsSeed e"
      "\<forall>p \<in> set (ord m). \<forall>e'. fmlookup m p = Some e' \<and> \<not> ae_IsSeed e' \<longrightarrow> ae_LastSeen e \<le> ae_LastSeen e'"
    using oldest_loop_spec [of "[]" "2 ^ 63 - 1" m "ord m"] unfolding Let_def by blast
  then show thesis
  proof cases
    case empty
    have "\<not> evictable m p" for p
      using empty(2) set ok unfolding evictable_def book_ok_def by (meson linorder_not_le)
    then show thesis using none empty(1) by (simp add: evictOldestLocked_def)
  next
    case (found e)
    have "?r \<noteq> []" using found(2) ok by (auto simp: book_ok_def)
    then have "evictOldestLocked ord m = fmdrop ?r m" by (simp add: evictOldestLocked_def)
    then show thesis using evict [OF _ found(2,3)] found(4) set by blast
  qed
qed

definition seeds_of :: "peers \<Rightarrow> string set" where
  "seeds_of m = {p. \<exists>e. fmlookup m p = Some e \<and> ae_IsSeed e}"

lemma seeds_of_sub: "seeds_of m \<subseteq> fmdom' m"
  by (auto simp: seeds_of_def fmdom'I)

lemma finite_seeds [simp]: "finite (seeds_of m)"
  using seeds_of_sub finite_subset by fastforce

lemma seeds_le_len: "card (seeds_of m) \<le> map_len m"
  unfolding map_len_def by (intro card_mono seeds_of_sub) simp

lemma book_ok_drop: "book_ok m \<Longrightarrow> book_ok (fmdrop p m)"
  by (simp add: book_ok_def)

lemma seeds_of_drop: "fmlookup m p = Some e \<Longrightarrow> \<not> ae_IsSeed e \<Longrightarrow> seeds_of (fmdrop p m) = seeds_of m"
  by (auto simp: seeds_of_def)

lemma evict_frame:
  assumes "enumerates (ord m) m" "book_ok m"
  shows "seeds_of (evictOldestLocked ord m) = seeds_of m" "book_ok (evictOldestLocked ord m)"
  using assms
  by (cases rule: book_evict_cases; simp add: seeds_of_drop book_ok_drop)+

text \<open>
  What shrinking a book to \<open>mx\<close> entries may do: entries are only removed, never a seed, and what
  is removed was not seen later than any peer that stays and is not a seed.
\<close>

definition shrunk :: "peers \<Rightarrow> peers \<Rightarrow> bool" where
  "shrunk m m' \<longleftrightarrow>
     (\<forall>p e. fmlookup m' p = Some e \<longrightarrow> fmlookup m p = Some e) \<and> seeds_of m' = seeds_of m \<and>
     (\<forall>p e q e'. fmlookup m p = Some e \<and> fmlookup m' p = None \<and> fmlookup m' q = Some e' \<and> \<not> ae_IsSeed e' \<longrightarrow>
        ae_LastSeen e \<le> ae_LastSeen e')"

lemma shrunk_refl: "shrunk m m"
  by (auto simp: shrunk_def)

lemma shrunk_drop:
  assumes p: "fmlookup m p = Some e" "\<not> ae_IsSeed e"
    "\<And>q e'. fmlookup m q = Some e' \<Longrightarrow> \<not> ae_IsSeed e' \<Longrightarrow> ae_LastSeen e \<le> ae_LastSeen e'"
    and s: "shrunk (fmdrop p m) m'"
  shows "shrunk m m'"
proof -
  have sub: "\<And>q e'. fmlookup m' q = Some e' \<Longrightarrow> fmlookup m q = Some e' \<and> q \<noteq> p"
    using s unfolding shrunk_def by (metis fmlookup_drop option.distinct(1))
  have "ae_LastSeen ea \<le> ae_LastSeen e'"
    if "fmlookup m q = Some ea" "fmlookup m' q = None" "fmlookup m' q' = Some e'" "\<not> ae_IsSeed e'" for q ea q' e'
  proof (cases "q = p")
    case True
    then show ?thesis using p(1) p(3) [of q' e'] sub [OF that(3)] that by simp
  next
    case False
    then show ?thesis using s that unfolding shrunk_def by (metis fmlookup_drop)
  qed
  moreover have "seeds_of m' = seeds_of m" using s seeds_of_drop [OF p(1,2)] by (simp add: shrunk_def)
  ultimately show ?thesis using sub unfolding shrunk_def by blast
qed

lemma evict_until_returns:
  assumes ord: "\<And>m. enumerates (ord m) m"
  shows "book_ok m \<Longrightarrow> int (card (seeds_of m)) \<le> mx \<Longrightarrow>
    \<exists>m'. evict_until ord m mx = Some m' \<and> shrunk m m' \<and> int (map_len m') \<le> mx"
proof (induction "map_len m" arbitrary: m rule: less_induct)
  case less
  show ?case
  proof (cases "int (map_len m) > mx")
    case True
    from ord less.prems(1) show ?thesis
    proof (cases rule: book_evict_cases [of ord m])
      case (evict p e)
      have "map_len (fmdrop p m) < map_len m"
        using map_len_drop_old [OF evict(2)] map_len_pos [OF evict(2)] by simp
      then obtain m' where m': "evict_until ord (fmdrop p m) mx = Some m'" "shrunk (fmdrop p m) m'" "int (map_len m') \<le> mx"
        using less.hyps [of "fmdrop p m"] less.prems book_ok_drop seeds_of_drop [OF evict(2,3)] by auto
      have "evict_until ord m mx = Some m'"
        using True m'(1) evict(1) by (subst evict_until.simps) simp
      then show ?thesis using m'(3) shrunk_drop [OF evict(2,3) _ m'(2)] evict(4) by blast
    next
      case none
      have "fmdom' m \<subseteq> seeds_of m"
      proof
        fix p assume "p \<in> fmdom' m"
        then obtain e where "fmlookup m p = Some e" by (meson fmdom'_notI not_None_eq)
        then show "p \<in> seeds_of m" using none(2) [of p] by (simp add: evictable_def seeds_of_def)
      qed
      then have "seeds_of m = fmdom' m" using seeds_of_sub by blast
      then show ?thesis using True less.prems(2) by (simp add: map_len_def)
    qed
  next
    case False
    then show ?thesis by (subst evict_until.simps) (simp add: shrunk_refl)
  qed
qed

lemma evict_until_only_if:
  assumes "evict_until ord m mx = Some m'" and ord: "\<And>m. enumerates (ord m) m" and ok: "book_ok m"
  shows "int (card (seeds_of m)) \<le> mx"
proof -
  have "(\<forall>m. enumerates (ord m) m) \<longrightarrow> book_ok m \<longrightarrow> int (card (seeds_of m)) \<le> mx"
  proof (rule evict_until.raw_induct [OF _ assms(1)], intro impI)
    fix f ord m mx m'
    assume IH: "\<And>ord m mx m'. f ord m mx = Some m' \<Longrightarrow>
        (\<forall>m. enumerates (ord m) m) \<longrightarrow> book_ok m \<longrightarrow> int (card (seeds_of m)) \<le> mx"
      and run: "(if int (map_len m) > mx then f ord (evictOldestLocked ord m) mx else Some m) = Some m'"
      and a: "\<forall>m. enumerates (ord m) m" "book_ok m"
    show "int (card (seeds_of m)) \<le> mx"
    proof (cases "int (map_len m) > mx")
      case True
      then show ?thesis using IH [of ord "evictOldestLocked ord m" mx m'] run a evict_frame [of ord m] by simp
    next
      case False
      then show ?thesis using seeds_le_len [of m] by linarith
    qed
  qed
  then show ?thesis using ord ok by blast
qed

lemma load_fold:
  assumes "distinct (map ae_NodeID es)"
  shows "fmlookup (fold (\<lambda>entry m. if ae_NodeID entry = [] then m else fmupd (ae_NodeID entry) entry m) es m) k = Some e \<longleftrightarrow>
    k \<noteq> [] \<and> e \<in> set es \<and> ae_NodeID e = k \<or> (k = [] \<or> k \<notin> ae_NodeID ` set es) \<and> fmlookup m k = Some e"
  using assms
proof (induction es arbitrary: m)
  case (Cons a es)
  let ?m = "if ae_NodeID a = [] then m else fmupd (ae_NodeID a) a m"
  have na: "ae_NodeID a \<notin> ae_NodeID ` set es" using Cons.prems by simp
  have "fmlookup (fold (\<lambda>entry m. if ae_NodeID entry = [] then m else fmupd (ae_NodeID entry) entry m) (a # es) m) k = Some e \<longleftrightarrow> k \<noteq> [] \<and> e \<in> set es \<and> ae_NodeID e = k \<or> (k = [] \<or> k \<notin> ae_NodeID ` set es) \<and> fmlookup ?m k = Some e"
    using Cons by (simp only: fold.simps o_apply distinct.simps list.map)
  also have "\<dots> \<longleftrightarrow> k \<noteq> [] \<and> e \<in> set (a # es) \<and> ae_NodeID e = k \<or>
      (k = [] \<or> k \<notin> ae_NodeID ` set (a # es)) \<and> fmlookup m k = Some e"
    using na by (cases "ae_NodeID a = []"; cases "k = ae_NodeID a") auto
  finally show ?case .
qed simp

lemma load_peers_lookup:
  "distinct (map ae_NodeID es) \<Longrightarrow>
   fmlookup (load_peers es) k = Some e \<longleftrightarrow> k \<noteq> [] \<and> e \<in> set es \<and> ae_NodeID e = k"
  unfolding load_peers_def by (subst load_fold) simp_all

lemma saved_entries:
  assumes "enumerates (ord (ab_peers ab)) (ab_peers ab)"
  shows "e \<in> set (fst (saved_data ord ab)) \<longleftrightarrow> (\<exists>p. fmlookup (ab_peers ab) p = Some e)"
proof -
  have "e \<in> set (fst (saved_data ord ab)) \<longleftrightarrow> (\<exists>p \<in> set (ord (ab_peers ab)). fmlookup (ab_peers ab) p = Some e)"
    by (force simp: saved_data_def List.map_filter_def)
  then show ?thesis using enumerates_set [OF assms] by auto
qed

lemma saved_distinct:
  assumes "enumerates (ord (ab_peers ab)) (ab_peers ab)"
    and "\<And>p e q e'. fmlookup (ab_peers ab) p = Some e \<Longrightarrow> fmlookup (ab_peers ab) q = Some e' \<Longrightarrow>
      ae_NodeID e = ae_NodeID e' \<Longrightarrow> p = q"
  shows "distinct (map ae_NodeID (fst (saved_data ord ab)))"
proof -
  have "distinct (map ae_NodeID (List.map_filter (fmlookup (ab_peers ab)) ks))" if "distinct ks" for ks
    using that
  proof (induction ks)
    case (Cons k ks)
    have "ae_NodeID e \<notin> ae_NodeID ` set (List.map_filter (fmlookup (ab_peers ab)) ks)" if "fmlookup (ab_peers ab) k = Some e" for e
    proof
      assume "ae_NodeID e \<in> ae_NodeID ` set (List.map_filter (fmlookup (ab_peers ab)) ks)"
      then obtain q e' where "q \<in> set ks" "fmlookup (ab_peers ab) q = Some e'" "ae_NodeID e = ae_NodeID e'"
        by (auto simp: List.map_filter_def)
      then show False using assms(2) [OF that] Cons.prems by auto
    qed
    then show ?case using Cons by (simp add: List.map_filter_simps split: option.splits)
  qed (simp add: List.map_filter_simps)
  then show ?thesis using assms(1) by (simp add: saved_data_def enumerates_def)
qed

section \<open>Properties\<close>

text \<open>
  C30: \<open>SetMaxAddresses\<close> returns exactly when the limit is not positive or there are at most as
  many seeds as the limit; otherwise its loop runs forever, with the book locked. When it
  returns under a positive limit, the book has at most that many entries, all seeds are still
  there, and what was removed was not seen later than any remaining peer that is not a seed.
\<close>

theorem set_max_addresses_returns_iff:
  assumes ord: "\<And>m. enumerates (ord m) m" and ok: "book_ok (ab_peers ab)"
  shows "(ab_SetMaxAddresses ord ab mx = None \<longleftrightarrow> 0 < mx \<and> mx < int (card (seeds_of (ab_peers ab)))) \<and>
    (\<forall>ab'. ab_SetMaxAddresses ord ab mx = Some ab' \<longrightarrow> ab_MaxAddresses ab' = mx \<and>
       shrunk (ab_GetPeers ab) (ab_GetPeers ab') \<and> (0 < mx \<longrightarrow> int (ab_Size ab') \<le> mx))"
proof (cases "0 < mx \<and> mx < int (card (seeds_of (ab_peers ab)))")
  case True
  then have "evict_until ord (ab_peers ab) mx = None"
    using evict_until_only_if [OF _ ord ok, of mx] by (cases "evict_until ord (ab_peers ab) mx") fastforce+
  then show ?thesis using True by (simp add: ab_SetMaxAddresses_def)
next
  case False
  show ?thesis
  proof (cases "0 < mx")
    case pos: True
    then obtain m' where "evict_until ord (ab_peers ab) mx = Some m'" "shrunk (ab_peers ab) m'" "int (map_len m') \<le> mx"
      using evict_until_returns [OF ord ok, of mx] False by fastforce
    then show ?thesis
      using pos False by (simp add: ab_SetMaxAddresses_def ab_MaxAddresses_def ab_GetPeers_def ab_Size_def)
  next
    case nonpos: False
    then show ?thesis by (auto simp: ab_SetMaxAddresses_def ab_MaxAddresses_def ab_GetPeers_def shrunk_refl)
  qed
qed

definition sorted_keys :: "peers \<Rightarrow> string list" where
  "sorted_keys m = sorted_list_of_set (fmdom' m)"

lemma sorted_keys_enumerates: "enumerates (sorted_keys m) m"
  by (simp add: enumerates_def sorted_keys_def)

definition two_seeds :: addressBook where
  "two_seeds = ab_MarkSeed (ab_MarkSeed
     (fold (\<lambda>p ab. ab_AddPeer sorted_keys ab p ''/ip4/10.0.0.1'' p 5 100) [''a'', ''b'', ''c'']
        (NewAddressBookWithLimit 3)) ''a'') ''b''"

lemma two_seeds_eval:
  "book_ok (ab_peers two_seeds)" "seeds_of (ab_peers two_seeds) = {''a'', ''b''}"
proof -
  have ps: "ab_peers two_seeds = fmap_of_list
      [(''a'', \<lparr>ae_Multiaddr = ''/ip4/10.0.0.1'', ae_NodeID = ''a'', ae_LastSeen = 100, ae_Latency = 5,
                 ae_IsSeed = True, ae_LastAttempt = 0, ae_AttemptCount = 0\<rparr>),
       (''b'', \<lparr>ae_Multiaddr = ''/ip4/10.0.0.1'', ae_NodeID = ''b'', ae_LastSeen = 100, ae_Latency = 5,
                 ae_IsSeed = True, ae_LastAttempt = 0, ae_AttemptCount = 0\<rparr>),
       (''c'', \<lparr>ae_Multiaddr = ''/ip4/10.0.0.1'', ae_NodeID = ''c'', ae_LastSeen = 100, ae_Latency = 5,
                 ae_IsSeed = False, ae_LastAttempt = 0, ae_AttemptCount = 0\<rparr>)]"
    by code_simp
  show "book_ok (ab_peers two_seeds)"
    unfolding ps by (auto simp: book_ok_def fmap_of_list.rep_eq split: if_splits)
  show "seeds_of (ab_peers two_seeds) = {''a'', ''b''}"
    unfolding ps by (auto simp: seeds_of_def fmap_of_list.rep_eq split: if_splits)
qed

theorem set_max_addresses_returns_iff_witness:
  "ab_SetMaxAddresses sorted_keys two_seeds 1 = None \<and>
   (\<exists>ab'. ab_SetMaxAddresses sorted_keys two_seeds 2 = Some ab' \<and> ab_Size ab' = 2)"
proof -
  note t = set_max_addresses_returns_iff [of sorted_keys two_seeds, OF sorted_keys_enumerates two_seeds_eval(1)]
  have "ab_SetMaxAddresses sorted_keys two_seeds 1 = None" using t [of 1] by (simp add: two_seeds_eval(2))
  moreover have "map_option ab_Size (ab_SetMaxAddresses sorted_keys two_seeds 2) = Some 2" by code_simp
  ultimately show ?thesis by auto
qed



text \<open>
  C40: The exponential backoff ends after 62 failures: from 63 failed attempts on, the shift
  overflows and a peer is offered for connection at once.
\<close>

theorem backoff_overflows:
  assumes "ae_LastAttempt e \<le> now" "\<not> (case exclude of None \<Rightarrow> False | Some ex \<Rightarrow> ex p)"
  shows "(63 \<le> ae_AttemptCount e \<longrightarrow> can_connect exclude now p e) \<and>
    (12 \<le> ae_AttemptCount e \<and> ae_AttemptCount e \<le> 62 \<longrightarrow> (can_connect exclude now p e \<longleftrightarrow> 3600 \<le> now - ae_LastAttempt e))"
proof -
  have big: "shift_one n \<le> 0" if "63 \<le> n" for n
    using that by (cases "n = 63") (simp_all add: shift_one_def i64_def)
  have small: "3600 \<le> shift_one n" if "12 \<le> n" "n \<le> 62" for n
  proof -
    have le: "(2 :: int) ^ 12 \<le> 2 ^ nat n" "(2 :: int) ^ nat n \<le> 2 ^ 62"
      using that by (intro power_increasing; simp)+
    then have "in_i64 (2 ^ nat n)" by (simp add: in_i64_def)
    then show ?thesis using that le by (simp add: shift_one_def)
  qed
  show ?thesis
    using big [of "ae_AttemptCount e"] small [of "ae_AttemptCount e"] assms
    by (auto simp: can_connect_def backoff_of_def)
qed

definition failing_peer :: "int \<Rightarrow> addressEntry" where
  "failing_peer n = \<lparr>ae_Multiaddr = ''/ip4/10.0.0.1'', ae_NodeID = ''n'', ae_LastSeen = 100, ae_Latency = 5,
     ae_IsSeed = False, ae_LastAttempt = 1000, ae_AttemptCount = n\<rparr>"

theorem backoff_overflows_witness:
  "\<not> can_connect None 1001 ''n'' (failing_peer 62) \<and> can_connect None 1001 ''n'' (failing_peer 63)"
  using backoff_overflows [where e = "failing_peer 62" and now = 1001 and exclude = None and p = "''n''"] backoff_overflows [where e = "failing_peer 63" and now = 1001 and exclude = None and p = "''n''"]
  by (simp add: failing_peer_def)

end
