(* ===== verification/BlockStore.thy ===== *)
theory BlockStore
  imports Prelude
begin

text \<open>
  \<open>pkg/blockstore\<close>: the \<open>BlockStore\<close> interface as a record of methods with its contract
  (locale \<open>block_store\<close>, and \<open>complete_store\<close> for the stores that accept every new block) and
  pruning configurations (\<open>pruning.go\<close>).
\<close>

section \<open>The interface\<close>

record 's blockstore =
  SaveBlock :: "'s \<Rightarrow> int \<Rightarrow> bytes \<Rightarrow> bytes \<Rightarrow> error option \<times> 's"
  LoadBlock :: "'s \<Rightarrow> int \<Rightarrow> error + (bytes \<times> bytes)"
  LoadBlockByHash :: "'s \<Rightarrow> bytes \<Rightarrow> error + (int \<times> bytes)"
  HasBlock :: "'s \<Rightarrow> int \<Rightarrow> bool"
  Height :: "'s \<Rightarrow> int"
  Base :: "'s \<Rightarrow> int"

text \<open>A client that saves blocks one after the other and goes on after an error.\<close>

fun save_all :: "('s, 'z) blockstore_scheme \<Rightarrow> 's \<Rightarrow> (int \<times> bytes \<times> bytes) list \<Rightarrow> 's" where
  "save_all S s [] = s"
| "save_all S s ((height, hash, data) # bs) = save_all S (snd (SaveBlock S s height hash data)) bs"

text \<open>
  \<open>blocks s\<close> is what the store holds: hash and data by height. \<open>keep\<close> is what it retains of
  the data of a block. The contract is for positive heights.
\<close>

locale block_store =
  fixes S :: "('s, 'z) blockstore_scheme"
    and inv :: "'s \<Rightarrow> bool"
    and blocks :: "'s \<Rightarrow> (int, bytes \<times> bytes) fmap"
    and keep :: "bytes \<Rightarrow> bytes"
  assumes save_inv: "inv s \<Longrightarrow> 0 < h \<Longrightarrow> inv (snd (SaveBlock S s h hash data))"
    and save_ok: "inv s \<Longrightarrow> 0 < h \<Longrightarrow> SaveBlock S s h hash data = (None, s') \<Longrightarrow>
      fmlookup (blocks s) h = None \<and> blocks s' = fmupd h (hash, keep data) (blocks s) \<and>
      Height S s' = max (Height S s) h"
    and save_error: "inv s \<Longrightarrow> 0 < h \<Longrightarrow> SaveBlock S s h hash data = (Some e, s') \<Longrightarrow> s' = s"
    and has: "inv s \<Longrightarrow> HasBlock S s h \<longleftrightarrow> fmlookup (blocks s) h \<noteq> None"
    and load: "inv s \<Longrightarrow> LoadBlock S s h =
      (case fmlookup (blocks s) h of Some b \<Rightarrow> Inr b | None \<Rightarrow> Inl ErrBlockNotFound)"
    and load_by_hash: "inv s \<Longrightarrow> LoadBlockByHash S s hash = Inr (h, d) \<longleftrightarrow>
      fmlookup (blocks s) h = Some (hash, d)"
    and load_by_hash_error: "inv s \<Longrightarrow> LoadBlockByHash S s hash = Inl e \<Longrightarrow> e = ErrBlockNotFound"
    and bounds: "inv s \<Longrightarrow> fmlookup (blocks s) h \<noteq> None \<Longrightarrow>
      0 < h \<and> Base S s \<le> h \<and> h \<le> Height S s"
begin

text \<open>No block is ever overwritten: what is stored stays, with the same hash and data.\<close>

lemma save_cases:
  assumes "inv s" "0 < h"
  obtains (ok) s' where "SaveBlock S s h hash data = (None, s')" "fmlookup (blocks s) h = None"
      "blocks s' = fmupd h (hash, keep data) (blocks s)" "inv s'"
  | (error) e where "SaveBlock S s h hash data = (Some e, s)"
proof (cases "SaveBlock S s h hash data")
  case (Pair e s')
  show ?thesis
  proof (cases e)
    case None
    have "fmlookup (blocks s) h = None" "blocks s' = fmupd h (hash, keep data) (blocks s)" "inv s'"
      using save_ok [OF assms, of hash data s'] save_inv [OF assms, of hash data] Pair None
      by simp_all
    then show ?thesis using ok Pair None by blast
  next
    case (Some err)
    then show ?thesis using save_error [OF assms] Pair error by blast
  qed
qed

lemma save_all_keeps:
  "inv s \<Longrightarrow> \<forall>(k, x) \<in> set bs. 0 < k \<Longrightarrow> inv (save_all S s bs) \<and>
    (\<forall>h b. fmlookup (blocks s) h = Some b \<longrightarrow> fmlookup (blocks (save_all S s bs)) h = Some b)"
proof (induction bs arbitrary: s)
  case (Cons x bs)
  obtain k hash data where x: "x = (k, hash, data)" by (cases x)
  have k: "0 < k" and bs: "\<forall>(k, x) \<in> set bs. 0 < k" using Cons.prems(2) x by auto
  from Cons.prems(1) k show ?case
  proof (cases rule: save_cases [of s k hash data])
    case (ok s')
    from Cons.IH [OF ok(4) bs] ok x show ?thesis
      by (auto split: if_splits) (metis fmupd_lookup option.distinct(1))
  next
    case (error e)
    then show ?thesis using Cons.IH [OF Cons.prems(1) bs] x by simp
  qed
qed simp

text \<open>A hash leads to one height only.\<close>

lemma hash_unique:
  assumes "inv s" "fmlookup (blocks s) h = Some (hash, d)" "fmlookup (blocks s) h' = Some (hash, d')"
  shows "h = h'"
  using load_by_hash [OF assms(1), of hash h d] load_by_hash [OF assms(1), of hash h' d'] assms(2,3)
  by simp

lemma load_after_save:
  assumes "inv s" "0 < h" "SaveBlock S s h hash data = (None, s')"
  shows "LoadBlock S s' h = Inr (hash, keep data) \<and> LoadBlockByHash S s' hash = Inr (h, keep data)"
  using save_ok [OF assms] save_inv [OF assms(1,2), of hash data] assms(3)
  by (simp add: load load_by_hash)

end

text \<open>Stores that accept a block whenever neither its height nor its hash is taken.\<close>

locale complete_store = block_store +
  assumes save_accepts: "inv s \<Longrightarrow> 0 < h \<Longrightarrow> fmlookup (blocks s) h = None \<Longrightarrow>
    (\<And>k d. fmlookup (blocks s) k \<noteq> Some (hash, d)) \<Longrightarrow> fst (SaveBlock S s h hash data) = None"
begin

lemma save_iff:
  assumes "inv s" "0 < h"
  shows "fst (SaveBlock S s h hash data) = None \<longleftrightarrow>
    fmlookup (blocks s) h = None \<and> (\<forall>k d. fmlookup (blocks s) k \<noteq> Some (hash, d))"
proof
  assume ok: "fst (SaveBlock S s h hash data) = None"
  then obtain s' where s': "SaveBlock S s h hash data = (None, s')"
    by (cases "SaveBlock S s h hash data") simp
  have new: "fmlookup (blocks s) h = None" "blocks s' = fmupd h (hash, keep data) (blocks s)"
    using save_ok [OF assms s'] by simp_all
  have "inv s'" using save_inv [OF assms, of hash data] s' by simp
  have False if "fmlookup (blocks s) k = Some (hash, d)" for k d
    using hash_unique [OF \<open>inv s'\<close>, of h hash "keep data" k d] that new by (cases "k = h") simp_all
  then show "fmlookup (blocks s) h = None \<and> (\<forall>k d. fmlookup (blocks s) k \<noteq> Some (hash, d))"
    using new by blast
qed (use assms save_accepts in blast)

end

section \<open>Pruning configurations\<close>

text \<open>\<open>OtherStrategy\<close> is any string that is not one of the four constants.\<close>

datatype pruneStrategy = PruneNothing | PruneEverything | PruneDefault | PruneCustom | OtherStrategy string

record pruneConfig =
  Strategy :: pruneStrategy
  KeepRecent :: int
  KeepEvery :: int
  Interval :: int

definition DefaultPruneConfig :: pruneConfig where
  "DefaultPruneConfig = \<lparr>Strategy = PruneDefault, KeepRecent = 1000, KeepEvery = 10000,
     Interval = 3600 * 1000000000\<rparr>"

definition ArchivePruneConfig :: pruneConfig where
  "ArchivePruneConfig = \<lparr>Strategy = PruneNothing, KeepRecent = 0, KeepEvery = 0, Interval = 0\<rparr>"

definition AggressivePruneConfig :: pruneConfig where
  "AggressivePruneConfig = \<lparr>Strategy = PruneEverything, KeepRecent = 100, KeepEvery = 0,
     Interval = 600 * 1000000000\<rparr>"

definition ShouldKeep :: "pruneConfig option \<Rightarrow> int \<Rightarrow> int \<Rightarrow> bool" where
  "ShouldKeep c height currentHeight =
     (case c of
        None \<Rightarrow> True
      | Some cfg \<Rightarrow>
          if Strategy cfg = PruneNothing then True
          else if KeepRecent cfg > 0 \<and> height > currentHeight - KeepRecent cfg then True
          else if Strategy cfg = PruneDefault \<and> KeepEvery cfg > 0
          then go_mod height (KeepEvery cfg) = 0
          else False)"

definition CalculatePruneTarget :: "pruneConfig option \<Rightarrow> int \<Rightarrow> int" where
  "CalculatePruneTarget c currentHeight =
     (case c of
        None \<Rightarrow> 0
      | Some cfg \<Rightarrow>
          if Strategy cfg = PruneNothing then 0
          else let target = currentHeight - KeepRecent cfg in if target < 1 then 0 else target)"

definition prune_Validate :: "pruneConfig option \<Rightarrow> error option" where
  "prune_Validate c =
     (case c of
        None \<Rightarrow> None
      | Some cfg \<Rightarrow>
          (case Strategy cfg of
             OtherStrategy _ \<Rightarrow> Some (ErrOther ''invalid prune strategy'')
           | _ \<Rightarrow>
               if KeepRecent cfg < 0 then Some (ErrOther ''keep_recent cannot be negative'')
               else if KeepEvery cfg < 0 then Some (ErrOther ''keep_every cannot be negative'')
               else if Interval cfg < 0 then Some (ErrOther ''interval cannot be negative'')
               else None))"

record pruneResult =
  PrunedCount :: int
  NewBase :: int
  BytesFreed :: int

end
