(* ===== verification/KVStore.thy ===== *)
theory KVStore
  imports BlockStore
begin

text \<open>
  What the block stores on disk share (\<open>leveldb.go\<close> and \<open>badgerdb.go\<close> of \<open>pkg/blockstore\<close>): the
  encoding of keys and values, the content of the database as a finite map from keys to values
  with its invariant \<open>store_ok\<close>, the blocks such a content stands for (\<open>block_at\<close>), and the
  specification \<open>spec_step\<close> both stores refine.
\<close>

section \<open>Keys and values\<close>

definition ascii :: "string \<Rightarrow> bytes" where
  "ascii s = map (\<lambda>c. word_of_nat (of_char c)) s"

definition prefixHeight :: bytes where "prefixHeight = ascii ''H:''"
definition prefixBlock :: bytes where "prefixBlock = ascii ''B:''"
definition keyMetaHeight :: bytes where "keyMetaHeight = ascii ''M:height''"
definition keyMetaBase :: bytes where "keyMetaBase = ascii ''M:base''"
definition prefixCert :: bytes where "prefixCert = ascii ''C:''"
definition prefixCertRound :: bytes where "prefixCertRound = ascii ''CR:''"
definition prefixCertHeight :: bytes where "prefixCertHeight = ascii ''CH:''"
definition prefixBatch :: bytes where "prefixBatch = ascii ''CB:''"

definition encodeInt64 :: "int \<Rightarrow> bytes" where
  "encodeInt64 v = be_bytes 8 v"

definition decodeInt64 :: "bytes \<Rightarrow> int" where
  "decodeInt64 data = (if length data < 8 then 0 else i64 (be_value (take 8 data)))"

definition makeHeightKey :: "int \<Rightarrow> bytes" where
  "makeHeightKey height = prefixHeight @ be_bytes 8 height"

definition makeBlockKey :: "bytes \<Rightarrow> bytes" where
  "makeBlockKey hash = prefixBlock @ hash"

definition makeBlockValue :: "int \<Rightarrow> bytes \<Rightarrow> bytes" where
  "makeBlockValue height data = be_bytes 8 height @ data"

text \<open>The data is \<open>nil\<close> for a value that is too short; the callers read it as a byte string.\<close>

definition parseBlockValue :: "bytes \<Rightarrow> int \<times> bytes" where
  "parseBlockValue val = (if length val < 8 then (0, []) else (decodeInt64 (take 8 val), drop 8 val))"

definition makeCertKey :: "bytes \<Rightarrow> bytes" where
  "makeCertKey digest = prefixCert @ digest"

definition makeCertRoundPrefix :: "int \<Rightarrow> bytes" where
  "makeCertRoundPrefix rnd = prefixCertRound @ be_bytes 8 rnd"

definition makeCertRoundKey :: "int \<Rightarrow> int \<Rightarrow> bytes" where
  "makeCertRoundKey rnd validatorIdx = prefixCertRound @ be_bytes 8 rnd @ be_bytes 2 validatorIdx"

definition makeCertHeightPrefix :: "int \<Rightarrow> bytes" where
  "makeCertHeightPrefix height = prefixCertHeight @ be_bytes 8 height"

definition makeCertHeightKey :: "int \<Rightarrow> int \<Rightarrow> bytes" where
  "makeCertHeightKey height validatorIdx = prefixCertHeight @ be_bytes 8 height @ be_bytes 2 validatorIdx"

definition makeBatchKey :: "bytes \<Rightarrow> bytes" where
  "makeBatchKey digest = prefixBatch @ digest"

text \<open>The order of keys.\<close>

fun compareKeys :: "bytes \<Rightarrow> bytes \<Rightarrow> int" where
  "compareKeys (a # as) (b # bs) =
     (if a < b then -1 else if a > b then 1 else compareKeys as bs)"
| "compareKeys [] (b # bs) = -1"
| "compareKeys (a # as) [] = 1"
| "compareKeys [] [] = 0"

section \<open>Encodings are injective and ordered\<close>

lemmas prefix_defs = prefixHeight_def prefixBlock_def keyMetaHeight_def keyMetaBase_def prefixCert_def
  prefixCertRound_def prefixCertHeight_def prefixBatch_def ascii_def

lemmas key_defs = makeHeightKey_def makeBlockKey_def makeCertKey_def makeCertRoundKey_def
  makeCertHeightKey_def makeBatchKey_def

definition height_range :: "int \<Rightarrow> bool" where
  "height_range h \<longleftrightarrow> 0 < h \<and> h < 2 ^ 63"

lemma decode_encode: "in_i64 v \<Longrightarrow> decodeInt64 (be_bytes 8 v @ rest) = v"
proof -
  assume v: "in_i64 v"
  have "i64 (v mod 2 ^ 64) = v"
  proof -
    have "(v mod 2 ^ 64 + 2 ^ 63) mod 2 ^ 64 = (v + 2 ^ 63) mod 2 ^ 64" by (rule mod_add_left_eq)
    then have "i64 (v mod 2 ^ 64) = i64 v" by (simp only: i64_def)
    then show ?thesis using v by simp
  qed
  then show ?thesis by (simp add: decodeInt64_def)
qed

lemma height_in_i64: "height_range h \<Longrightarrow> in_i64 h"
  by (simp add: height_range_def in_i64_def)

lemma makeHeightKey_inj: "in_i64 h \<Longrightarrow> in_i64 h' \<Longrightarrow> makeHeightKey h = makeHeightKey h' \<longleftrightarrow> h = h'"
  unfolding makeHeightKey_def same_append_eq by (metis decode_encode)

lemma makeBlockKey_inj [simp]: "makeBlockKey a = makeBlockKey b \<longleftrightarrow> a = b"
  by (simp add: makeBlockKey_def)

lemma parse_block_value [simp]: "in_i64 h \<Longrightarrow> parseBlockValue (makeBlockValue h data) = (h, data)"
  using decode_encode [of h "[]"] by (simp add: parseBlockValue_def makeBlockValue_def)

lemma makeBlockValue_inj: "in_i64 h \<Longrightarrow> in_i64 h' \<Longrightarrow>
   makeBlockValue h d = makeBlockValue h' d' \<longleftrightarrow> h = h' \<and> d = d'"
  using parse_block_value [of h d] parse_block_value [of h' d'] by (metis prod.inject)

lemma decode_height_key: "in_i64 h \<Longrightarrow> decodeInt64 (drop (length prefixHeight) (makeHeightKey h)) = h"
  using decode_encode [of h "[]"] by (simp add: makeHeightKey_def)

text \<open>Keys of different kinds are different, and only height keys have the height prefix.\<close>

lemma keys_apart [simp]:
  "makeHeightKey h \<noteq> makeBlockKey x" "makeBlockKey x \<noteq> makeHeightKey h"
  "makeHeightKey h \<noteq> keyMetaHeight" "keyMetaHeight \<noteq> makeHeightKey h"
  "makeHeightKey h \<noteq> keyMetaBase" "keyMetaBase \<noteq> makeHeightKey h"
  "makeBlockKey x \<noteq> keyMetaHeight" "keyMetaHeight \<noteq> makeBlockKey x"
  "makeBlockKey x \<noteq> keyMetaBase" "keyMetaBase \<noteq> makeBlockKey x"
  "keyMetaHeight \<noteq> keyMetaBase" "keyMetaBase \<noteq> keyMetaHeight"
  by (simp_all add: key_defs prefix_defs)

lemma height_prefix [simp]:
  "take 2 (makeHeightKey h) = prefixHeight" "take 2 (makeBlockKey x) \<noteq> prefixHeight"
  "take 2 keyMetaHeight \<noteq> prefixHeight" "take 2 keyMetaBase \<noteq> prefixHeight"
  by (simp_all add: key_defs prefix_defs)

text \<open>Keys of certificates and batches, which the blocks do not depend on.\<close>

definition other_key :: "bytes \<Rightarrow> bool" where
  "other_key k \<longleftrightarrow> take 1 k = ascii ''C''"

lemma other_keys [simp]:
  "other_key (makeCertKey d)" "other_key (makeCertRoundKey r i)" "other_key (makeCertHeightKey h i)"
  "other_key (makeBatchKey d)"
  by (simp_all add: other_key_def key_defs prefix_defs)

lemma other_key_apart:
  assumes "other_key k"
  shows "k \<noteq> makeHeightKey h" "k \<noteq> makeBlockKey x" "k \<noteq> keyMetaHeight" "k \<noteq> keyMetaBase"
    "take 2 k \<noteq> prefixHeight"
  using assms by (cases k; auto simp: other_key_def key_defs prefix_defs)+

lemma compareKeys_append [simp]: "compareKeys (p @ x) (p @ y) = compareKeys x y"
  by (induction p) simp_all

lemma compareKeys_value: "length x = length y \<Longrightarrow> compareKeys x y = sgn (be_value x - be_value y)"
proof (induction x y rule: compareKeys.induct)
  case (1 a as b bs)
  let ?P = "2 ^ (8 * length as) :: int"
  have len: "length as = length bs" using 1 by simp
  note bounds = be_value_bounds [of as] be_value_bounds [of bs]
  consider "a < b" | "b < a" | "a = b" by fastforce
  then show ?case
  proof cases
    case 1
    then have "(uint a + 1) * ?P \<le> uint b * ?P" by (intro mult_right_mono) (simp_all add: word_less_def)
    then have "be_value (a # as) < be_value (b # bs)" using bounds len by (simp add: distrib_right)
    then show ?thesis using 1 by (simp del: be_value.simps)
  next
    case 2
    then have "(uint b + 1) * ?P \<le> uint a * ?P" by (intro mult_right_mono) (simp_all add: word_less_def)
    then have "be_value (b # bs) < be_value (a # as)" using bounds len by (simp add: distrib_right)
    then show ?thesis using 2 by (auto simp del: be_value.simps)
  next
    case 3
    then show ?thesis using "1.IH" len by simp
  qed
qed simp_all

lemma compare_height_keys:
  assumes "0 \<le> h" "h < 2 ^ 63" "0 \<le> h'" "h' < 2 ^ 63"
  shows "compareKeys (makeHeightKey h) (makeHeightKey h') = sgn (h - h')"
  using compareKeys_value [of "be_bytes 8 h" "be_bytes 8 h'"] assms by (simp add: makeHeightKey_def)

section \<open>The content of the database\<close>

type_synonym kvmap = "(bytes, bytes) fmap"

text \<open>The block a content has at a height, and the heights it has blocks for.\<close>

definition block_at :: "kvmap \<Rightarrow> int \<Rightarrow> (bytes \<times> bytes) option" where
  "block_at c h =
     (if \<not> height_range h then None
      else (case fmlookup c (makeHeightKey h) of
              None \<Rightarrow> None
            | Some hash \<Rightarrow> map_option (\<lambda>v. (hash, snd (parseBlockValue v))) (fmlookup c (makeBlockKey hash))))"

definition store_ok :: "kvmap \<Rightarrow> int \<Rightarrow> int \<Rightarrow> bool" where
  "store_ok c height base \<longleftrightarrow>
     (\<forall>k hash. fmlookup c k = Some hash \<and> take 2 k = prefixHeight \<longrightarrow>
        (\<exists>h data. k = makeHeightKey h \<and> 0 < h \<and> base \<le> h \<and> h \<le> height \<and>
           fmlookup c (makeBlockKey hash) = Some (makeBlockValue h data))) \<and>
     (\<forall>hash v. fmlookup c (makeBlockKey hash) = Some v \<longrightarrow>
        (\<exists>h data. v = makeBlockValue h data \<and> height_range h \<and> fmlookup c (makeHeightKey h) = Some hash)) \<and>
     fmlookup c keyMetaHeight = (if height = 0 then None else Some (encodeInt64 height)) \<and>
     fmlookup c keyMetaBase = (if base = 0 then None else Some (encodeInt64 base)) \<and>
     (base = 0 \<longrightarrow> (\<forall>h. height_range h \<longrightarrow> fmlookup c (makeHeightKey h) = None)) \<and>
     0 \<le> height \<and> height < 2 ^ 63 \<and> 0 \<le> base \<and> base < 2 ^ 63"

lemma store_ok_empty: "store_ok fmempty 0 0"
  by (simp add: store_ok_def)

lemma store_ok_height_key:
  assumes ok: "store_ok c height base" and k: "fmlookup c (makeHeightKey h) = Some hash" and h: "in_i64 h"
  obtains data where "0 < h" "base \<le> h" "h \<le> height" "height_range h" "base \<noteq> 0"
    "fmlookup c (makeBlockKey hash) = Some (makeBlockValue h data)"
proof -
  obtain h' data where h': "makeHeightKey h = makeHeightKey h'" "0 < h'" "base \<le> h'" "h' \<le> height"
      "fmlookup c (makeBlockKey hash) = Some (makeBlockValue h' data)"
    using ok k unfolding store_ok_def by (metis height_prefix(1))
  have top: "height < 2 ^ 63" using ok by (simp add: store_ok_def)
  then have "h = h'" using h'(1,2,4) h makeHeightKey_inj [of h h'] by (simp add: in_i64_def)
  moreover have "height_range h'" using h' top by (simp add: height_range_def)
  moreover have "base \<noteq> 0" using ok k \<open>h = h'\<close> \<open>height_range h'\<close> by (auto simp: store_ok_def)
  ultimately show thesis using that h' by blast
qed

lemma store_ok_block_key:
  assumes "store_ok c height base" "fmlookup c (makeBlockKey hash) = Some v"
  obtains h data where "v = makeBlockValue h data" "height_range h" "fmlookup c (makeHeightKey h) = Some hash"
  using assms unfolding store_ok_def by blast

lemma block_at_iff:
  assumes ok: "store_ok c height base"
  shows "block_at c h = Some (hash, data) \<longleftrightarrow> height_range h \<and>
    fmlookup c (makeHeightKey h) = Some hash \<and> fmlookup c (makeBlockKey hash) = Some (makeBlockValue h data)"
proof (cases "height_range h \<and> fmlookup c (makeHeightKey h) = Some hash")
  case True
  then obtain d where d: "fmlookup c (makeBlockKey hash) = Some (makeBlockValue h d)"
    using store_ok_height_key [OF ok] height_in_i64 by metis
  then show ?thesis
    using True height_in_i64 [of h] makeBlockValue_inj [of h h d data] by (simp add: block_at_def)
next
  case False
  then show ?thesis by (auto simp: block_at_def split: option.splits)
qed

lemma block_at_None:
  assumes ok: "store_ok c height base"
  shows "block_at c h = None \<longleftrightarrow> \<not> height_range h \<or> fmlookup c (makeHeightKey h) = None"
proof (cases "height_range h \<and> fmlookup c (makeHeightKey h) \<noteq> None")
  case True
  then obtain hash where hash: "fmlookup c (makeHeightKey h) = Some hash" by blast
  then obtain d where "fmlookup c (makeBlockKey hash) = Some (makeBlockValue h d)"
    using store_ok_height_key [OF ok hash] True height_in_i64 by metis
  then show ?thesis using True hash by (simp add: block_at_def)
next
  case False
  then show ?thesis by (auto simp: block_at_def split: option.splits)
qed

lemma block_at_bounds:
  assumes "store_ok c height base" "block_at c h = Some b"
  shows "0 < h \<and> base \<le> h \<and> h \<le> height \<and> base \<noteq> 0"
proof -
  obtain hash data where "b = (hash, data)" by (cases b)
  then show ?thesis
    using block_at_iff [OF assms(1), of h hash data] assms(2) store_ok_height_key [OF assms(1)] height_in_i64
    by metis
qed

text \<open>A hash leads to one block.\<close>

lemma block_at_hash:
  assumes ok: "store_ok c height base" and "block_at c h = Some (hash, d)" "block_at c h' = Some (hash, d')"
  shows "h = h'"
  using assms makeBlockValue_inj [of h h' d d'] height_in_i64 by (auto simp: block_at_iff [OF ok])

section \<open>What the stores write\<close>

definition put_block :: "kvmap \<Rightarrow> int \<Rightarrow> int \<Rightarrow> int \<Rightarrow> bytes \<Rightarrow> bytes \<Rightarrow> kvmap" where
  "put_block c height base h hash data =
     (let c1 = fmupd (makeBlockKey hash) (makeBlockValue h data) (fmupd (makeHeightKey h) hash c);
          c2 = (if h > height then fmupd keyMetaHeight (encodeInt64 h) c1 else c1)
      in if base = 0 \<or> h < base then fmupd keyMetaBase (encodeInt64 h) c2 else c2)"

lemma put_block_lookup:
  "fmlookup (put_block c height base h hash data) k =
     (if k = keyMetaBase \<and> (base = 0 \<or> h < base) then Some (encodeInt64 h)
      else if k = keyMetaHeight \<and> h > height then Some (encodeInt64 h)
      else if k = makeBlockKey hash then Some (makeBlockValue h data)
      else if k = makeHeightKey h then Some hash
      else fmlookup c k)"
  by (auto simp: put_block_def Let_def)

lemma put_block_ok:
  fixes data :: bytes
  assumes ok: "store_ok c height base" and h: "height_range h"
    and new: "fmlookup c (makeHeightKey h) = None" and fresh: "fmlookup c (makeBlockKey hash) = None"
  defines "c' \<equiv> put_block c height base h hash data"
    and "height' \<equiv> (if h > height then h else height)" and "base' \<equiv> (if base = 0 \<or> h < base then h else base)"
  shows "store_ok c' height' base'"
    and "block_at c' = (block_at c)(h \<mapsto> (hash, data))"
proof -
  note look = put_block_lookup [of c height base h hash data, folded c'_def]
  have b: "0 < h" "h < 2 ^ 63" "0 \<le> height" "height < 2 ^ 63" "0 \<le> base" "base < 2 ^ 63"
    using ok h by (simp_all add: store_ok_def height_range_def)
  have hk: "\<exists>x d. k = makeHeightKey x \<and> 0 < x \<and> base' \<le> x \<and> x \<le> height' \<and>
      fmlookup c' (makeBlockKey hs) = Some (makeBlockValue x d)"
    if k: "fmlookup c' k = Some hs" "take 2 k = prefixHeight" for k hs
  proof (cases "k = makeHeightKey h")
    case True
    then show ?thesis using k b by (intro exI [of _ h] exI [of _ data]) (auto simp: look height'_def base'_def)
  next
    case False
    then have old: "fmlookup c k = Some hs" using k by (auto simp: look split: if_splits)
    then obtain x d where x: "k = makeHeightKey x" "0 < x" "base \<le> x" "x \<le> height"
        "fmlookup c (makeBlockKey hs) = Some (makeBlockValue x d)"
      using ok k(2) unfolding store_ok_def by blast
    moreover have "hs \<noteq> hash" using x(5) fresh by auto
    moreover have "base \<noteq> 0" using ok old x b by (auto simp: store_ok_def height_range_def)
    ultimately show ?thesis by (intro exI [of _ x] exI [of _ d]) (auto simp: look height'_def base'_def)
  qed
  have bk: "\<exists>x d. v = makeBlockValue x d \<and> height_range x \<and> fmlookup c' (makeHeightKey x) = Some hs"
    if v: "fmlookup c' (makeBlockKey hs) = Some v" for hs v
  proof (cases "hs = hash")
    case True
    then show ?thesis using v h by (intro exI [of _ h] exI [of _ data]) (simp add: look)
  next
    case False
    then have "fmlookup c (makeBlockKey hs) = Some v" using v by (simp add: look)
    then obtain x d where x: "v = makeBlockValue x d" "height_range x" "fmlookup c (makeHeightKey x) = Some hs"
      by (rule store_ok_block_key [OF ok])
    then have "makeHeightKey x \<noteq> makeHeightKey h" using new by auto
    then show ?thesis using x by (intro exI [of _ x] exI [of _ d]) (simp add: look)
  qed
  have meta: "fmlookup c' keyMetaHeight = (if height' = 0 then None else Some (encodeInt64 height'))"
    "fmlookup c' keyMetaBase = (if base' = 0 then None else Some (encodeInt64 base'))"
    using ok b by (auto simp: look height'_def base'_def store_ok_def)
  show ok': "store_ok c' height' base'"
    unfolding store_ok_def using hk bk meta b by (auto simp: height'_def base'_def)
  show "block_at c' = (block_at c)(h \<mapsto> (hash, data))"
  proof
    fix x
    show "block_at c' x = ((block_at c)(h \<mapsto> (hash, data))) x"
    proof (cases "x = h")
      case True
      then show ?thesis using h by (simp add: block_at_iff [OF ok'] look)
    next
      case False
      have key: "fmlookup c' (makeHeightKey x) = fmlookup c (makeHeightKey x)" if "height_range x"
        using False makeHeightKey_inj [of x h] that h height_in_i64 by (simp add: look)
      have "fmlookup c' (makeBlockKey hs) = fmlookup c (makeBlockKey hs)"
        if "height_range x" "fmlookup c (makeHeightKey x) = Some hs" for hs
        using store_ok_height_key [OF ok that(2) height_in_i64 [OF that(1)]] fresh
        by (metis look keys_apart(2,7,9) makeBlockKey_inj option.distinct(1))
      then show ?thesis using key False by (auto simp: block_at_def split: option.splits)
    qed
  qed
qed

text \<open>Deletion of the entries of some blocks, given as heights with their hashes.\<close>

definition block_keys :: "(int \<times> bytes) list \<Rightarrow> bytes list" where
  "block_keys ps = concat (map (\<lambda>(h, hash). [makeHeightKey h, makeBlockKey hash]) ps)"

definition drop_keys :: "bytes list \<Rightarrow> kvmap \<Rightarrow> kvmap" where
  "drop_keys ks c = fmfilter (\<lambda>k. k \<notin> set ks) c"

lemma drop_keys_Nil [simp]: "drop_keys [] c = c"
  by (rule fmap_ext) (simp add: drop_keys_def)

lemma drop_keys_append [simp]: "drop_keys ks' (drop_keys ks c) = drop_keys (ks @ ks') c"
  by (rule fmap_ext) (simp add: drop_keys_def)

lemma drop_keys_lookup: "fmlookup (drop_keys ks c) k = (if k \<in> set ks then None else fmlookup c k)"
  by (simp add: drop_keys_def)

definition stored_pairs :: "kvmap \<Rightarrow> (int \<times> bytes) list \<Rightarrow> bool" where
  "stored_pairs c ps \<longleftrightarrow> (\<forall>(h, hash) \<in> set ps. height_range h \<and> fmlookup c (makeHeightKey h) = Some hash)"

lemma block_keys_height:
  assumes "stored_pairs c ps" "in_i64 x"
  shows "makeHeightKey x \<in> set (block_keys ps) \<longleftrightarrow> x \<in> fst ` set ps"
proof -
  have "makeHeightKey x = makeHeightKey h \<longleftrightarrow> x = h" if "(h, hash) \<in> set ps" for h hash
    using assms that makeHeightKey_inj [of x h] height_in_i64 by (fastforce simp: stored_pairs_def)
  then show ?thesis by (force simp: block_keys_def image_iff)
qed

lemma block_keys_block: "makeBlockKey hs \<in> set (block_keys ps) \<longleftrightarrow> hs \<in> snd ` set ps"
  by (force simp: block_keys_def image_iff)

lemma block_keys_meta: "keyMetaHeight \<notin> set (block_keys ps)" "keyMetaBase \<notin> set (block_keys ps)"
  by (auto simp: block_keys_def)

lemma pair_of_hash:
  assumes ok: "store_ok c height base" and ps: "stored_pairs c ps"
    and x: "fmlookup c (makeHeightKey x) = Some hs" "in_i64 x"
  shows "hs \<in> snd ` set ps \<longleftrightarrow> x \<in> fst ` set ps"
proof -
  have uniq: "h = x" if "(h, hs) \<in> set ps" for h
  proof -
    have h: "height_range h" "fmlookup c (makeHeightKey h) = Some hs" using ps that by (auto simp: stored_pairs_def)
    obtain d where d: "fmlookup c (makeBlockKey hs) = Some (makeBlockValue x d)"
      using store_ok_height_key [OF ok x] by metis
    obtain d' where "fmlookup c (makeBlockKey hs) = Some (makeBlockValue h d')"
      using store_ok_height_key [OF ok h(2) height_in_i64 [OF h(1)]] by metis
    then show ?thesis using d makeBlockValue_inj [of h x d' d] x(2) height_in_i64 [OF h(1)] by simp
  qed
  have same: "hs = hash" if "(x, hash) \<in> set ps" for hash
    using ps that x(1) by (auto simp: stored_pairs_def)
  have "hs \<in> snd ` set ps \<longleftrightarrow> (\<exists>h. (h, hs) \<in> set ps)" by (auto intro: rev_image_eqI)
  also have "\<dots> \<longleftrightarrow> (\<exists>hash. (x, hash) \<in> set ps)" using uniq same by blast
  also have "\<dots> \<longleftrightarrow> x \<in> fst ` set ps" by (auto intro: rev_image_eqI)
  finally show ?thesis .
qed

lemma drop_blocks_ok:
  assumes ok: "store_ok c height base" and ps: "stored_pairs c ps"
  defines "c' \<equiv> drop_keys (block_keys ps) c"
  shows "store_ok c' height base"
    and "block_at c' x = (if x \<in> fst ` set ps then None else block_at c x)"
proof -
  note look = drop_keys_lookup [of "block_keys ps" c, folded c'_def]
  have b: "0 \<le> height" "height < 2 ^ 63" "0 \<le> base" "base < 2 ^ 63" using ok by (simp_all add: store_ok_def)
  have hk: "\<exists>x d. k = makeHeightKey x \<and> 0 < x \<and> base \<le> x \<and> x \<le> height \<and>
      fmlookup c' (makeBlockKey hs) = Some (makeBlockValue x d)"
    if k: "fmlookup c' k = Some hs" "take 2 k = prefixHeight" for k hs
  proof -
    have old: "fmlookup c k = Some hs" "k \<notin> set (block_keys ps)" using k(1) by (simp_all add: look split: if_splits)
    then obtain x d where x: "k = makeHeightKey x" "0 < x" "base \<le> x" "x \<le> height"
        "fmlookup c (makeBlockKey hs) = Some (makeBlockValue x d)"
      using ok k(2) unfolding store_ok_def by blast
    have i: "in_i64 x" using x b by (simp add: in_i64_def)
    have "x \<notin> fst ` set ps" using block_keys_height [OF ps i] old(2) x(1) by simp
    then have "hs \<notin> snd ` set ps" using pair_of_hash [OF ok ps _ i] old(1) x(1) by simp
    then have "fmlookup c' (makeBlockKey hs) = Some (makeBlockValue x d)"
      using x(5) by (simp add: look block_keys_block)
    then show ?thesis using x by blast
  qed
  have bk: "\<exists>x d. v = makeBlockValue x d \<and> height_range x \<and> fmlookup c' (makeHeightKey x) = Some hs"
    if v: "fmlookup c' (makeBlockKey hs) = Some v" for hs v
  proof -
    have old: "fmlookup c (makeBlockKey hs) = Some v" "hs \<notin> snd ` set ps"
      using v by (simp_all add: look block_keys_block split: if_splits)
    obtain x d where x: "v = makeBlockValue x d" "height_range x" "fmlookup c (makeHeightKey x) = Some hs"
      using old(1) by (rule store_ok_block_key [OF ok])
    then have "fmlookup c' (makeHeightKey x) = Some hs"
      using pair_of_hash [OF ok ps x(3)] old(2) block_keys_height [OF ps] height_in_i64 by (simp add: look)
    then show ?thesis using x by blast
  qed
  have meta: "fmlookup c' keyMetaHeight = fmlookup c keyMetaHeight" "fmlookup c' keyMetaBase = fmlookup c keyMetaBase"
    "\<And>h. fmlookup c (makeHeightKey h) = None \<Longrightarrow> fmlookup c' (makeHeightKey h) = None"
    by (simp_all add: look block_keys_meta)
  show ok': "store_ok c' height base"
    unfolding store_ok_def using hk bk meta ok by (auto simp: store_ok_def)
  show "block_at c' x = (if x \<in> fst ` set ps then None else block_at c x)"
  proof (cases "height_range x \<and> fmlookup c (makeHeightKey x) \<noteq> None")
    case True
    then obtain hs where hs: "fmlookup c (makeHeightKey x) = Some hs" by blast
    have i: "in_i64 x" using True height_in_i64 by blast
    show ?thesis
      using True hs pair_of_hash [OF ok ps hs i] block_keys_height [OF ps i]
      by (auto simp: block_at_def look block_keys_block)
  next
    case False
    then show ?thesis by (auto simp: block_at_def look)
  qed
qed

lemma put_base_ok:
  assumes ok: "store_ok c height base" and nb: "0 < nb" "nb < 2 ^ 63"
    and above: "\<And>h b. block_at c h = Some b \<Longrightarrow> nb \<le> h"
  shows "store_ok (fmupd keyMetaBase (encodeInt64 nb) c) height nb"
    and "block_at (fmupd keyMetaBase (encodeInt64 nb) c) = block_at c"
proof -
  have "\<exists>h data. k = makeHeightKey h \<and> 0 < h \<and> nb \<le> h \<and> h \<le> height \<and>
      fmlookup c (makeBlockKey hash) = Some (makeBlockValue h data)"
    if k: "fmlookup c k = Some hash" "take 2 k = prefixHeight" for k hash
  proof -
    obtain h d where h: "k = makeHeightKey h" "0 < h" "h \<le> height" "fmlookup c (makeBlockKey hash) = Some (makeBlockValue h d)"
      using ok k unfolding store_ok_def by blast
    then have "height_range h" using ok by (simp add: store_ok_def height_range_def)
    then have "block_at c h = Some (hash, d)" using h k(1) by (simp add: block_at_iff [OF ok])
    then show ?thesis using h above by blast
  qed
  then show "store_ok (fmupd keyMetaBase (encodeInt64 nb) c) height nb"
    using ok nb unfolding store_ok_def by (auto simp: split: if_splits)
  show "block_at (fmupd keyMetaBase (encodeInt64 nb) c) = block_at c"
    by (rule ext) (simp add: block_at_def cong: option.case_cong)
qed

lemma put_other_ok:
  assumes "other_key k"
  shows "store_ok (fmupd k v c) height base \<longleftrightarrow> store_ok c height base"
    and "block_at (fmupd k v c) = block_at c"
proof -
  note apart = other_key_apart [OF assms]
  have look: "fmlookup (fmupd k v c) (makeHeightKey h) = fmlookup c (makeHeightKey h)"
    "fmlookup (fmupd k v c) (makeBlockKey x) = fmlookup c (makeBlockKey x)"
    "fmlookup (fmupd k v c) keyMetaHeight = fmlookup c keyMetaHeight"
    "fmlookup (fmupd k v c) keyMetaBase = fmlookup c keyMetaBase" for h x
    using apart by simp_all
  have "fmlookup (fmupd k v c) q = Some hash \<and> take 2 q = prefixHeight \<longleftrightarrow>
      fmlookup c q = Some hash \<and> take 2 q = prefixHeight" for q hash
    using apart(5) by auto
  then show "store_ok (fmupd k v c) height base \<longleftrightarrow> store_ok c height base"
    unfolding store_ok_def look by simp
  show "block_at (fmupd k v c) = block_at c"
    by (rule ext) (simp only: block_at_def look)
qed

section \<open>Specification\<close>

text \<open>
  What a store of blocks does, whatever it is built on. An operation comes with whether it
  succeeded. A save that fails leaves everything as it was; a prune that fails may have removed
  some of the blocks it was to remove.
\<close>

record blockSpec =
  sp_blocks :: "int \<Rightarrow> (bytes \<times> bytes) option"
  sp_height :: int
  sp_base :: int
  sp_cfg :: "pruneConfig option"

datatype storeOp = OpSave int bytes bytes | OpPrune int | OpSetConfig "pruneConfig option" | OpReopen | OpOther

definition prunable :: "blockSpec \<Rightarrow> int \<Rightarrow> int \<Rightarrow> bool" where
  "prunable sp b h \<longleftrightarrow> h < b \<and> \<not> (sp_cfg sp \<noteq> None \<and> ShouldKeep (sp_cfg sp) h (sp_height sp))"

inductive spec_step :: "blockSpec \<Rightarrow> storeOp \<Rightarrow> bool \<Rightarrow> blockSpec \<Rightarrow> bool" where
  saved: "sp_blocks sp h = None \<Longrightarrow>
    spec_step sp (OpSave h hash data) True
      (sp\<lparr>sp_blocks := (sp_blocks sp)(h \<mapsto> (hash, data)), sp_height := max (sp_height sp) h,
          sp_base := (if sp_base sp = 0 then h else min (sp_base sp) h)\<rparr>)"
| not_saved: "spec_step sp (OpSave h hash data) False sp"
| pruned: "0 < b \<Longrightarrow> b \<le> sp_height sp \<Longrightarrow> sp_base sp \<le> base' \<Longrightarrow> base' \<le> max (sp_base sp) b \<Longrightarrow>
    (\<And>h. sp_blocks sp h \<noteq> None \<Longrightarrow> \<not> prunable sp b h \<Longrightarrow> base' \<le> h) \<Longrightarrow>
    spec_step sp (OpPrune b) True
      (sp\<lparr>sp_blocks := (\<lambda>h. if prunable sp b h then None else sp_blocks sp h), sp_base := base'\<rparr>)"
| not_pruned: "(\<And>h. blocks' h = sp_blocks sp h \<or> prunable sp b h \<and> blocks' h = None) \<Longrightarrow>
    spec_step sp (OpPrune b) False (sp\<lparr>sp_blocks := blocks'\<rparr>)"
| configured: "spec_step sp (OpSetConfig cfg) True (sp\<lparr>sp_cfg := cfg\<rparr>)"
| reopened: "spec_step sp OpReopen True (sp\<lparr>sp_cfg := None\<rparr>)"
| other: "spec_step sp OpOther ok sp"

inductive spec_run :: "blockSpec \<Rightarrow> (storeOp \<times> bool) list \<Rightarrow> blockSpec \<Rightarrow> bool" where
  stop: "spec_run sp [] sp"
| step: "spec_step sp opn ok sp' \<Longrightarrow> spec_run sp' tr sp'' \<Longrightarrow> spec_run sp ((opn, ok) # tr) sp''"

definition kv_abs :: "kvmap \<Rightarrow> int \<Rightarrow> int \<Rightarrow> pruneConfig option \<Rightarrow> blockSpec" where
  "kv_abs c height base cfg = \<lparr>sp_blocks = block_at c, sp_height = height, sp_base = base, sp_cfg = cfg\<rparr>"

definition empty_spec :: blockSpec where
  "empty_spec = \<lparr>sp_blocks = (\<lambda>_. None), sp_height = 0, sp_base = 0, sp_cfg = None\<rparr>"

text \<open>What a client owes: heights are positive, and a block hash determines the height.\<close>

definition good_saves :: "(bytes \<Rightarrow> int) \<Rightarrow> (storeOp \<times> bool) list \<Rightarrow> bool" where
  "good_saves height_of tr \<longleftrightarrow>
     (\<forall>h hash data ok. (OpSave h hash data, ok) \<in> set tr \<longrightarrow> height_range h \<and> height_of hash = h)"

definition committed :: "(bytes \<Rightarrow> int) \<Rightarrow> blockSpec \<Rightarrow> bool" where
  "committed height_of sp \<longleftrightarrow> (\<forall>h hash d. sp_blocks sp h = Some (hash, d) \<longrightarrow> height_of hash = h)"

inductive_cases spec_saveE: "spec_step sp (OpSave h hash data) ok sp'"
inductive_cases spec_pruneE: "spec_step sp (OpPrune b) ok sp'"

lemma committed_step:
  assumes "spec_step sp opn ok sp'" "committed height_of sp" "good_saves height_of [(opn, ok)]"
  shows "committed height_of sp'"
  using assms
proof cases
  case (not_pruned blocks' b)
  have "sp_blocks sp h = Some x" if "blocks' h = Some x" for h x
    using not_pruned(4) [of h] that by auto
  then show ?thesis using assms(2) not_pruned(3) by (simp add: committed_def)
qed (auto simp: committed_def good_saves_def split: if_splits)

section \<open>Steps of the specification\<close>

lemma kv_saved:
  assumes ok: "store_ok c height base" and h: "height_range h" and new: "fmlookup c (makeHeightKey h) = None"
    and fresh: "\<And>x d. block_at c x = Some (hash, d) \<Longrightarrow> x = h"
  defines "height' \<equiv> (if h > height then h else height)" and "base' \<equiv> (if base = 0 \<or> h < base then h else base)"
  shows "store_ok (put_block c height base h hash data) height' base' \<and>
    spec_step (kv_abs c height base cfg) (OpSave h hash data) True (kv_abs (put_block c height base h hash data) height' base' cfg)"
proof -
  have "fmlookup c (makeBlockKey hash) = None"
  proof (rule ccontr)
    assume "fmlookup c (makeBlockKey hash) \<noteq> None"
    then obtain v where v: "fmlookup c (makeBlockKey hash) = Some v" by blast
    obtain x d where x: "v = makeBlockValue x d" "height_range x" "fmlookup c (makeHeightKey x) = Some hash"
      using v by (rule store_ok_block_key [OF ok])
    then show False using fresh [of x d] v new by (simp add: block_at_iff [OF ok])
  qed
  note put = put_block_ok [OF ok h new this, of data, folded height'_def base'_def]
  let ?sp = "kv_abs c height base cfg"
  have "kv_abs (put_block c height base h hash data) height' base' cfg = ?sp
      \<lparr>sp_blocks := (sp_blocks ?sp)(h \<mapsto> (hash, data)), sp_height := max (sp_height ?sp) h,
       sp_base := (if sp_base ?sp = 0 then h else min (sp_base ?sp) h)\<rparr>"
    using put(2) by (simp add: kv_abs_def height'_def base'_def max_def min_def)
  moreover have "sp_blocks ?sp h = None" using new by (simp add: kv_abs_def block_at_None [OF ok])
  ultimately show ?thesis using put(1) spec_step.saved [of ?sp h hash data] by simp
qed

section \<open>Pruning\<close>

lemma compareKeys_prefix:
  "compareKeys (p @ x) k \<le> 0 \<Longrightarrow> compareKeys k (p @ y) < 0 \<Longrightarrow> take (length p) k = p"
proof (induction p arbitrary: k)
  case (Cons a p)
  then obtain b k' where k: "k = b # k'" by (cases k) auto
  then have "a = b" using Cons.prems by (auto split: if_splits)
  then show ?case using Cons.IH [of k'] Cons.prems k by simp
qed simp

definition victims :: "pruneConfig option \<Rightarrow> int \<Rightarrow> (int \<times> bytes) list \<Rightarrow> (int \<times> bytes) list" where
  "victims cfg tip ps = filter (\<lambda>(h, hash). \<not> (cfg \<noteq> None \<and> ShouldKeep cfg h tip)) ps"

definition lowest_kept :: "pruneConfig option \<Rightarrow> int \<Rightarrow> (int \<times> bytes) list \<Rightarrow> int \<Rightarrow> int" where
  "lowest_kept cfg tip ps nb =
     fold (\<lambda>(h, hash) nb. if (cfg \<noteq> None \<and> ShouldKeep cfg h tip) \<and> h < nb then h else nb) ps nb"

lemma lowest_kept_bounds:
  "lowest_kept cfg tip ps nb \<le> nb \<and>
   (\<forall>(h, hash) \<in> set ps. cfg \<noteq> None \<and> ShouldKeep cfg h tip \<longrightarrow> lowest_kept cfg tip ps nb \<le> h) \<and>
   (lowest_kept cfg tip ps nb = nb \<or> (\<exists>hash. (lowest_kept cfg tip ps nb, hash) \<in> set ps))"
proof (induction ps arbitrary: nb)
  case (Cons p ps)
  obtain h hash where p: "p = (h, hash)" by (cases p)
  let ?k = "cfg \<noteq> None \<and> ShouldKeep cfg h tip"
  let ?nb = "if ?k \<and> h < nb then h else nb"
  have "lowest_kept cfg tip (p # ps) nb = lowest_kept cfg tip ps ?nb" by (simp add: lowest_kept_def p)
  moreover note Cons.IH [of ?nb]
  ultimately show ?case unfolding p by (cases "?k \<and> h < nb") (auto split: prod.splits)
qed (simp add: lowest_kept_def)

lemma block_keys_append: "block_keys (xs @ ys) = block_keys xs @ block_keys ys"
  by (simp add: block_keys_def)

text \<open>The entries the iterator of \<open>Prune\<close> runs over are those of the blocks below the target.\<close>

definition range_pairs :: "kvmap \<Rightarrow> int \<Rightarrow> int \<Rightarrow> bool \<Rightarrow> (int \<times> bytes) list \<Rightarrow> bool" where
  "range_pairs c base b full ps \<longleftrightarrow> stored_pairs c ps \<and> (\<forall>(h, hash) \<in> set ps. base \<le> h \<and> h < b) \<and>
     (full \<longrightarrow> (\<forall>h hash. height_range h \<and> fmlookup c (makeHeightKey h) = Some hash \<and> base \<le> h \<and> h < b \<longrightarrow> (h, hash) \<in> set ps))"

lemma range_entry:
  assumes ok: "store_ok c height base" and b: "0 < b" "b < 2 ^ 63"
    and k: "fmlookup c k = Some v" "compareKeys (makeHeightKey base) k \<le> 0" "compareKeys k (makeHeightKey b) < 0"
  obtains h where "k = makeHeightKey h" "height_range h" "base \<le> h" "h < b"
proof -
  have base: "0 \<le> base" "base < 2 ^ 63" and hb: "height < 2 ^ 63" using ok by (simp_all add: store_ok_def)
  have "take (length prefixHeight) k = prefixHeight"
    using compareKeys_prefix [of prefixHeight "be_bytes 8 base" k "be_bytes 8 b"] k(2,3) by (simp add: makeHeightKey_def)
  then have "take 2 k = prefixHeight" by (simp add: prefix_defs numeral_2_eq_2)
  then obtain h where h: "k = makeHeightKey h" "0 < h" "h \<le> height"
    using ok k(1) unfolding store_ok_def by blast
  then have "base \<le> h" "h < b"
    using k(2,3) compare_height_keys [of base h] compare_height_keys [of h b] base b hb by (simp_all add: sgn_if split: if_splits)
  then show thesis using that h hb by (simp add: height_range_def)
qed

lemma victims_subset: "set (victims cfg tip ps) \<subseteq> set ps"
  by (auto simp: victims_def)

lemma stored_pairs_subset: "stored_pairs c ps \<Longrightarrow> set qs \<subseteq> set ps \<Longrightarrow> stored_pairs c qs"
  unfolding stored_pairs_def by blast

lemma victims_in: "(h, hash) \<in> set (victims cfg tip ps) \<longleftrightarrow> (h, hash) \<in> set ps \<and> \<not> (cfg \<noteq> None \<and> ShouldKeep cfg h tip)"
  by (simp add: victims_def)

lemma kv_prunable: "prunable (kv_abs c tip base cfg) b h \<longleftrightarrow> h < b \<and> \<not> (cfg \<noteq> None \<and> ShouldKeep cfg h tip)"
  by (simp add: prunable_def kv_abs_def)

lemma kv_settled:
  assumes ok: "store_ok c tip base" and b: "0 < b" "b \<le> tip" "base \<ge> b"
  shows "spec_step (kv_abs c tip base cfg) (OpPrune b) True (kv_abs c tip base cfg)"
proof -
  let ?sp = "kv_abs c tip base cfg"
  have blocks: "sp_blocks ?sp h = None" if "prunable ?sp b h" for h
    using block_at_bounds [OF ok, of h] that b(3) by (cases "block_at c h") (auto simp: prunable_def kv_abs_def)
  have same: "?sp = ?sp\<lparr>sp_blocks := (\<lambda>h. if prunable ?sp b h then None else sp_blocks ?sp h), sp_base := base\<rparr>"
    using blocks by (simp add: kv_abs_def fun_eq_iff)
  have "base \<le> h" if "sp_blocks ?sp h \<noteq> None" for h
    using block_at_bounds [OF ok, of h] that by (auto simp: kv_abs_def)
  then have "spec_step ?sp (OpPrune b) True (?sp\<lparr>sp_blocks := (\<lambda>h. if prunable ?sp b h then None else sp_blocks ?sp h), sp_base := base\<rparr>)"
    using b by (intro spec_step.pruned) (simp_all add: kv_abs_def)
  then show ?thesis using same [symmetric] by simp
qed

lemma kv_pruned_partly:
  assumes ok: "store_ok c tip base" and ps: "range_pairs c base b False ps" and sub: "set gone \<subseteq> set (victims cfg tip ps)"
  defines "c' \<equiv> drop_keys (block_keys gone) c"
  shows "store_ok c' tip base \<and> spec_step (kv_abs c tip base cfg) (OpPrune b) False (kv_abs c' tip base cfg)"
proof -
  let ?sp = "kv_abs c tip base cfg"
  have gp: "stored_pairs c gone" "\<And>h. h \<in> fst ` set gone \<Longrightarrow> prunable ?sp b h"
    using ps sub victims_subset [of cfg tip ps] stored_pairs_subset [of c ps gone]
    by (auto simp: range_pairs_def kv_prunable victims_in dest!: subsetD)
  note drop = drop_blocks_ok [OF ok gp(1), folded c'_def]
  have "kv_abs c' tip base cfg = ?sp\<lparr>sp_blocks := block_at c'\<rparr>" by (simp add: kv_abs_def)
  moreover have "block_at c' h = sp_blocks ?sp h \<or> prunable ?sp b h \<and> block_at c' h = None" for h
    using drop(2) gp(2) by (simp add: kv_abs_def)
  ultimately show ?thesis using drop(1) spec_step.not_pruned [of "block_at c'" ?sp b] by simp
qed

lemma kv_pruned:
  fixes cfg :: "pruneConfig option"
  assumes ok: "store_ok c tip base" and b: "0 < b" "b \<le> tip" "base < b" and ps': "range_pairs c base b True ps"
  defines "c1 \<equiv> drop_keys (block_keys (victims cfg tip ps)) c" and "nb \<equiv> lowest_kept cfg tip ps b"
  defines "c' \<equiv> (if nb > base then fmupd keyMetaBase (encodeInt64 nb) c1 else c1)"
  shows "store_ok c' tip (if nb > base then nb else base) \<and>
    spec_step (kv_abs c tip base cfg) (OpPrune b) True (kv_abs c' tip (if nb > base then nb else base) cfg)"
proof -
  let ?sp = "kv_abs c tip base cfg" and ?vs = "victims cfg tip ps"
  have ps: "stored_pairs c ps" "\<And>h hash. (h, hash) \<in> set ps \<Longrightarrow> base \<le> h \<and> h < b"
    "\<And>h hash. height_range h \<Longrightarrow> fmlookup c (makeHeightKey h) = Some hash \<Longrightarrow> base \<le> h \<Longrightarrow> h < b \<Longrightarrow> (h, hash) \<in> set ps"
    using ps' by (auto simp: range_pairs_def)
  note drop = drop_blocks_ok [OF ok stored_pairs_subset [OF ps(1) victims_subset], of cfg tip, folded c1_def]
  have low: "nb \<le> b" "\<And>h hash. (h, hash) \<in> set ps \<Longrightarrow> cfg \<noteq> None \<and> ShouldKeep cfg h tip \<Longrightarrow> nb \<le> h"
    using lowest_kept_bounds [of cfg tip ps b] nb_def by blast+
  have stored: "(h, fst blk) \<in> set ps" if "block_at c h = Some blk" "h < b" for h blk
  proof -
    have "height_range h" "fmlookup c (makeHeightKey h) = Some (fst blk)"
      using that(1) block_at_iff [OF ok, of h "fst blk" "snd blk"] by simp_all
    then show ?thesis using ps(3) block_at_bounds [OF ok that(1)] that(2) by blast
  qed
  have blocks: "block_at c1 h = (if prunable ?sp b h then None else block_at c h)" for h
  proof (cases "block_at c h")
    case None
    then show ?thesis using drop(2) by simp
  next
    case (Some blk)
    have "h \<in> fst ` set ?vs \<longleftrightarrow> (\<exists>hash. (h, hash) \<in> set ?vs)" by (auto intro: rev_image_eqI)
    also have "\<dots> \<longleftrightarrow> prunable ?sp b h" unfolding victims_in kv_prunable using stored [OF Some] ps(2) by blast
    finally have "h \<in> fst ` set ?vs \<longleftrightarrow> prunable ?sp b h" .
    then show ?thesis using drop(2) by simp
  qed
  have above: "nb \<le> h" if h: "block_at c1 h = Some blk" for h blk
  proof -
    have h': "block_at c h = Some blk" "\<not> prunable ?sp b h" using h blocks [of h] by (simp_all split: if_splits)
    show ?thesis
    proof (cases "h < b")
      case True
      then show ?thesis using low(2) stored [OF h'(1)] h'(2) unfolding kv_prunable by blast
    qed (use low(1) in simp)
  qed
  have "0 \<le> base" "tip < 2 ^ 63" using ok by (simp_all add: store_ok_def)
  then have base: "store_ok c' tip (if nb > base then nb else base) \<and> block_at c' = block_at c1"
    using put_base_ok [OF drop(1) _ _ above] drop(1) c'_def low(1) b(2) by simp
  have "kv_abs c' tip (if nb > base then nb else base) cfg =
      ?sp\<lparr>sp_blocks := (\<lambda>h. if prunable ?sp b h then None else sp_blocks ?sp h), sp_base := (if nb > base then nb else base)\<rparr>"
    using base blocks by (simp add: kv_abs_def fun_eq_iff)
  moreover have "(if nb > base then nb else base) \<le> h" if h: "sp_blocks ?sp h \<noteq> None" "\<not> prunable ?sp b h" for h
  proof -
    obtain blk where blk: "block_at c h = Some blk" using h(1) by (auto simp: kv_abs_def)
    then show ?thesis using above [of h blk] blocks [of h] h(2) block_at_bounds [OF ok blk] by simp
  qed
  ultimately show ?thesis
    using spec_step.pruned [of b ?sp "if nb > base then nb else base"] base b low(1) by (simp add: kv_abs_def)
qed

end
