(* ===== verification/LevelDB.thy ===== *)
theory LevelDB
  imports KVStore "HOL-Library.List_Lexorder"
begin

text \<open>
  \<open>pkg/blockstore/leveldb.go\<close>. The database is third-party code: its methods are the record
  \<open>leveldb\<close>, a parameter of every operation, and what the code relies on is \<open>leveldb_laws\<close>: reads
  either fail or agree with the content, a batch is written entirely or not at all, and an iterator
  runs over a snapshot in key order. Certificates and batches of transactions are values of another module, read
  and encoded by the functions of \<open>looseTypes\<close>. Durations, \<open>Close\<close> and \<open>Compact\<close> are left out.
\<close>

section \<open>The database\<close>

datatype dbError = DbNotFound | DbFailure string

datatype batchOp = BatchPut bytes bytes | BatchDelete bytes

record 'd leveldb =
  db_Get :: "'d \<Rightarrow> bytes \<Rightarrow> dbError + bytes"
  db_Has :: "'d \<Rightarrow> bytes \<Rightarrow> dbError + bool"
  db_Put :: "'d \<Rightarrow> bytes \<Rightarrow> bytes \<Rightarrow> dbError option \<times> 'd"
  db_Write :: "'d \<Rightarrow> batchOp list \<Rightarrow> dbError option \<times> 'd"
  db_Range :: "'d \<Rightarrow> bytes \<Rightarrow> bytes \<Rightarrow> (bytes \<times> bytes) list \<times> dbError option"
  db_Prefix :: "'d \<Rightarrow> bytes \<Rightarrow> (bytes \<times> bytes) list \<times> dbError option"

fun apply_op :: "batchOp \<Rightarrow> kvmap \<Rightarrow> kvmap" where
  "apply_op (BatchPut k v) c = fmupd k v c"
| "apply_op (BatchDelete k) c = fmdrop k c"

definition apply_batch :: "batchOp list \<Rightarrow> kvmap \<Rightarrow> kvmap" where
  "apply_batch ops c = fold apply_op ops c"

text \<open>What an iterator yields: entries in key order, all that are asked for unless it failed.\<close>

definition iterates :: "(bytes \<Rightarrow> bool) \<Rightarrow> kvmap \<Rightarrow> (bytes \<times> bytes) list \<times> dbError option \<Rightarrow> bool" where
  "iterates P c r \<longleftrightarrow>
     sorted_wrt (\<lambda>x y. compareKeys (fst x) (fst y) < 0) (fst r) \<and>
     (\<forall>(k, v) \<in> set (fst r). fmlookup c k = Some v \<and> P k) \<and>
     (snd r = None \<longrightarrow> (\<forall>k v. fmlookup c k = Some v \<and> P k \<longrightarrow> (k, v) \<in> set (fst r)))"

definition leveldb_laws :: "'d leveldb \<Rightarrow> ('d \<Rightarrow> kvmap) \<Rightarrow> bool" where
  "leveldb_laws D content \<longleftrightarrow>
     (\<forall>d k v. db_Get D d k = Inr v \<longrightarrow> fmlookup (content d) k = Some v) \<and>
     (\<forall>d k. db_Get D d k = Inl DbNotFound \<longrightarrow> fmlookup (content d) k = None) \<and>
     (\<forall>d k b. db_Has D d k = Inr b \<longrightarrow> b = (fmlookup (content d) k \<noteq> None)) \<and>
     (\<forall>d k v d'. db_Put D d k v = (None, d') \<longrightarrow> content d' = fmupd k v (content d)) \<and>
     (\<forall>d k v e d'. db_Put D d k v = (Some e, d') \<longrightarrow> content d' = content d) \<and>
     (\<forall>d ops d'. db_Write D d ops = (None, d') \<longrightarrow> content d' = apply_batch ops (content d)) \<and>
     (\<forall>d ops e d'. db_Write D d ops = (Some e, d') \<longrightarrow> content d' = content d) \<and>
     (\<forall>d a b. iterates (\<lambda>k. compareKeys a k \<le> 0 \<and> compareKeys k b < 0) (content d) (db_Range D d a b)) \<and>
     (\<forall>d p. iterates (\<lambda>k. take (length p) k = p) (content d) (db_Prefix D d p))"

lemma leveldb_lawsD:
  assumes "leveldb_laws D content"
  shows db_Get_Inr: "db_Get D d k = Inr v \<Longrightarrow> fmlookup (content d) k = Some v"
    and db_Get_NotFound: "db_Get D d k = Inl DbNotFound \<Longrightarrow> fmlookup (content d) k = None"
    and db_Has_Inr: "db_Has D d k = Inr x \<Longrightarrow> x = (fmlookup (content d) k \<noteq> None)"
    and db_Put_None: "db_Put D d k v = (None, d') \<Longrightarrow> content d' = fmupd k v (content d)"
    and db_Put_Some: "db_Put D d k v = (Some e, d') \<Longrightarrow> content d' = content d"
    and db_Write_None: "db_Write D d ops = (None, d') \<Longrightarrow> content d' = apply_batch ops (content d)"
    and db_Write_Some: "db_Write D d ops = (Some e, d') \<Longrightarrow> content d' = content d"
    and db_Range_iterates: "iterates (\<lambda>k. compareKeys a k \<le> 0 \<and> compareKeys k b < 0) (content d) (db_Range D d a b)"
    and db_Prefix_iterates: "iterates (\<lambda>k. take (length p) k = p) (content d) (db_Prefix D d p)"
  using assms by (simp_all add: leveldb_laws_def)

section \<open>LevelDBBlockStore\<close>

record 'd levelDBBlockStore =
  ls_db :: 'd
  ls_height :: int
  ls_base :: int
  ls_pruneCfg :: "pruneConfig option"
  ls_pruning :: bool

definition ldb_loadMetadata :: "'d leveldb \<Rightarrow> 'd levelDBBlockStore \<Rightarrow> error option \<times> 'd levelDBBlockStore" where
  "ldb_loadMetadata D s =
     (case db_Get D (ls_db s) keyMetaHeight of
        Inl (DbFailure e) \<Rightarrow> (Some (ErrOther e), s)
      | r1 \<Rightarrow>
          let s1 = (case r1 of Inr data \<Rightarrow> s\<lparr>ls_height := decodeInt64 data\<rparr> | Inl _ \<Rightarrow> s) in
          (case db_Get D (ls_db s1) keyMetaBase of
             Inl (DbFailure e) \<Rightarrow> (Some (ErrOther e), s1)
           | Inl DbNotFound \<Rightarrow> (None, s1)
           | Inr data \<Rightarrow> (None, s1\<lparr>ls_base := decodeInt64 data\<rparr>)))"

text \<open>The database the path leads to is the argument \<open>d\<close>.\<close>

definition NewLevelDBBlockStore :: "'d leveldb \<Rightarrow> dbError + 'd \<Rightarrow> error + 'd levelDBBlockStore" where
  "NewLevelDBBlockStore D opened =
     (case opened of
        Inl e \<Rightarrow> Inl (ErrOther ''opening leveldb'')
      | Inr d \<Rightarrow>
          (case ldb_loadMetadata D \<lparr>ls_db = d, ls_height = 0, ls_base = 0, ls_pruneCfg = None, ls_pruning = False\<rparr> of
             (Some e, s) \<Rightarrow> Inl e
           | (None, s) \<Rightarrow> Inr s))"

definition ldb_SaveBlock ::
  "'d leveldb \<Rightarrow> 'd levelDBBlockStore \<Rightarrow> int \<Rightarrow> bytes \<Rightarrow> bytes \<Rightarrow> error option \<times> 'd levelDBBlockStore" where
  "ldb_SaveBlock D s height hash data =
     (let heightKey = makeHeightKey height in
      case db_Has D (ls_db s) heightKey of
        Inl e \<Rightarrow> (Some (ErrOther ''checking block existence''), s)
      | Inr True \<Rightarrow> (Some ErrBlockAlreadyExists, s)
      | Inr False \<Rightarrow>
          let batch = [BatchPut heightKey hash, BatchPut (makeBlockKey hash) (makeBlockValue height data)] @
                (if height > ls_height s then [BatchPut keyMetaHeight (encodeInt64 height)] else []) @
                (if ls_base s = 0 \<or> height < ls_base s then [BatchPut keyMetaBase (encodeInt64 height)] else [])
          in (case db_Write D (ls_db s) batch of
                (Some e, d) \<Rightarrow> (Some (ErrOther ''writing block''), s\<lparr>ls_db := d\<rparr>)
              | (None, d) \<Rightarrow>
                  (None, s\<lparr>ls_db := d,
                           ls_height := (if height > ls_height s then height else ls_height s),
                           ls_base := (if ls_base s = 0 \<or> height < ls_base s then height else ls_base s)\<rparr>)))"

definition ldb_LoadBlock :: "'d leveldb \<Rightarrow> 'd levelDBBlockStore \<Rightarrow> int \<Rightarrow> error + (bytes \<times> bytes)" where
  "ldb_LoadBlock D s height =
     (case db_Get D (ls_db s) (makeHeightKey height) of
        Inl DbNotFound \<Rightarrow> Inl ErrBlockNotFound
      | Inl (DbFailure e) \<Rightarrow> Inl (ErrOther ''getting hash for height'')
      | Inr hash \<Rightarrow>
          (case db_Get D (ls_db s) (makeBlockKey hash) of
             Inl DbNotFound \<Rightarrow> Inl ErrBlockNotFound
           | Inl (DbFailure e) \<Rightarrow> Inl (ErrOther ''getting block data'')
           | Inr blockValue \<Rightarrow> Inr (hash, snd (parseBlockValue blockValue))))"

definition ldb_LoadBlockByHash :: "'d leveldb \<Rightarrow> 'd levelDBBlockStore \<Rightarrow> bytes \<Rightarrow> error + (int \<times> bytes)" where
  "ldb_LoadBlockByHash D s hash =
     (case db_Get D (ls_db s) (makeBlockKey hash) of
        Inl DbNotFound \<Rightarrow> Inl ErrBlockNotFound
      | Inl (DbFailure e) \<Rightarrow> Inl (ErrOther ''getting block by hash'')
      | Inr blockValue \<Rightarrow> Inr (parseBlockValue blockValue))"

text \<open>The error of \<open>Has\<close> is dropped; the result is then \<open>false\<close>.\<close>

definition ldb_HasBlock :: "'d leveldb \<Rightarrow> 'd levelDBBlockStore \<Rightarrow> int \<Rightarrow> bool" where
  "ldb_HasBlock D s height \<longleftrightarrow> db_Has D (ls_db s) (makeHeightKey height) = Inr True"

definition ldb_Height :: "'d levelDBBlockStore \<Rightarrow> int" where
  "ldb_Height s = ls_height s"

definition ldb_Base :: "'d levelDBBlockStore \<Rightarrow> int" where
  "ldb_Base s = ls_base s"

definition ldb_BlockCount :: "'d leveldb \<Rightarrow> 'd levelDBBlockStore \<Rightarrow> nat" where
  "ldb_BlockCount D s = length (fst (db_Prefix D (ls_db s) prefixHeight))"

text \<open>
  The loop of \<open>Prune\<close>. It threads the database, the batch and its size, the number of blocks and bytes
  removed and the new base; \<open>None\<close> is the return after a failed write.
\<close>

definition maxBatchSize :: int where
  "maxBatchSize = 1000"

fun ldb_prune_loop ::
  "'d leveldb \<Rightarrow> pruneConfig option \<Rightarrow> int \<Rightarrow> (bytes \<times> bytes) list \<Rightarrow> 'd \<Rightarrow> batchOp list \<Rightarrow> int \<Rightarrow> int \<Rightarrow> int \<Rightarrow> int \<Rightarrow>
   'd \<times> (batchOp list \<times> int \<times> int \<times> int \<times> int) option" where
  "ldb_prune_loop D cfg tip [] d batch batchSize prunedCount bytesFreed newBase =
     (d, Some (batch, batchSize, prunedCount, bytesFreed, newBase))"
| "ldb_prune_loop D cfg tip ((heightKey, hash) # es) d batch batchSize prunedCount bytesFreed newBase =
     (let height = decodeInt64 (drop (length prefixHeight) heightKey) in
      if cfg \<noteq> None \<and> ShouldKeep cfg height tip
      then ldb_prune_loop D cfg tip es d batch batchSize prunedCount bytesFreed
             (if height < newBase then height else newBase)
      else
        let blockKey = makeBlockKey hash;
            bytesFreed' = (case db_Get D d blockKey of Inr data \<Rightarrow> i64 (bytesFreed + int (length data)) | Inl _ \<Rightarrow> bytesFreed);
            batch' = batch @ [BatchDelete heightKey, BatchDelete blockKey]
        in if batchSize + 1 \<ge> maxBatchSize
           then (case db_Write D d batch' of
                   (Some e, d') \<Rightarrow> (d', None)
                 | (None, d') \<Rightarrow> ldb_prune_loop D cfg tip es d' [] 0 (prunedCount + 1) bytesFreed' newBase)
           else ldb_prune_loop D cfg tip es d batch' (batchSize + 1) (prunedCount + 1) bytesFreed' newBase)"

text \<open>What \<open>Prune\<close> does after the loop.\<close>

definition ldb_prune_finish ::
  "'d leveldb \<Rightarrow> 'd levelDBBlockStore \<Rightarrow> dbError option \<Rightarrow> 'd \<Rightarrow> batchOp list \<times> int \<times> int \<times> int \<times> int \<Rightarrow>
   (error + pruneResult) \<times> 'd levelDBBlockStore" where
  "ldb_prune_finish D s iterErr d1 q =
     (case q of (batch, batchSize, prunedCount, bytesFreed, newBase) \<Rightarrow>
        if iterErr \<noteq> None then (Inl (ErrOther ''iterating blocks''), s\<lparr>ls_db := d1\<rparr>)
        else
          (case (if batchSize > 0 then db_Write D d1 batch else (None, d1)) of
             (Some e, d2) \<Rightarrow> (Inl (ErrOther ''writing final prune batch''), s\<lparr>ls_db := d2\<rparr>)
           | (None, d2) \<Rightarrow>
               if newBase > ls_base s
               then (case db_Put D d2 keyMetaBase (encodeInt64 newBase) of
                       (Some e, d3) \<Rightarrow> (Inl (ErrOther ''updating base metadata''), s\<lparr>ls_db := d3\<rparr>)
                     | (None, d3) \<Rightarrow>
                         (Inr \<lparr>PrunedCount = prunedCount, NewBase = newBase, BytesFreed = bytesFreed\<rparr>,
                          s\<lparr>ls_db := d3, ls_base := newBase\<rparr>))
               else (Inr \<lparr>PrunedCount = prunedCount, NewBase = ls_base s, BytesFreed = bytesFreed\<rparr>,
                     s\<lparr>ls_db := d2\<rparr>)))"

definition ldb_Prune ::
  "'d leveldb \<Rightarrow> 'd levelDBBlockStore \<Rightarrow> int \<Rightarrow> (error + pruneResult) \<times> 'd levelDBBlockStore" where
  "ldb_Prune D s beforeHeight =
     (if beforeHeight \<le> 0 then (Inl ErrInvalidPruneHeight, s)
      else if beforeHeight > ls_height s then (Inl ErrPruneHeightTooHigh, s)
      else if ls_pruning s then (Inl ErrPruningInProgress, s)
      else if ls_base s \<ge> beforeHeight
      then (Inr \<lparr>PrunedCount = 0, NewBase = ls_base s, BytesFreed = 0\<rparr>, s)
      else
        (case db_Range D (ls_db s) (makeHeightKey (ls_base s)) (makeHeightKey beforeHeight) of
           (es, iterErr) \<Rightarrow>
             (case ldb_prune_loop D (ls_pruneCfg s) (ls_height s) es (ls_db s) [] 0 0 0 beforeHeight of
                (d1, None) \<Rightarrow> (Inl (ErrOther ''writing prune batch''), s\<lparr>ls_db := d1\<rparr>)
              | (d1, Some q) \<Rightarrow> ldb_prune_finish D s iterErr d1 q)))"

definition ldb_PruneConfig :: "'d levelDBBlockStore \<Rightarrow> pruneConfig option" where
  "ldb_PruneConfig s = ls_pruneCfg s"

definition ldb_SetPruneConfig :: "'d levelDBBlockStore \<Rightarrow> pruneConfig option \<Rightarrow> 'd levelDBBlockStore" where
  "ldb_SetPruneConfig s cfg = s\<lparr>ls_pruneCfg := cfg\<rparr>"

section \<open>Certificates and batches\<close>

record ('c, 'b) looseTypes =
  cert_Digest :: "'c \<Rightarrow> bytes"
  cert_Round :: "'c \<Rightarrow> int"
  cert_Author :: "'c \<Rightarrow> int"
  batch_Digest :: "'b \<Rightarrow> bytes"
  marshal_cert :: "'c \<Rightarrow> error + bytes"
  unmarshal_cert :: "bytes \<Rightarrow> error + 'c"
  marshal_batch :: "'b \<Rightarrow> error + bytes"
  unmarshal_batch :: "bytes \<Rightarrow> error + 'b"

definition ldb_SaveCertificate ::
  "'d leveldb \<Rightarrow> ('c, 'b) looseTypes \<Rightarrow> 'd levelDBBlockStore \<Rightarrow> 'c option \<Rightarrow> error option \<times> 'd levelDBBlockStore" where
  "ldb_SaveCertificate D L s cert =
     (case cert of
        None \<Rightarrow> (Some (ErrOther ''cannot save nil certificate''), s)
      | Some c \<Rightarrow>
          let certKey = makeCertKey (cert_Digest L c) in
          (case db_Has D (ls_db s) certKey of
             Inl e \<Rightarrow> (Some (ErrOther ''checking certificate existence''), s)
           | Inr True \<Rightarrow> (Some ErrCertificateAlreadyExists, s)
           | Inr False \<Rightarrow>
               (case marshal_cert L c of
                  Inl e \<Rightarrow> (Some e, s)
                | Inr data \<Rightarrow>
                    (case db_Write D (ls_db s)
                            [BatchPut certKey data, BatchPut (makeCertRoundKey (cert_Round L c) (cert_Author L c)) (cert_Digest L c)] of
                       (Some e, d) \<Rightarrow> (Some (ErrOther ''writing certificate''), s\<lparr>ls_db := d\<rparr>)
                     | (None, d) \<Rightarrow> (None, s\<lparr>ls_db := d\<rparr>)))))"

definition getCertificateUnlocked ::
  "'d leveldb \<Rightarrow> ('c, 'b) looseTypes \<Rightarrow> 'd levelDBBlockStore \<Rightarrow> bytes \<Rightarrow> error + 'c" where
  "getCertificateUnlocked D L s digest =
     (case db_Get D (ls_db s) (makeCertKey digest) of
        Inl DbNotFound \<Rightarrow> Inl ErrCertificateNotFound
      | Inl (DbFailure e) \<Rightarrow> Inl (ErrOther ''getting certificate'')
      | Inr data \<Rightarrow> unmarshal_cert L data)"

definition ldb_GetCertificate ::
  "'d leveldb \<Rightarrow> ('c, 'b) looseTypes \<Rightarrow> 'd levelDBBlockStore \<Rightarrow> bytes \<Rightarrow> error + 'c" where
  "ldb_GetCertificate D L s digest =
     (case db_Get D (ls_db s) (makeCertKey digest) of
        Inl DbNotFound \<Rightarrow> Inl ErrCertificateNotFound
      | Inl (DbFailure e) \<Rightarrow> Inl (ErrOther ''getting certificate'')
      | Inr data \<Rightarrow> unmarshal_cert L data)"

text \<open>The loop over the index entries of a round or a height.\<close>

fun collect_certs ::
  "(bytes \<Rightarrow> error + 'c) \<Rightarrow> (bytes \<times> bytes) list \<Rightarrow> 'c list \<Rightarrow> error + 'c list" where
  "collect_certs get [] certs = Inr certs"
| "collect_certs get ((k, digest) # es) certs =
     (case get digest of Inl e \<Rightarrow> Inl e | Inr cert \<Rightarrow> collect_certs get es (certs @ [cert]))"

definition ldb_certs ::
  "'d leveldb \<Rightarrow> ('c, 'b) looseTypes \<Rightarrow> (('c \<Rightarrow> 'c \<Rightarrow> bool) \<Rightarrow> 'c list \<Rightarrow> 'c list) \<Rightarrow> 'd levelDBBlockStore \<Rightarrow> bytes \<Rightarrow>
   error + 'c list" where
  "ldb_certs D L srt s prfx =
     (case db_Prefix D (ls_db s) prfx of
        (es, iterErr) \<Rightarrow>
          (case collect_certs (getCertificateUnlocked D L s) es [] of
             Inl e \<Rightarrow> Inl e
           | Inr certs \<Rightarrow>
               if iterErr \<noteq> None then Inl (ErrOther ''iterating certificates'')
               else Inr (srt (\<lambda>a b. cert_Author L a < cert_Author L b) certs)))"

definition ldb_GetCertificatesForRound ::
  "'d leveldb \<Rightarrow> ('c, 'b) looseTypes \<Rightarrow> (('c \<Rightarrow> 'c \<Rightarrow> bool) \<Rightarrow> 'c list \<Rightarrow> 'c list) \<Rightarrow> 'd levelDBBlockStore \<Rightarrow> int \<Rightarrow>
   error + 'c list" where
  "ldb_GetCertificatesForRound D L srt s rnd = ldb_certs D L srt s (makeCertRoundPrefix rnd)"

definition ldb_GetCertificatesForHeight ::
  "'d leveldb \<Rightarrow> ('c, 'b) looseTypes \<Rightarrow> (('c \<Rightarrow> 'c \<Rightarrow> bool) \<Rightarrow> 'c list \<Rightarrow> 'c list) \<Rightarrow> 'd levelDBBlockStore \<Rightarrow> int \<Rightarrow>
   error + 'c list" where
  "ldb_GetCertificatesForHeight D L srt s height = ldb_certs D L srt s (makeCertHeightPrefix height)"

definition ldb_SetCertificateBlockHeight ::
  "'d leveldb \<Rightarrow> ('c, 'b) looseTypes \<Rightarrow> 'd levelDBBlockStore \<Rightarrow> bytes \<Rightarrow> int \<Rightarrow> error option \<times> 'd levelDBBlockStore" where
  "ldb_SetCertificateBlockHeight D L s digest height =
     (case db_Get D (ls_db s) (makeCertKey digest) of
        Inl DbNotFound \<Rightarrow> (Some ErrCertificateNotFound, s)
      | Inl (DbFailure e) \<Rightarrow> (Some (ErrOther ''checking certificate''), s)
      | Inr data \<Rightarrow>
          (case unmarshal_cert L data of
             Inl e \<Rightarrow> (Some e, s)
           | Inr cert \<Rightarrow>
               (case db_Put D (ls_db s) (makeCertHeightKey height (cert_Author L cert)) digest of
                  (Some e, d) \<Rightarrow> (Some (ErrOther ''setting certificate height index''), s\<lparr>ls_db := d\<rparr>)
                | (None, d) \<Rightarrow> (None, s\<lparr>ls_db := d\<rparr>))))"

definition ldb_SaveBatch ::
  "'d leveldb \<Rightarrow> ('c, 'b) looseTypes \<Rightarrow> 'd levelDBBlockStore \<Rightarrow> 'b option \<Rightarrow> error option \<times> 'd levelDBBlockStore" where
  "ldb_SaveBatch D L s batch =
     (case batch of
        None \<Rightarrow> (Some (ErrOther ''cannot save nil batch''), s)
      | Some b \<Rightarrow>
          let batchKey = makeBatchKey (batch_Digest L b) in
          (case db_Has D (ls_db s) batchKey of
             Inl e \<Rightarrow> (Some (ErrOther ''checking batch existence''), s)
           | Inr True \<Rightarrow> (Some ErrBatchAlreadyExists, s)
           | Inr False \<Rightarrow>
               (case marshal_batch L b of
                  Inl e \<Rightarrow> (Some e, s)
                | Inr data \<Rightarrow>
                    (case db_Put D (ls_db s) batchKey data of
                       (Some e, d) \<Rightarrow> (Some (ErrOther ''writing batch''), s\<lparr>ls_db := d\<rparr>)
                     | (None, d) \<Rightarrow> (None, s\<lparr>ls_db := d\<rparr>)))))"

definition ldb_GetBatch ::
  "'d leveldb \<Rightarrow> ('c, 'b) looseTypes \<Rightarrow> 'd levelDBBlockStore \<Rightarrow> bytes \<Rightarrow> error + 'b" where
  "ldb_GetBatch D L s digest =
     (case db_Get D (ls_db s) (makeBatchKey digest) of
        Inl DbNotFound \<Rightarrow> Inl ErrBatchNotFound
      | Inl (DbFailure e) \<Rightarrow> Inl (ErrOther ''getting batch'')
      | Inr data \<Rightarrow> unmarshal_batch L data)"

section \<open>Invariant and abstraction\<close>

definition ldb_inv :: "('d \<Rightarrow> kvmap) \<Rightarrow> 'd levelDBBlockStore \<Rightarrow> bool" where
  "ldb_inv content s \<longleftrightarrow> store_ok (content (ls_db s)) (ls_height s) (ls_base s) \<and> \<not> ls_pruning s"

definition ldb_abs :: "('d \<Rightarrow> kvmap) \<Rightarrow> 'd levelDBBlockStore \<Rightarrow> blockSpec" where
  "ldb_abs content s = kv_abs (content (ls_db s)) (ls_height s) (ls_base s) (ls_pruneCfg s)"

lemma apply_batch_append: "apply_batch (xs @ ys) c = apply_batch ys (apply_batch xs c)"
  by (simp add: apply_batch_def)

lemma apply_save_batch:
  "apply_batch ([BatchPut (makeHeightKey h) hash, BatchPut (makeBlockKey hash) (makeBlockValue h data)] @
     (if h > height then [BatchPut keyMetaHeight (encodeInt64 h)] else []) @
     (if base = 0 \<or> h < base then [BatchPut keyMetaBase (encodeInt64 h)] else [])) c
   = put_block c height base h hash data"
  by (simp add: apply_batch_def put_block_def Let_def)

lemma apply_deletes: "apply_batch (map BatchDelete ks) c = drop_keys ks c"
proof (induction ks arbitrary: c)
  case (Cons k ks)
  have "apply_batch (map BatchDelete (k # ks)) c = drop_keys ks (fmdrop k c)"
    using Cons.IH by (simp add: apply_batch_def)
  also have "\<dots> = drop_keys (k # ks) c" by (rule fmap_ext) (simp add: drop_keys_lookup)
  finally show ?case .
qed (simp add: apply_batch_def)

lemma ldb_save_cases:
  assumes D: "leveldb_laws D content" and r: "ldb_SaveBlock D s h hash data = (err, s')"
  obtains (same) e where "err = Some e" "s' = s"
  | (failed) e d where "err = Some e" "s' = s\<lparr>ls_db := d\<rparr>" "content d = content (ls_db s)"
  | (saved) d where "err = None" "fmlookup (content (ls_db s)) (makeHeightKey h) = None"
      "content d = put_block (content (ls_db s)) (ls_height s) (ls_base s) h hash data"
      "s' = s\<lparr>ls_db := d, ls_height := (if h > ls_height s then h else ls_height s),
              ls_base := (if ls_base s = 0 \<or> h < ls_base s then h else ls_base s)\<rparr>"
proof (cases "db_Has D (ls_db s) (makeHeightKey h)")
  case (Inl e)
  then have "err = Some (ErrOther ''checking block existence'')" "s' = s" using r by (simp_all add: ldb_SaveBlock_def)
  then show thesis by (rule same)
next
  case (Inr x)
  note x = db_Has_Inr [OF D Inr]
  show thesis
  proof (cases x)
    case True
    then have "err = Some ErrBlockAlreadyExists" "s' = s" using r Inr by (simp_all add: ldb_SaveBlock_def)
    then show thesis by (rule same)
  next
    case False
    then have False': "x = False" by simp
    let ?batch = "[BatchPut (makeHeightKey h) hash, BatchPut (makeBlockKey hash) (makeBlockValue h data)] @
       (if h > ls_height s then [BatchPut keyMetaHeight (encodeInt64 h)] else []) @
       (if ls_base s = 0 \<or> h < ls_base s then [BatchPut keyMetaBase (encodeInt64 h)] else [])"
    obtain e d where w: "db_Write D (ls_db s) ?batch = (e, d)" by (meson surj_pair)
    have res: "(err, s') = (case (e, d) of
          (Some e, d) \<Rightarrow> (Some (ErrOther ''writing block''), s\<lparr>ls_db := d\<rparr>)
        | (None, d) \<Rightarrow> (None, s\<lparr>ls_db := d,
             ls_height := (if h > ls_height s then h else ls_height s),
             ls_base := (if ls_base s = 0 \<or> h < ls_base s then h else ls_base s)\<rparr>))"
      unfolding r [symmetric] ldb_SaveBlock_def Let_def Inr False' sum.case bool.case w ..
    show thesis
    proof (cases e)
      case None
      show thesis
      proof (rule saved)
        show "content d = put_block (content (ls_db s)) (ls_height s) (ls_base s) h hash data"
          using db_Write_None [OF D w [unfolded None]] unfolding apply_save_batch .
        show "fmlookup (content (ls_db s)) (makeHeightKey h) = None" using x False by simp
      qed (use None res in simp_all)
    next
      case (Some e')
      then have "err = Some (ErrOther ''writing block'')" "s' = s\<lparr>ls_db := d\<rparr>" using res by simp_all
      then show thesis using db_Write_Some [OF D w [unfolded Some]] by (rule failed)
    qed
  qed
qed

lemma save_step:
  assumes D: "leveldb_laws D content" and inv: "ldb_inv content s" and h: "height_range h"
    and fresh: "\<And>x d. block_at (content (ls_db s)) x = Some (hash, d) \<Longrightarrow> x = h"
    and r: "ldb_SaveBlock D s h hash data = (err, s')"
  shows "ldb_inv content s' \<and> spec_step (ldb_abs content s) (OpSave h hash data) (err = None) (ldb_abs content s')"
proof -
  have ok: "store_ok (content (ls_db s)) (ls_height s) (ls_base s)" using inv by (simp add: ldb_inv_def)
  from D r show ?thesis
  proof (cases rule: ldb_save_cases)
    case same
    then show ?thesis using inv by (simp add: spec_step.not_saved)
  next
    case (failed e d)
    then have "ldb_abs content s' = ldb_abs content s" by (simp add: ldb_abs_def)
    then show ?thesis using failed inv by (simp add: ldb_inv_def spec_step.not_saved)
  next
    case (saved d)
    then show ?thesis
      using kv_saved [where data = data and cfg = "ls_pruneCfg s" and hash = hash, OF ok h saved(2)] fresh inv by (simp add: ldb_inv_def ldb_abs_def)
  qed
qed

section \<open>Pruning\<close>

definition as_entries :: "(int \<times> bytes) list \<Rightarrow> (bytes \<times> bytes) list" where
  "as_entries ps = map (\<lambda>(h, hash). (makeHeightKey h, hash)) ps"

text \<open>
  The loop works off the victims: those in \<open>done\<close> are deleted from the database, those in \<open>pend\<close>
  are in the batch.
\<close>

lemma prune_loop_done:
  assumes D: "leveldb_laws D content"
    and "\<forall>(h, hash) \<in> set ps. height_range h"
    and "content d = drop_keys (block_keys gone) c" "batch = map BatchDelete (block_keys pend)"
    and "0 \<le> batchSize" "batchSize = 0 \<longleftrightarrow> pend = []"
    and "ldb_prune_loop D cfg tip (as_entries ps) d batch batchSize n f nb = (d', r)"
  shows "\<exists>gone' pend'. gone' @ pend' = gone @ pend @ victims cfg tip ps \<and> content d' = drop_keys (block_keys gone') c \<and>
    (\<forall>batch' batchSize' n' f' nb'. r = Some (batch', batchSize', n', f', nb') \<longrightarrow>
       batch' = map BatchDelete (block_keys pend') \<and> 0 \<le> batchSize' \<and> (batchSize' = 0 \<longleftrightarrow> pend' = []) \<and>
       n' = n + int (length (victims cfg tip ps)) \<and> nb' = lowest_kept cfg tip ps nb)"
  using assms(2-)
proof (induction ps arbitrary: d gone batch pend batchSize n f nb)
  case Nil
  then show ?case by (auto simp: as_entries_def victims_def lowest_kept_def)
next
  case (Cons p ps)
  obtain h hash where p: "p = (h, hash)" by (cases p)
  have dec: "decodeInt64 (drop (length prefixHeight) (makeHeightKey h)) = h"
    using Cons.prems(1) p by (intro decode_height_key height_in_i64) simp
  have ps: "\<forall>(h, hash) \<in> set ps. height_range h" using Cons.prems(1) by simp
  have es: "as_entries (p # ps) = (makeHeightKey h, hash) # as_entries ps" by (simp add: as_entries_def p)
  show ?case
  proof (cases "cfg \<noteq> None \<and> ShouldKeep cfg h tip")
    case True
    then have "victims cfg tip (p # ps) = victims cfg tip ps"
      "lowest_kept cfg tip (p # ps) nb = lowest_kept cfg tip ps (if h < nb then h else nb)"
      by (simp_all add: victims_def lowest_kept_def p)
    then show ?thesis
      using Cons.IH [OF ps Cons.prems(2-5)] Cons.prems(6) True by (simp add: es dec Let_def del: split_paired_All)
  next
    case False
    let ?batch = "batch @ [BatchDelete (makeHeightKey h), BatchDelete (makeBlockKey hash)]"
    have v: "victims cfg tip (p # ps) = (h, hash) # victims cfg tip ps"
      and nb: "lowest_kept cfg tip (p # ps) nb = lowest_kept cfg tip ps nb"
      using False by (auto simp: victims_def lowest_kept_def p)
    have b: "?batch = map BatchDelete (block_keys (pend @ [(h, hash)]))"
      using Cons.prems(3) by (simp add: block_keys_append) (simp add: block_keys_def)
    define f' where "f' = (case db_Get D d (makeBlockKey hash) of Inr data \<Rightarrow> i64 (f + int (length data)) | Inl _ \<Rightarrow> f)"
    have loop: "ldb_prune_loop D cfg tip (as_entries (p # ps)) d batch batchSize n f nb =
        (if batchSize + 1 \<ge> maxBatchSize
         then (case db_Write D d ?batch of (Some e, d') \<Rightarrow> (d', None)
               | (None, d') \<Rightarrow> ldb_prune_loop D cfg tip (as_entries ps) d' [] 0 (n + 1) f' nb)
         else ldb_prune_loop D cfg tip (as_entries ps) d ?batch (batchSize + 1) (n + 1) f' nb)"
      by (simp only: es ldb_prune_loop.simps dec Let_def False if_False f'_def)
    consider (fail) e where "db_Write D d ?batch = (Some e, d')" "r = None"
      | (flush) d1 where "db_Write D d ?batch = (None, d1)"
          "ldb_prune_loop D cfg tip (as_entries ps) d1 [] 0 (n + 1) f' nb = (d', r)"
      | (more) "ldb_prune_loop D cfg tip (as_entries ps) d ?batch (batchSize + 1) (n + 1) f' nb = (d', r)"
      using Cons.prems(6) unfolding loop by (auto split: if_splits prod.splits option.splits)
    then show ?thesis
    proof cases
      case fail
      then show ?thesis
        using Cons.prems(2) db_Write_Some [OF D, of d ?batch] v
        by (intro exI [of _ gone] exI [of _ "pend @ victims cfg tip (p # ps)"]) simp
    next
      case (flush d1)
      have "content d1 = drop_keys (block_keys (gone @ pend @ [(h, hash)])) c"
        using db_Write_None [OF D flush(1)] Cons.prems(2) unfolding b apply_deletes
        by (simp add: block_keys_append)
      moreover have "[] = map BatchDelete (block_keys [])" by (simp add: block_keys_def)
      ultimately show ?thesis
        using Cons.IH [of d1 "gone @ pend @ [(h, hash)]" "[]" "[]" 0 "n + 1" f' nb, OF ps _ _ _ _ flush(2)]
        by (simp add: v nb add.assoc)
    next
      case more
      have "content d = drop_keys (block_keys gone) c" "0 \<le> batchSize + 1" "batchSize + 1 = 0 \<longleftrightarrow> pend @ [(h, hash)] = []"
        using Cons.prems(2,4) by simp_all
      from Cons.IH [OF ps this(1) b this(2,3) more] show ?thesis by (simp add: v nb add.assoc)
    qed
  qed
qed

lemma range_as_entries:
  assumes ok: "store_ok c height base" and b: "0 < b" "b < 2 ^ 63"
    and it: "iterates (\<lambda>k. compareKeys (makeHeightKey base) k \<le> 0 \<and> compareKeys k (makeHeightKey b) < 0) c (es, err)"
  obtains ps where "es = as_entries ps" "range_pairs c base b (err = None) ps"
proof -
  let ?h = "\<lambda>k. decodeInt64 (drop (length prefixHeight) k)"
  let ?ps = "map (\<lambda>(k, v). (?h k, v)) es"
  have entry: "\<exists>h. k = makeHeightKey h \<and> height_range h \<and> base \<le> h \<and> h < b \<and> ?h k = h \<and> fmlookup c k = Some v"
    if "(k, v) \<in> set es" for k v
  proof -
    have "fmlookup c k = Some v" "compareKeys (makeHeightKey base) k \<le> 0" "compareKeys k (makeHeightKey b) < 0"
      using it that by (auto simp: iterates_def)
    then obtain h where "k = makeHeightKey h" "height_range h" "base \<le> h" "h < b" using range_entry [OF ok b] by blast
    then show ?thesis using decode_height_key [of h] height_in_i64 \<open>fmlookup c k = Some v\<close> by blast
  qed
  have "as_entries ?ps = es"
    unfolding as_entries_def map_map
  proof (rule map_idI)
    fix x assume x: "x \<in> set es"
    obtain k v where kv: "x = (k, v)" by (cases x)
    show "((\<lambda>(h, hash). (makeHeightKey h, hash)) \<circ> (\<lambda>(k, v). (?h k, v))) x = x"
      using entry [of k v] x kv by auto
  qed
  moreover have "range_pairs c base b (err = None) ?ps"
  proof -
    have "stored_pairs c ?ps" using entry by (force simp: stored_pairs_def)
    moreover have "\<forall>(h, hash) \<in> set ?ps. base \<le> h \<and> h < b" using entry by fastforce
    moreover have "(h, hash) \<in> set ?ps"
      if full: "err = None" and h: "height_range h" "fmlookup c (makeHeightKey h) = Some hash" "base \<le> h" "h < b" for h hash
    proof -
      have "0 \<le> base" "base < 2 ^ 63" using ok by (simp_all add: store_ok_def)
      then have "compareKeys (makeHeightKey base) (makeHeightKey h) \<le> 0" "compareKeys (makeHeightKey h) (makeHeightKey b) < 0"
        using h b compare_height_keys [of base h] compare_height_keys [of h b] by (simp_all add: height_range_def sgn_if)
      then have "(makeHeightKey h, hash) \<in> set es" using it full h(2) by (simp add: iterates_def)
      then show ?thesis using decode_height_key [OF height_in_i64 [OF h(1)]] by force
    qed
    ultimately show ?thesis unfolding range_pairs_def by blast
  qed
  ultimately show thesis using that [of ?ps] by simp
qed

text \<open>What \<open>Prune\<close> does, case by case.\<close>

lemma finish_cases:
  assumes D: "leveldb_laws D content"
    and r: "ldb_prune_finish D s err d1 (map BatchDelete (block_keys pend), sz, n, f, nb) = (r, s')"
    and c1: "content d1 = drop_keys (block_keys gone) c" and sz: "0 \<le> sz" "sz = 0 \<longleftrightarrow> pend = []"
  obtains (partly) e d gone' rest where "r = Inl e" "s' = s\<lparr>ls_db := d\<rparr>" "content d = drop_keys (block_keys gone') c"
      "gone' @ rest = gone @ pend"
  | (whole) x d d2 where "r = Inr x" "s' = s\<lparr>ls_db := d, ls_base := (if nb > ls_base s then nb else ls_base s)\<rparr>" "err = None"
      "content d2 = drop_keys (block_keys (gone @ pend)) c"
      "content d = (if nb > ls_base s then fmupd keyMetaBase (encodeInt64 nb) (content d2) else content d2)"
proof (cases err)
  case (Some e)
  then have "r = Inl (ErrOther ''iterating blocks'')" "s' = s\<lparr>ls_db := d1\<rparr>"
    using r by (simp_all add: ldb_prune_finish_def)
  then show thesis using c1 by (rule partly) (rule refl)
next
  case None
  obtain e2 d2 where w: "(if sz > 0 then db_Write D d1 (map BatchDelete (block_keys pend)) else (None, d1)) = (e2, d2)"
    by (meson surj_pair)
  note def = r [unfolded ldb_prune_finish_def prod.case w None]
  show thesis
  proof (cases e2)
    case (Some e)
    then have "content d2 = drop_keys (block_keys gone) c" using w c1 db_Write_Some [OF D] by (auto split: if_splits)
    moreover have "r = Inl (ErrOther ''writing final prune batch'')" "s' = s\<lparr>ls_db := d2\<rparr>" using def Some by simp_all
    ultimately show thesis using partly by blast
  next
    case e2: None
    have c2: "content d2 = drop_keys (block_keys (gone @ pend)) c"
    proof (cases "sz > 0")
      case True
      then have "content d2 = apply_batch (map BatchDelete (block_keys pend)) (content d1)"
        using w e2 db_Write_None [OF D] by simp
      then show ?thesis using c1 by (simp add: apply_deletes block_keys_append)
    next
      case False
      then show ?thesis using w e2 c1 sz by simp
    qed
    show thesis
    proof (cases "nb > ls_base s")
      case nb: True
      obtain e3 d3 where p: "db_Put D d2 keyMetaBase (encodeInt64 nb) = (e3, d3)" by (meson surj_pair)
      show thesis
      proof (cases e3)
        case (Some e)
        then have "r = Inl (ErrOther ''updating base metadata'')" "s' = s\<lparr>ls_db := d3\<rparr>" using def e2 nb p by simp_all
        moreover have "content d3 = drop_keys (block_keys (gone @ pend)) c"
          using db_Put_Some [OF D p [unfolded Some]] c2 by simp
        ultimately show thesis using partly [of _ d3 "gone @ pend" "[]"] by simp
      next
        case e3: None
        then have "r = Inr \<lparr>PrunedCount = n, NewBase = nb, BytesFreed = f\<rparr>" "s' = s\<lparr>ls_db := d3, ls_base := nb\<rparr>"
          using def e2 nb p by simp_all
        then show thesis using whole [of _ d3 d2] None c2 nb db_Put_None [OF D p [unfolded e3]] by simp
      qed
    next
      case nb: False
      then have "r = Inr \<lparr>PrunedCount = n, NewBase = ls_base s, BytesFreed = f\<rparr>" "s' = s\<lparr>ls_db := d2\<rparr>"
        using def e2 by simp_all
      then show thesis using whole [of _ d2 d2] None c2 nb by simp
    qed
  qed
qed

lemma prune_cases:
  assumes D: "leveldb_laws D content" and inv: "ldb_inv content s" and r: "ldb_Prune D s b = (r, s')"
  obtains (refused) e where "r = Inl e" "s' = s"
  | (settled) x where "r = Inr x" "s' = s" "0 < b" "b \<le> ls_height s" "ls_base s \<ge> b"
  | (partly) e d ps gone rest where "r = Inl e" "s' = s\<lparr>ls_db := d\<rparr>" "content d = drop_keys (block_keys gone) (content (ls_db s))"
      "gone @ rest = victims (ls_pruneCfg s) (ls_height s) ps" "range_pairs (content (ls_db s)) (ls_base s) b False ps"
  | (whole) x d d1 ps nb where "r = Inr x" "s' = s\<lparr>ls_db := d, ls_base := (if nb > ls_base s then nb else ls_base s)\<rparr>"
      "0 < b" "b \<le> ls_height s" "ls_base s < b" "range_pairs (content (ls_db s)) (ls_base s) b True ps"
      "content d1 = drop_keys (block_keys (victims (ls_pruneCfg s) (ls_height s) ps)) (content (ls_db s))"
      "nb = lowest_kept (ls_pruneCfg s) (ls_height s) ps b"
      "content d = (if nb > ls_base s then fmupd keyMetaBase (encodeInt64 nb) (content d1) else content d1)"
proof -
  let ?c = "content (ls_db s)" and ?cfg = "ls_pruneCfg s" and ?tip = "ls_height s" and ?base = "ls_base s"
  have ok: "store_ok ?c ?tip ?base" and idle: "\<not> ls_pruning s" using inv by (simp_all add: ldb_inv_def)
  consider (early) e where "r = Inl e" "s' = s" | (above) x where "r = Inr x" "s' = s" "0 < b" "b \<le> ?tip" "?base \<ge> b"
    | (run) "0 < b" "b \<le> ?tip" "?base < b"
    using r idle unfolding ldb_Prune_def by (cases "b \<le> 0"; cases "b > ?tip"; cases "?base \<ge> b") auto
  then show thesis
  proof cases
    case run
    have b: "0 < b" "b < 2 ^ 63" using run ok by (simp_all add: store_ok_def)
    obtain es err where rng: "db_Range D (ls_db s) (makeHeightKey ?base) (makeHeightKey b) = (es, err)" by (meson surj_pair)
    obtain ps where ps: "es = as_entries ps" "range_pairs ?c ?base b (err = None) ps"
      by (rule range_as_entries [OF ok b db_Range_iterates [OF D, of "makeHeightKey ?base" "makeHeightKey b" "ls_db s", unfolded rng]])
    have weak: "range_pairs ?c ?base b False ps" using ps(2) by (simp add: range_pairs_def)
    have range: "\<forall>(h, hash) \<in> set ps. height_range h" using ps(2) by (auto simp: range_pairs_def stored_pairs_def)
    obtain d1 lr where loop: "ldb_prune_loop D ?cfg ?tip es (ls_db s) [] 0 0 0 b = (d1, lr)" by (meson surj_pair)
    obtain gone pend where gp: "gone @ pend = victims ?cfg ?tip ps" "content d1 = drop_keys (block_keys gone) ?c"
      "\<And>batch n sz f nb. lr = Some (batch, sz, n, f, nb) \<Longrightarrow> batch = map BatchDelete (block_keys pend) \<and> 0 \<le> sz \<and>
         (sz = 0 \<longleftrightarrow> pend = []) \<and> nb = lowest_kept ?cfg ?tip ps b"
      using prune_loop_done [OF D range, of "ls_db s" "[]" ?c "[]" "[]" 0 ?cfg ?tip 0 0 b d1 lr] loop
      by (auto simp: ps(1) block_keys_def)
    show thesis
    proof (cases lr)
      case None
      then have "r = Inl (ErrOther ''writing prune batch'')" "s' = s\<lparr>ls_db := d1\<rparr>"
        using r run idle by (simp_all add: ldb_Prune_def rng loop)
      then show thesis using gp(2,1) weak by (rule partly)
    next
      case (Some q)
      obtain batch sz n f nb where q: "q = (batch, sz, n, f, nb)" by (cases q)
      note l = gp(3) [OF Some [unfolded q]]
      have fin: "ldb_prune_finish D s err d1 (map BatchDelete (block_keys pend), sz, n, f, nb) = (r, s')"
        using r run idle Some q l by (simp add: ldb_Prune_def rng loop)
      have sz: "0 \<le> sz" "sz = 0 \<longleftrightarrow> pend = []" using l by simp_all
      from D fin gp(2) sz show thesis
      proof (cases rule: finish_cases)
        case (partly e d gone' rest)
        then show thesis using that(3) [of e d gone' rest ps] gp(1) weak by simp
      next
        case (whole x d d2)
        then show thesis using that(4) [of x nb d ps d2] run ps(2) gp(1) l by simp
      qed
    qed
  qed (use refused settled in blast)+
qed

lemma prune_step:
  assumes D: "leveldb_laws D content" and inv: "ldb_inv content s" and r: "ldb_Prune D s b = (r, s')"
  shows "ldb_inv content s' \<and> spec_step (ldb_abs content s) (OpPrune b) (\<not> isl r) (ldb_abs content s')"
proof -
  have ok: "store_ok (content (ls_db s)) (ls_height s) (ls_base s)" and idle: "\<not> ls_pruning s"
    using inv by (simp_all add: ldb_inv_def)
  from D inv r show ?thesis
  proof (cases rule: prune_cases)
    case (refused e)
    then show ?thesis using inv spec_step.not_pruned [of "sp_blocks (ldb_abs content s)" "ldb_abs content s" b] by simp
  next
    case (settled x)
    then show ?thesis using inv kv_settled [OF ok settled(3-5)] by (simp add: ldb_abs_def)
  next
    case (partly e d ps gone rest)
    have "set gone \<subseteq> set (victims (ls_pruneCfg s) (ls_height s) ps)" using partly(4) by (metis Un_upper1 set_append)
    then show ?thesis
      using kv_pruned_partly [OF ok partly(5)] partly(1-3) idle by (simp add: ldb_inv_def ldb_abs_def)
  next
    case (whole x d d1 ps nb)
    show ?thesis
      using kv_pruned [OF ok whole(3-6), of "ls_pruneCfg s", folded whole(7,8)] whole(1,2,9) idle
      by (simp add: ldb_inv_def ldb_abs_def)
  qed
qed

section \<open>Opening and the operations on certificates\<close>

lemma decode_encodeInt64 [simp]: "in_i64 v \<Longrightarrow> decodeInt64 (encodeInt64 v) = v"
  using decode_encode [of v "[]"] by (simp add: encodeInt64_def)

lemma db_Get_meta:
  assumes "leveldb_laws D content" "fmlookup (content d) k = (if v = 0 then None else Some (encodeInt64 v))" "in_i64 v"
  shows "(\<exists>e. db_Get D d k = Inl (DbFailure e)) \<or>
    (case db_Get D d k of Inr data \<Rightarrow> decodeInt64 data = v | Inl _ \<Rightarrow> v = 0)"
proof (cases "db_Get D d k")
  case (Inl e)
  then show ?thesis using db_Get_NotFound [OF assms(1)] assms(2) by (cases e) (auto split: if_splits)
next
  case (Inr data)
  then show ?thesis using db_Get_Inr [OF assms(1) Inr] assms(2,3) by (auto split: if_splits)
qed

lemma open_step:
  assumes D: "leveldb_laws D content" and ok: "store_ok (content d) height base"
    and r: "NewLevelDBBlockStore D (Inr d) = Inr s'"
  shows "s' = \<lparr>ls_db = d, ls_height = height, ls_base = base, ls_pruneCfg = None, ls_pruning = False\<rparr>"
proof -
  have b: "in_i64 height" "in_i64 base" and m: "fmlookup (content d) keyMetaHeight = (if height = 0 then None else Some (encodeInt64 height))"
    "fmlookup (content d) keyMetaBase = (if base = 0 then None else Some (encodeInt64 base))"
    using ok by (simp_all add: store_ok_def in_i64_def)
  show ?thesis
    using r db_Get_meta [OF D m(1) b(1)] db_Get_meta [OF D m(2) b(2)]
    by (auto simp: NewLevelDBBlockStore_def ldb_loadMetadata_def Let_def split: sum.splits dbError.splits)
qed

text \<open>A write of keys of certificates or batches changes nothing the blocks depend on.\<close>

definition unrelated :: "('d \<Rightarrow> kvmap) \<Rightarrow> 'd levelDBBlockStore \<Rightarrow> 'd levelDBBlockStore \<Rightarrow> bool" where
  "unrelated content s s' \<longleftrightarrow> (ldb_inv content s \<longrightarrow> ldb_inv content s') \<and> ldb_abs content s' = ldb_abs content s"

lemma unrelated_refl [simp]: "unrelated content s s"
  by (simp add: unrelated_def)

lemma unrelated_content: "content d = content (ls_db s) \<Longrightarrow> unrelated content s (s\<lparr>ls_db := d\<rparr>)"
  by (simp add: unrelated_def ldb_inv_def ldb_abs_def kv_abs_def)

lemma unrelated_put:
  "content d = fmupd k v (content (ls_db s)) \<Longrightarrow> other_key k \<Longrightarrow> unrelated content s (s\<lparr>ls_db := d\<rparr>)"
  by (simp add: unrelated_def ldb_inv_def ldb_abs_def kv_abs_def put_other_ok)

lemma unrelated_put2:
  "content d = fmupd k' v' (fmupd k v (content (ls_db s))) \<Longrightarrow> other_key k \<Longrightarrow> other_key k' \<Longrightarrow>
   unrelated content s (s\<lparr>ls_db := d\<rparr>)"
  by (simp add: unrelated_def ldb_inv_def ldb_abs_def kv_abs_def put_other_ok)

lemma put_unrelated:
  assumes D: "leveldb_laws D content" and "other_key k" "db_Put D (ls_db s) k v = (e, d)"
  shows "unrelated content s (s\<lparr>ls_db := d\<rparr>)"
  using assms db_Put_None [OF D, of "ls_db s" k v d] db_Put_Some [OF D, of "ls_db s" k v _ d]
  by (cases e) (auto intro: unrelated_put unrelated_content)

lemma write_unrelated:
  assumes D: "leveldb_laws D content" and "other_key k" "other_key k'"
    and "db_Write D (ls_db s) [BatchPut k v, BatchPut k' v'] = (e, d)"
  shows "unrelated content s (s\<lparr>ls_db := d\<rparr>)"
  using assms db_Write_None [OF D, of "ls_db s" "[BatchPut k v, BatchPut k' v']" d]
    db_Write_Some [OF D, of "ls_db s" "[BatchPut k v, BatchPut k' v']" _ d]
  by (cases e) (auto simp: apply_batch_def intro: unrelated_put2 unrelated_content)

lemma SaveCertificate_unrelated:
  assumes D: "leveldb_laws D content" and r: "ldb_SaveCertificate D L s cert = (e, s')"
  shows "unrelated content s s'"
proof -
  have "s' = s \<or> (\<exists>k v k' v' e d. other_key k \<and> other_key k' \<and>
      db_Write D (ls_db s) [BatchPut k v, BatchPut k' v'] = (e, d) \<and> s' = s\<lparr>ls_db := d\<rparr>)"
    using r other_keys unfolding ldb_SaveCertificate_def Let_def
    by (force split: option.splits sum.splits bool.splits prod.splits)
  then show ?thesis using write_unrelated [OF D] by auto
qed

lemma SetCertificateBlockHeight_unrelated:
  assumes D: "leveldb_laws D content" and r: "ldb_SetCertificateBlockHeight D L s digest h = (e, s')"
  shows "unrelated content s s'"
proof -
  have "s' = s \<or> (\<exists>k v e d. other_key k \<and> db_Put D (ls_db s) k v = (e, d) \<and> s' = s\<lparr>ls_db := d\<rparr>)"
    using r other_keys unfolding ldb_SetCertificateBlockHeight_def
    by (force split: option.splits sum.splits dbError.splits prod.splits)
  then show ?thesis using put_unrelated [OF D] by auto
qed

lemma SaveBatch_unrelated:
  assumes D: "leveldb_laws D content" and r: "ldb_SaveBatch D L s batch = (e, s')"
  shows "unrelated content s s'"
proof -
  have "s' = s \<or> (\<exists>k v e d. other_key k \<and> db_Put D (ls_db s) k v = (e, d) \<and> s' = s\<lparr>ls_db := d\<rparr>)"
    using r other_keys unfolding ldb_SaveBatch_def Let_def
    by (force split: option.splits sum.splits bool.splits prod.splits)
  then show ?thesis using put_unrelated [OF D] by auto
qed

section \<open>Runs\<close>

inductive ldb_step ::
  "'d leveldb \<Rightarrow> ('c, 'b) looseTypes \<Rightarrow> 'd levelDBBlockStore \<Rightarrow> storeOp \<Rightarrow> bool \<Rightarrow> 'd levelDBBlockStore \<Rightarrow> bool"
  for D :: "'d leveldb" and L :: "('c, 'b) looseTypes" where
  save: "ldb_SaveBlock D s h hash data = (err, s') \<Longrightarrow> ldb_step D L s (OpSave h hash data) (err = None) s'"
| prune: "ldb_Prune D s b = (r, s') \<Longrightarrow> ldb_step D L s (OpPrune b) (\<not> isl r) s'"
| config: "ldb_step D L s (OpSetConfig cfg) True (ldb_SetPruneConfig s cfg)"
| reopen: "NewLevelDBBlockStore D (Inr (ls_db s)) = Inr s' \<Longrightarrow> ldb_step D L s OpReopen True s'"
| cert: "ldb_SaveCertificate D L s c = (e, s') \<Longrightarrow> ldb_step D L s OpOther (e = None) s'"
| cert_height: "ldb_SetCertificateBlockHeight D L s digest h = (e, s') \<Longrightarrow> ldb_step D L s OpOther (e = None) s'"
| batch: "ldb_SaveBatch D L s b = (e, s') \<Longrightarrow> ldb_step D L s OpOther (e = None) s'"

inductive ldb_run ::
  "'d leveldb \<Rightarrow> ('c, 'b) looseTypes \<Rightarrow> 'd levelDBBlockStore \<Rightarrow> (storeOp \<times> bool) list \<Rightarrow> 'd levelDBBlockStore \<Rightarrow> bool"
  for D :: "'d leveldb" and L :: "('c, 'b) looseTypes" where
  stop: "ldb_run D L s [] s"
| step: "ldb_step D L s opn ok s' \<Longrightarrow> ldb_run D L s' tr s'' \<Longrightarrow> ldb_run D L s ((opn, ok) # tr) s''"

lemma step_refines:
  assumes D: "leveldb_laws D content" and st: "ldb_step D L s opn ok s'" and inv: "ldb_inv content s"
    and good: "good_saves height_of [(opn, ok)]" and com: "committed height_of (ldb_abs content s)"
  shows "ldb_inv content s' \<and> spec_step (ldb_abs content s) opn ok (ldb_abs content s')"
  using st
proof cases
  case (save h hash data err)
  have "x = h" if "block_at (content (ls_db s)) x = Some (hash, d)" for x d
    using com good that save(1) by (auto simp: committed_def ldb_abs_def kv_abs_def good_saves_def)
  then show ?thesis using save_step [OF D inv _ _ save(3)] good save(1,2) by (auto simp: good_saves_def)
next
  case (prune b r)
  then show ?thesis using prune_step [OF D inv] by simp
next
  case (config cfg)
  then show ?thesis
    using inv spec_step.configured [of "ldb_abs content s" cfg] by (simp add: ldb_inv_def ldb_abs_def kv_abs_def ldb_SetPruneConfig_def)
next
  case reopen
  then show ?thesis
    using inv open_step [OF D, of "ls_db s" "ls_height s" "ls_base s" s'] spec_step.reopened [of "ldb_abs content s"]
    by (simp add: ldb_inv_def ldb_abs_def kv_abs_def)
next
  case (cert c e)
  then show ?thesis using SaveCertificate_unrelated [OF D] inv spec_step.other by (metis unrelated_def)
next
  case (cert_height digest h e)
  then show ?thesis using SetCertificateBlockHeight_unrelated [OF D] inv spec_step.other by (metis unrelated_def)
next
  case (batch b e)
  then show ?thesis using SaveBatch_unrelated [OF D] inv spec_step.other by (metis unrelated_def)
qed

lemma run_refines:
  assumes D: "leveldb_laws D content" and run: "ldb_run D L s tr s'" and inv: "ldb_inv content s"
    and good: "good_saves height_of tr" and com: "committed height_of (ldb_abs content s)"
  shows "ldb_inv content s' \<and> spec_run (ldb_abs content s) tr (ldb_abs content s')"
  using run inv good com
proof (induction rule: ldb_run.induct)
  case (stop s)
  then show ?case by (simp add: spec_run.stop)
next
  case (step s opn ok s' tr s'')
  have g: "good_saves height_of [(opn, ok)]" "good_saves height_of tr" using step.prems(2) by (simp_all add: good_saves_def)
  have one: "ldb_inv content s'" "spec_step (ldb_abs content s) opn ok (ldb_abs content s')"
    using step_refines [OF D step.hyps(1) step.prems(1) g(1) step.prems(3)] by simp_all
  then have "committed height_of (ldb_abs content s')" using committed_step step.prems(3) g(1) by blast
  then show ?case using step.IH one g(2) spec_run.step by blast
qed

lemma loads_abs:
  assumes D: "leveldb_laws D content" and inv: "ldb_inv content s"
  shows "height_range h \<Longrightarrow> ldb_LoadBlock D s h = Inr b \<Longrightarrow> sp_blocks (ldb_abs content s) h = Some b"
    and "height_range h \<Longrightarrow> ldb_LoadBlock D s h = Inl ErrBlockNotFound \<Longrightarrow> sp_blocks (ldb_abs content s) h = None"
    and "ldb_LoadBlockByHash D s hash = Inr (h, d) \<Longrightarrow> sp_blocks (ldb_abs content s) h = Some (hash, d)"
    and "ldb_LoadBlockByHash D s hash = Inl ErrBlockNotFound \<Longrightarrow> sp_blocks (ldb_abs content s) h \<noteq> Some (hash, d)"
proof -
  let ?c = "content (ls_db s)"
  have ok: "store_ok ?c (ls_height s) (ls_base s)" using inv by (simp add: ldb_inv_def)
  note get = db_Get_Inr [OF D] db_Get_NotFound [OF D]
  show "sp_blocks (ldb_abs content s) h = Some b" if "height_range h" "ldb_LoadBlock D s h = Inr b"
    using that get(1) by (fastforce simp: ldb_LoadBlock_def ldb_abs_def kv_abs_def block_at_def split: sum.splits dbError.splits)
  show "sp_blocks (ldb_abs content s) h = None" if "height_range h" "ldb_LoadBlock D s h = Inl ErrBlockNotFound"
    using that get by (fastforce simp: ldb_LoadBlock_def ldb_abs_def kv_abs_def block_at_def split: sum.splits dbError.splits)
  show "sp_blocks (ldb_abs content s) h = Some (hash, d)" if r: "ldb_LoadBlockByHash D s hash = Inr (h, d)"
  proof -
    obtain v where v: "fmlookup ?c (makeBlockKey hash) = Some v" "parseBlockValue v = (h, d)"
      using r get(1) by (fastforce simp: ldb_LoadBlockByHash_def split: sum.splits dbError.splits)
    then show ?thesis
      using store_ok_block_key [OF ok v(1)] height_in_i64 parse_block_value by (metis Pair_inject block_at_iff [OF ok] ldb_abs_def kv_abs_def blockSpec.select_convs(1))
  qed
  show "sp_blocks (ldb_abs content s) h \<noteq> Some (hash, d)" if "ldb_LoadBlockByHash D s hash = Inl ErrBlockNotFound"
    using that get(2) by (auto simp: ldb_LoadBlockByHash_def ldb_abs_def kv_abs_def block_at_iff [OF ok] split: sum.splits dbError.splits)
qed

text \<open>A saved certificate is found by its digest, unless the read fails.\<close>

lemma saved_certificate_found:
  assumes D: "leveldb_laws D content" and r: "ldb_SaveCertificate D L s (Some c) = (None, s')"
    and enc: "\<And>data. marshal_cert L c = Inr data \<Longrightarrow> unmarshal_cert L data = Inr c"
  shows "ldb_GetCertificate D L s' (cert_Digest L c) \<in> {Inr c, Inl (ErrOther ''getting certificate'')}"
proof -
  let ?k = "makeCertKey (cert_Digest L c)" and ?r = "makeCertRoundKey (cert_Round L c) (cert_Author L c)"
  obtain data d where w: "marshal_cert L c = Inr data" "db_Write D (ls_db s) [BatchPut ?k data, BatchPut ?r (cert_Digest L c)] = (None, d)"
      "s' = s\<lparr>ls_db := d\<rparr>"
    using r by (auto simp: ldb_SaveCertificate_def Let_def split: sum.splits bool.splits prod.splits option.splits)
  have "?k \<noteq> ?r" by (simp add: key_defs prefix_defs)
  then have "fmlookup (content d) ?k = Some data"
    using db_Write_None [OF D w(2)] by (simp add: apply_batch_def)
  then show ?thesis
    using db_Get_Inr [OF D, of d ?k] db_Get_NotFound [OF D, of d ?k] enc [OF w(1)]
    by (auto simp: ldb_GetCertificate_def w(3) split: sum.splits dbError.splits)
qed

section \<open>A database in memory\<close>

text \<open>A database that satisfies the laws and never fails, for the instances below.\<close>

definition entries_of :: "(bytes \<Rightarrow> bool) \<Rightarrow> kvmap \<Rightarrow> (bytes \<times> bytes) list" where
  "entries_of P c = map (\<lambda>k. (k, the (fmlookup c k))) (filter P (sorted_list_of_set (fmdom' c)))"

definition map_db :: "kvmap leveldb" where
  "map_db = \<lparr>db_Get = (\<lambda>c k. case fmlookup c k of None \<Rightarrow> Inl DbNotFound | Some v \<Rightarrow> Inr v),
     db_Has = (\<lambda>c k. Inr (fmlookup c k \<noteq> None)), db_Put = (\<lambda>c k v. (None, fmupd k v c)),
     db_Write = (\<lambda>c ops. (None, apply_batch ops c)),
     db_Range = (\<lambda>c a b. (entries_of (\<lambda>k. compareKeys a k \<le> 0 \<and> compareKeys k b < 0) c, None)),
     db_Prefix = (\<lambda>c p. (entries_of (\<lambda>k. take (length p) k = p) c, None))\<rparr>"

lemma compareKeys_lex: "compareKeys x y < 0 \<longleftrightarrow> x < y"
  by (induction x y rule: compareKeys.induct) auto

lemma map_db_iterates: "iterates P c (entries_of P c, None)"
proof -
  have "sorted_wrt (<) (sorted_list_of_set (fmdom' c))" by simp
  then have "sorted_wrt (\<lambda>x y. compareKeys (fst x) (fst y) < 0) (entries_of P c)"
    unfolding entries_of_def sorted_wrt_map compareKeys_lex fst_conv by (rule sorted_wrt_filter)
  moreover have "(k, v) \<in> set (entries_of P c) \<longleftrightarrow> fmlookup c k = Some v \<and> P k" for k v
    by (auto simp: entries_of_def image_iff fmlookup_dom'_iff)
  ultimately show ?thesis by (auto simp: iterates_def)
qed

lemma map_db_laws: "leveldb_laws map_db id"
  by (simp add: leveldb_laws_def map_db_def map_db_iterates split: option.splits)

section \<open>Properties\<close>


definition ex_loose :: "(unit, unit) looseTypes" where
  "ex_loose = \<lparr>cert_Digest = (\<lambda>_. []), cert_Round = (\<lambda>_. 0), cert_Author = (\<lambda>_. 0), batch_Digest = (\<lambda>_. []),
     marshal_cert = (\<lambda>_. Inr []), unmarshal_cert = (\<lambda>_. Inr ()), marshal_batch = (\<lambda>_. Inr []),
     unmarshal_batch = (\<lambda>_. Inr ())\<rparr>"

definition ex_level :: "kvmap levelDBBlockStore" where
  "ex_level = snd (ldb_Prune map_db (snd (ldb_SaveBlock map_db (snd (ldb_SaveBlock map_db
     \<lparr>ls_db = fmempty, ls_height = 0, ls_base = 0, ls_pruneCfg = None, ls_pruning = False\<rparr> 1 [1] [10])) 2 [2] [20])) 2)"




end
