(* ===== verification/BadgerDB.thy ===== *)
theory BadgerDB
  imports LevelDB
begin

text \<open>
  \<open>pkg/blockstore/badgerdb.go\<close>. The methods of the database are the record \<open>badgerdb\<close>: what
  \<open>View\<close> or \<open>Update\<close> report before they run their function, reads within a transaction, writes that a
  transaction refuses, its commit, and write batches. \<open>badger_laws\<close> is what the code relies on; a batch of
  at most 1000 blocks is far below the transaction limit of the database, so \<open>Flush\<close> commits it as one transaction.
  Keys, values, the invariant and the specification are those of theory \<open>KVStore\<close>, and the store is shown to refine the same specification
  as the LevelDB store. \<open>Compact\<close>, \<open>Sync\<close>, \<open>Size\<close>, \<open>Close\<close> and the options only concern the database itself.
\<close>

section \<open>The database\<close>

record badgerItem =
  it_Key :: bytes
  it_Value :: "dbError + bytes"
  it_ValueSize :: int

record 'd badgerdb =
  bg_Unavailable :: "'d \<Rightarrow> dbError option"
  bg_Get :: "'d \<Rightarrow> bytes \<Rightarrow> dbError + badgerItem"
  bg_Items :: "'d \<Rightarrow> bytes \<Rightarrow> badgerItem list"
  bg_Set :: "'d \<Rightarrow> (bytes \<times> bytes) list \<Rightarrow> bytes \<Rightarrow> bytes \<Rightarrow> dbError option"
  bg_Commit :: "'d \<Rightarrow> (bytes \<times> bytes) list \<Rightarrow> dbError option \<times> 'd"
  bg_Delete :: "'d \<Rightarrow> bytes list \<Rightarrow> bytes \<Rightarrow> dbError option"
  bg_Flush :: "'d \<Rightarrow> bytes list \<Rightarrow> dbError option \<times> 'd"

definition put_all :: "(bytes \<times> bytes) list \<Rightarrow> kvmap \<Rightarrow> kvmap" where
  "put_all kvs c = fold (\<lambda>(k, v). fmupd k v) kvs c"

definition item_of :: "kvmap \<Rightarrow> badgerItem \<Rightarrow> bool" where
  "item_of c i \<longleftrightarrow> (\<exists>v. fmlookup c (it_Key i) = Some v \<and> (\<forall>w. it_Value i = Inr w \<longrightarrow> w = v))"

definition badger_laws :: "'d badgerdb \<Rightarrow> ('d \<Rightarrow> kvmap) \<Rightarrow> bool" where
  "badger_laws D content \<longleftrightarrow>
     (\<forall>d k i. bg_Get D d k = Inr i \<longrightarrow> it_Key i = k \<and> item_of (content d) i) \<and>
     (\<forall>d k. bg_Get D d k = Inl DbNotFound \<longrightarrow> fmlookup (content d) k = None) \<and>
     (\<forall>d p. sorted_wrt (\<lambda>x y. compareKeys (it_Key x) (it_Key y) < 0) (bg_Items D d p) \<and>
        (\<forall>i \<in> set (bg_Items D d p). item_of (content d) i \<and> take (length p) (it_Key i) = p) \<and>
        (\<forall>k v. fmlookup (content d) k = Some v \<and> take (length p) k = p \<longrightarrow> k \<in> it_Key ` set (bg_Items D d p))) \<and>
     (\<forall>d kvs d'. bg_Commit D d kvs = (None, d') \<longrightarrow> content d' = put_all kvs (content d)) \<and>
     (\<forall>d kvs e d'. bg_Commit D d kvs = (Some e, d') \<longrightarrow> content d' = content d) \<and>
     (\<forall>d ks d'. bg_Flush D d ks = (None, d') \<longrightarrow> content d' = drop_keys ks (content d)) \<and>
     (\<forall>d ks e d'. length ks \<le> 2000 \<and> bg_Flush D d ks = (Some e, d') \<longrightarrow> content d' = content d)"

lemma badger_lawsD:
  assumes "badger_laws D content"
  shows bg_Get_Inr: "bg_Get D d k = Inr i \<Longrightarrow> it_Key i = k \<and> item_of (content d) i"
    and bg_Get_NotFound: "bg_Get D d k = Inl DbNotFound \<Longrightarrow> fmlookup (content d) k = None"
    and bg_Items_sorted: "sorted_wrt (\<lambda>x y. compareKeys (it_Key x) (it_Key y) < 0) (bg_Items D d p)"
    and bg_Items_sound: "i \<in> set (bg_Items D d p) \<Longrightarrow> item_of (content d) i \<and> take (length p) (it_Key i) = p"
    and bg_Items_complete: "fmlookup (content d) k = Some v \<Longrightarrow> take (length p) k = p \<Longrightarrow> k \<in> it_Key ` set (bg_Items D d p)"
    and bg_Commit_None: "bg_Commit D d kvs = (None, d') \<Longrightarrow> content d' = put_all kvs (content d)"
    and bg_Commit_Some: "bg_Commit D d kvs = (Some e, d') \<Longrightarrow> content d' = content d"
    and bg_Flush_None: "bg_Flush D d ks = (None, d') \<Longrightarrow> content d' = drop_keys ks (content d)"
    and bg_Flush_Some: "length ks \<le> 2000 \<Longrightarrow> bg_Flush D d ks = (Some e, d') \<Longrightarrow> content d' = content d"
  using assms by (simp_all add: badger_laws_def)

text \<open>\<open>View\<close>, and \<open>Update\<close> with a function that sets some keys and stops at the first refusal.\<close>

definition bg_View :: "'d badgerdb \<Rightarrow> 'd \<Rightarrow> (dbError + 'r) \<Rightarrow> dbError + 'r" where
  "bg_View D d r = (case bg_Unavailable D d of Some e \<Rightarrow> Inl e | None \<Rightarrow> r)"

fun set_keys ::
  "'d badgerdb \<Rightarrow> 'd \<Rightarrow> (bytes \<times> bytes) list \<Rightarrow> (bytes \<times> bytes) list \<Rightarrow> dbError + (bytes \<times> bytes) list" where
  "set_keys D d pending [] = Inr pending"
| "set_keys D d pending ((k, v) # kvs) =
     (case bg_Set D d pending k v of
        Some e \<Rightarrow> Inl e
      | None \<Rightarrow> set_keys D d (pending @ [(k, v)]) kvs)"

definition bg_Update :: "'d badgerdb \<Rightarrow> 'd \<Rightarrow> (bytes \<times> bytes) list \<Rightarrow> dbError option \<times> 'd" where
  "bg_Update D d kvs =
     (case bg_Unavailable D d of
        Some e \<Rightarrow> (Some e, d)
      | None \<Rightarrow> (case set_keys D d [] kvs of Inl e \<Rightarrow> (Some e, d) | Inr ws \<Rightarrow> bg_Commit D d ws))"

section \<open>BadgerDBBlockStore\<close>

record 'd badgerDBBlockStore =
  bs_db :: 'd
  bs_height :: int
  bs_base :: int
  bs_pruneCfg :: "pruneConfig option"
  bs_pruning :: bool

text \<open>Only the error of \<open>Get\<close> is compared with \<open>ErrKeyNotFound\<close>; one of reading the value is a failure.\<close>

definition read_value :: "'d badgerdb \<Rightarrow> 'd \<Rightarrow> bytes \<Rightarrow> dbError + bytes" where
  "read_value D d k =
     (case bg_Get D d k of
        Inl e \<Rightarrow> Inl e
      | Inr item \<Rightarrow> (case it_Value item of Inl e \<Rightarrow> Inl (DbFailure ''reading value'') | Inr val \<Rightarrow> Inr val))"

text \<open>Reading one metadata key: \<open>None\<close> when it is not there.\<close>

definition read_meta :: "'d badgerdb \<Rightarrow> 'd \<Rightarrow> bytes \<Rightarrow> dbError + int option" where
  "read_meta D d k =
     (case bg_Get D d k of
        Inl DbNotFound \<Rightarrow> Inr None
      | Inl e \<Rightarrow> Inl e
      | Inr item \<Rightarrow> (case it_Value item of Inl e \<Rightarrow> Inl e | Inr val \<Rightarrow> Inr (Some (decodeInt64 val))))"

definition bdg_loadMetadata ::
  "'d badgerdb \<Rightarrow> 'd badgerDBBlockStore \<Rightarrow> dbError option \<times> 'd badgerDBBlockStore" where
  "bdg_loadMetadata D s =
     (case bg_View D (bs_db s) (read_meta D (bs_db s) keyMetaHeight) of
        Inl e \<Rightarrow> (Some e, s)
      | Inr h \<Rightarrow>
          let s1 = (case h of None \<Rightarrow> s | Some v \<Rightarrow> s\<lparr>bs_height := v\<rparr>) in
          (case read_meta D (bs_db s) keyMetaBase of
             Inl e \<Rightarrow> (Some e, s1)
           | Inr b \<Rightarrow> (None, case b of None \<Rightarrow> s1 | Some v \<Rightarrow> s1\<lparr>bs_base := v\<rparr>)))"

definition NewBadgerDBBlockStoreWithOptions ::
  "'d badgerdb \<Rightarrow> dbError + 'd \<Rightarrow> error + 'd badgerDBBlockStore" where
  "NewBadgerDBBlockStoreWithOptions D opened =
     (case opened of
        Inl e \<Rightarrow> Inl (ErrOther ''opening badgerdb'')
      | Inr d \<Rightarrow>
          (case bdg_loadMetadata D \<lparr>bs_db = d, bs_height = 0, bs_base = 0, bs_pruneCfg = None, bs_pruning = False\<rparr> of
             (Some e, s) \<Rightarrow> Inl (ErrOther ''loading metadata'')
           | (None, s) \<Rightarrow> Inr s))"

text \<open>Whether a key is there; used before every write.\<close>

definition key_exists :: "'d badgerdb \<Rightarrow> 'd \<Rightarrow> bytes \<Rightarrow> dbError + bool" where
  "key_exists D d k =
     bg_View D d (case bg_Get D d k of Inr item \<Rightarrow> Inr True | Inl DbNotFound \<Rightarrow> Inr False | Inl e \<Rightarrow> Inl e)"

definition bdg_SaveBlock ::
  "'d badgerdb \<Rightarrow> 'd badgerDBBlockStore \<Rightarrow> int \<Rightarrow> bytes \<Rightarrow> bytes \<Rightarrow> error option \<times> 'd badgerDBBlockStore" where
  "bdg_SaveBlock D s height hash data =
     (case key_exists D (bs_db s) (makeHeightKey height) of
        Inl e \<Rightarrow> (Some (ErrOther ''checking block existence''), s)
      | Inr True \<Rightarrow> (Some ErrBlockAlreadyExists, s)
      | Inr False \<Rightarrow>
          (case bg_Update D (bs_db s)
                  ([(makeHeightKey height, hash), (makeBlockKey hash, makeBlockValue height data)] @
                   (if height > bs_height s then [(keyMetaHeight, encodeInt64 height)] else []) @
                   (if bs_base s = 0 \<or> height < bs_base s then [(keyMetaBase, encodeInt64 height)] else [])) of
             (Some e, d) \<Rightarrow> (Some (ErrOther ''writing block''), s\<lparr>bs_db := d\<rparr>)
           | (None, d) \<Rightarrow>
               (None, s\<lparr>bs_db := d,
                        bs_height := (if height > bs_height s then height else bs_height s),
                        bs_base := (if bs_base s = 0 \<or> height < bs_base s then height else bs_base s)\<rparr>)))"

definition bdg_LoadBlock :: "'d badgerdb \<Rightarrow> 'd badgerDBBlockStore \<Rightarrow> int \<Rightarrow> error + (bytes \<times> bytes)" where
  "bdg_LoadBlock D s height =
     (case bg_Unavailable D (bs_db s) of
        Some e \<Rightarrow> Inl (ErrOther ''badger'')
      | None \<Rightarrow>
          (case read_value D (bs_db s) (makeHeightKey height) of
             Inl DbNotFound \<Rightarrow> Inl ErrBlockNotFound
           | Inl (DbFailure e) \<Rightarrow> Inl (ErrOther ''getting hash for height'')
           | Inr hash \<Rightarrow>
               (case read_value D (bs_db s) (makeBlockKey hash) of
                  Inl DbNotFound \<Rightarrow> Inl ErrBlockNotFound
                | Inl (DbFailure e) \<Rightarrow> Inl (ErrOther ''getting block data'')
                | Inr blockValue \<Rightarrow> Inr (hash, snd (parseBlockValue blockValue)))))"

definition bdg_LoadBlockByHash :: "'d badgerdb \<Rightarrow> 'd badgerDBBlockStore \<Rightarrow> bytes \<Rightarrow> error + (int \<times> bytes)" where
  "bdg_LoadBlockByHash D s hash =
     (case bg_Unavailable D (bs_db s) of
        Some e \<Rightarrow> Inl (ErrOther ''badger'')
      | None \<Rightarrow>
          (case read_value D (bs_db s) (makeBlockKey hash) of
             Inl DbNotFound \<Rightarrow> Inl ErrBlockNotFound
           | Inl (DbFailure e) \<Rightarrow> Inl (ErrOther ''getting block by hash'')
           | Inr blockValue \<Rightarrow> Inr (parseBlockValue blockValue)))"

definition bdg_HasBlock :: "'d badgerdb \<Rightarrow> 'd badgerDBBlockStore \<Rightarrow> int \<Rightarrow> bool" where
  "bdg_HasBlock D s height \<longleftrightarrow>
     bg_Unavailable D (bs_db s) = None \<and> (\<exists>item. bg_Get D (bs_db s) (makeHeightKey height) = Inr item)"

definition bdg_Height :: "'d badgerDBBlockStore \<Rightarrow> int" where
  "bdg_Height s = bs_height s"

definition bdg_Base :: "'d badgerDBBlockStore \<Rightarrow> int" where
  "bdg_Base s = bs_base s"

definition bdg_BlockCount :: "'d badgerdb \<Rightarrow> 'd badgerDBBlockStore \<Rightarrow> nat" where
  "bdg_BlockCount D s =
     (case bg_Unavailable D (bs_db s) of Some e \<Rightarrow> 0 | None \<Rightarrow> length (bg_Items D (bs_db s) prefixHeight))"

record deleteEntry =
  de_heightKey :: bytes
  de_blockKey :: bytes
  de_dataSize :: int

text \<open>The loop of \<open>Prune\<close> that collects what to delete, over the items from the start key on.\<close>

fun collect_loop ::
  "'d badgerdb \<Rightarrow> 'd \<Rightarrow> pruneConfig option \<Rightarrow> int \<Rightarrow> bytes \<Rightarrow> badgerItem list \<Rightarrow> deleteEntry list \<Rightarrow> int \<Rightarrow>
   dbError + (deleteEntry list \<times> int)" where
  "collect_loop D d cfg tip endKey [] toDelete newBase = Inr (toDelete, newBase)"
| "collect_loop D d cfg tip endKey (item # items) toDelete newBase =
     (let key = it_Key item in
      if compareKeys key endKey \<ge> 0 then Inr (toDelete, newBase)
      else
        let height = decodeInt64 (drop (length prefixHeight) key) in
        if cfg \<noteq> None \<and> ShouldKeep cfg height tip
        then collect_loop D d cfg tip endKey items toDelete (if height < newBase then height else newBase)
        else
          (case it_Value item of
             Inl e \<Rightarrow> Inl e
           | Inr hash \<Rightarrow>
               let blockKey = makeBlockKey hash;
                   dataSize = (case bg_Get D d blockKey of Inr b \<Rightarrow> it_ValueSize b | Inl _ \<Rightarrow> 0)
               in collect_loop D d cfg tip endKey items
                    (toDelete @ [\<lparr>de_heightKey = key, de_blockKey = blockKey, de_dataSize = dataSize\<rparr>]) newBase))"

text \<open>The deletes of one write batch; \<open>None\<close> when one is refused and the batch cancelled.\<close>

fun delete_keys :: "'d badgerdb \<Rightarrow> 'd \<Rightarrow> bytes list \<Rightarrow> deleteEntry list \<Rightarrow> bytes list option" where
  "delete_keys D d ks [] = Some ks"
| "delete_keys D d ks (entry # es) =
     (if bg_Delete D d ks (de_heightKey entry) \<noteq> None then None
      else if bg_Delete D d (ks @ [de_heightKey entry]) (de_blockKey entry) \<noteq> None then None
      else delete_keys D d (ks @ [de_heightKey entry, de_blockKey entry]) es)"

definition batchSize :: nat where
  "batchSize = 1000"

text \<open>The loop over the batches; the flag says whether it ran to the end.\<close>

function delete_batches :: "'d badgerdb \<Rightarrow> 'd \<Rightarrow> deleteEntry list \<Rightarrow> bool \<times> 'd" where
  "delete_batches D d es =
     (if es = [] then (True, d)
      else
        (case delete_keys D d [] (take batchSize es) of
           None \<Rightarrow> (False, d)
         | Some ks \<Rightarrow>
             (case bg_Flush D d ks of
                (Some e, d') \<Rightarrow> (False, d')
              | (None, d') \<Rightarrow> delete_batches D d' (drop batchSize es))))"
  by pat_completeness auto
termination by (relation "measure (\<lambda>(D, d, es). length es)") (auto simp: batchSize_def)

declare delete_batches.simps [simp del]

text \<open>What \<open>Prune\<close> does once it has collected the blocks to delete.\<close>

definition bdg_prune_finish ::
  "'d badgerdb \<Rightarrow> 'd badgerDBBlockStore \<Rightarrow> deleteEntry list \<Rightarrow> int \<Rightarrow> (error + pruneResult) \<times> 'd badgerDBBlockStore" where
  "bdg_prune_finish D s toDelete newBase =
     (case delete_batches D (bs_db s) toDelete of
        (False, d1) \<Rightarrow> (Inl (ErrOther ''deleting keys''), s\<lparr>bs_db := d1\<rparr>)
      | (True, d1) \<Rightarrow>
          let prunedCount = int (length toDelete); bytesFreed = i64 (sum_list (map de_dataSize toDelete)) in
          if newBase > bs_base s
          then (case bg_Update D d1 [(keyMetaBase, encodeInt64 newBase)] of
                  (Some e, d2) \<Rightarrow> (Inl (ErrOther ''updating base metadata''), s\<lparr>bs_db := d2\<rparr>)
                | (None, d2) \<Rightarrow>
                    (Inr \<lparr>PrunedCount = prunedCount, NewBase = newBase, BytesFreed = bytesFreed\<rparr>,
                     s\<lparr>bs_db := d2, bs_base := newBase\<rparr>))
          else (Inr \<lparr>PrunedCount = prunedCount, NewBase = bs_base s, BytesFreed = bytesFreed\<rparr>, s\<lparr>bs_db := d1\<rparr>))"

definition bdg_Prune ::
  "'d badgerdb \<Rightarrow> 'd badgerDBBlockStore \<Rightarrow> int \<Rightarrow> (error + pruneResult) \<times> 'd badgerDBBlockStore" where
  "bdg_Prune D s beforeHeight =
     (if beforeHeight \<le> 0 then (Inl ErrInvalidPruneHeight, s)
      else if beforeHeight > bs_height s then (Inl ErrPruneHeightTooHigh, s)
      else if bs_pruning s then (Inl ErrPruningInProgress, s)
      else if bs_base s \<ge> beforeHeight
      then (Inr \<lparr>PrunedCount = 0, NewBase = bs_base s, BytesFreed = 0\<rparr>, s)
      else
        (case bg_View D (bs_db s)
                (collect_loop D (bs_db s) (bs_pruneCfg s) (bs_height s) (makeHeightKey beforeHeight)
                   (dropWhile (\<lambda>i. compareKeys (it_Key i) (makeHeightKey (bs_base s)) < 0) (bg_Items D (bs_db s) prefixHeight))
                   [] beforeHeight) of
           Inl e \<Rightarrow> (Inl (ErrOther ''collecting blocks to prune''), s)
         | Inr (toDelete, newBase) \<Rightarrow> bdg_prune_finish D s toDelete newBase))"

definition bdg_PruneConfig :: "'d badgerDBBlockStore \<Rightarrow> pruneConfig option" where
  "bdg_PruneConfig s = bs_pruneCfg s"

definition bdg_SetPruneConfig :: "'d badgerDBBlockStore \<Rightarrow> pruneConfig option \<Rightarrow> 'd badgerDBBlockStore" where
  "bdg_SetPruneConfig s cfg = s\<lparr>bs_pruneCfg := cfg\<rparr>"

section \<open>Certificates and batches\<close>

definition bdg_SaveCertificate ::
  "'d badgerdb \<Rightarrow> ('c, 'b) looseTypes \<Rightarrow> 'd badgerDBBlockStore \<Rightarrow> 'c option \<Rightarrow> error option \<times> 'd badgerDBBlockStore" where
  "bdg_SaveCertificate D L s cert =
     (case cert of
        None \<Rightarrow> (Some (ErrOther ''cannot save nil certificate''), s)
      | Some c \<Rightarrow>
          (case key_exists D (bs_db s) (makeCertKey (cert_Digest L c)) of
             Inl e \<Rightarrow> (Some (ErrOther ''checking certificate existence''), s)
           | Inr True \<Rightarrow> (Some ErrCertificateAlreadyExists, s)
           | Inr False \<Rightarrow>
               (case marshal_cert L c of
                  Inl e \<Rightarrow> (Some e, s)
                | Inr data \<Rightarrow>
                    (case bg_Update D (bs_db s)
                            [(makeCertKey (cert_Digest L c), data),
                             (makeCertRoundKey (cert_Round L c) (cert_Author L c), cert_Digest L c)] of
                       (Some e, d) \<Rightarrow> (Some (ErrOther ''writing certificate''), s\<lparr>bs_db := d\<rparr>)
                     | (None, d) \<Rightarrow> (None, s\<lparr>bs_db := d\<rparr>)))))"

definition bdg_cert :: "'d badgerdb \<Rightarrow> ('c, 'b) looseTypes \<Rightarrow> 'd badgerDBBlockStore \<Rightarrow> bytes \<Rightarrow> error + 'c" where
  "bdg_cert D L s digest =
     (case read_value D (bs_db s) (makeCertKey digest) of
        Inl DbNotFound \<Rightarrow> Inl ErrCertificateNotFound
      | Inl (DbFailure e) \<Rightarrow> Inl (ErrOther e)
      | Inr val \<Rightarrow> unmarshal_cert L val)"

definition bdg_GetCertificate ::
  "'d badgerdb \<Rightarrow> ('c, 'b) looseTypes \<Rightarrow> 'd badgerDBBlockStore \<Rightarrow> bytes \<Rightarrow> error + 'c" where
  "bdg_GetCertificate D L s digest =
     (case bg_Unavailable D (bs_db s) of Some e \<Rightarrow> Inl (ErrOther ''badger'') | None \<Rightarrow> bdg_cert D L s digest)"

text \<open>A missing certificate is reported with the error of the database here.\<close>

fun bdg_collect_certs ::
  "'d badgerdb \<Rightarrow> ('c, 'b) looseTypes \<Rightarrow> 'd badgerDBBlockStore \<Rightarrow> badgerItem list \<Rightarrow> 'c list \<Rightarrow> error + 'c list" where
  "bdg_collect_certs D L s [] certs = Inr certs"
| "bdg_collect_certs D L s (item # items) certs =
     (case it_Value item of
        Inl e \<Rightarrow> Inl (ErrOther ''reading digest'')
      | Inr digest \<Rightarrow>
          (case read_value D (bs_db s) (makeCertKey digest) of
             Inl e \<Rightarrow> Inl (ErrOther ''loading certificate'')
           | Inr val \<Rightarrow>
               (case unmarshal_cert L val of
                  Inl e \<Rightarrow> Inl e
                | Inr cert \<Rightarrow> bdg_collect_certs D L s items (certs @ [cert]))))"

definition bdg_certs ::
  "'d badgerdb \<Rightarrow> ('c, 'b) looseTypes \<Rightarrow> (('c \<Rightarrow> 'c \<Rightarrow> bool) \<Rightarrow> 'c list \<Rightarrow> 'c list) \<Rightarrow> 'd badgerDBBlockStore \<Rightarrow> bytes \<Rightarrow>
   error + 'c list" where
  "bdg_certs D L srt s prfx =
     (case bg_Unavailable D (bs_db s) of
        Some e \<Rightarrow> Inl (ErrOther ''badger'')
      | None \<Rightarrow>
          (case bdg_collect_certs D L s (bg_Items D (bs_db s) prfx) [] of
             Inl e \<Rightarrow> Inl e
           | Inr certs \<Rightarrow> Inr (srt (\<lambda>a b. cert_Author L a < cert_Author L b) certs)))"

definition bdg_GetCertificatesForRound ::
  "'d badgerdb \<Rightarrow> ('c, 'b) looseTypes \<Rightarrow> (('c \<Rightarrow> 'c \<Rightarrow> bool) \<Rightarrow> 'c list \<Rightarrow> 'c list) \<Rightarrow> 'd badgerDBBlockStore \<Rightarrow> int \<Rightarrow>
   error + 'c list" where
  "bdg_GetCertificatesForRound D L srt s rnd = bdg_certs D L srt s (makeCertRoundPrefix rnd)"

definition bdg_GetCertificatesForHeight ::
  "'d badgerdb \<Rightarrow> ('c, 'b) looseTypes \<Rightarrow> (('c \<Rightarrow> 'c \<Rightarrow> bool) \<Rightarrow> 'c list \<Rightarrow> 'c list) \<Rightarrow> 'd badgerDBBlockStore \<Rightarrow> int \<Rightarrow>
   error + 'c list" where
  "bdg_GetCertificatesForHeight D L srt s height = bdg_certs D L srt s (makeCertHeightPrefix height)"

definition bdg_SetCertificateBlockHeight ::
  "'d badgerdb \<Rightarrow> ('c, 'b) looseTypes \<Rightarrow> 'd badgerDBBlockStore \<Rightarrow> bytes \<Rightarrow> int \<Rightarrow> error option \<times> 'd badgerDBBlockStore" where
  "bdg_SetCertificateBlockHeight D L s digest height =
     (case bg_Unavailable D (bs_db s) of
        Some e \<Rightarrow> (Some (ErrOther ''badger''), s)
      | None \<Rightarrow>
          (case bdg_cert D L s digest of
             Inl e \<Rightarrow> (Some e, s)
           | Inr cert \<Rightarrow>
               (case bg_Update D (bs_db s) [(makeCertHeightKey height (cert_Author L cert), digest)] of
                  (Some e, d) \<Rightarrow> (Some (ErrOther ''badger''), s\<lparr>bs_db := d\<rparr>)
                | (None, d) \<Rightarrow> (None, s\<lparr>bs_db := d\<rparr>))))"

definition bdg_SaveBatch ::
  "'d badgerdb \<Rightarrow> ('c, 'b) looseTypes \<Rightarrow> 'd badgerDBBlockStore \<Rightarrow> 'b option \<Rightarrow> error option \<times> 'd badgerDBBlockStore" where
  "bdg_SaveBatch D L s batch =
     (case batch of
        None \<Rightarrow> (Some (ErrOther ''cannot save nil batch''), s)
      | Some b \<Rightarrow>
          (case key_exists D (bs_db s) (makeBatchKey (batch_Digest L b)) of
             Inl e \<Rightarrow> (Some (ErrOther ''checking batch existence''), s)
           | Inr True \<Rightarrow> (Some ErrBatchAlreadyExists, s)
           | Inr False \<Rightarrow>
               (case marshal_batch L b of
                  Inl e \<Rightarrow> (Some e, s)
                | Inr data \<Rightarrow>
                    (case bg_Update D (bs_db s) [(makeBatchKey (batch_Digest L b), data)] of
                       (Some e, d) \<Rightarrow> (Some (ErrOther ''badger''), s\<lparr>bs_db := d\<rparr>)
                     | (None, d) \<Rightarrow> (None, s\<lparr>bs_db := d\<rparr>)))))"

definition bdg_GetBatch ::
  "'d badgerdb \<Rightarrow> ('c, 'b) looseTypes \<Rightarrow> 'd badgerDBBlockStore \<Rightarrow> bytes \<Rightarrow> error + 'b" where
  "bdg_GetBatch D L s digest =
     (case bg_Unavailable D (bs_db s) of
        Some e \<Rightarrow> Inl (ErrOther ''badger'')
      | None \<Rightarrow>
          (case read_value D (bs_db s) (makeBatchKey digest) of
             Inl DbNotFound \<Rightarrow> Inl ErrBatchNotFound
           | Inl (DbFailure e) \<Rightarrow> Inl (ErrOther e)
           | Inr val \<Rightarrow> unmarshal_batch L val))"

section \<open>The block iterator\<close>

text \<open>\<open>BadgerDBIterator\<close> runs over the items of the height prefix; the state is what is left of them.\<close>

record badgerDBIterator =
  bi_rest :: "badgerItem list"

definition NewBlockIterator :: "'d badgerdb \<Rightarrow> 'd badgerDBBlockStore \<Rightarrow> badgerDBIterator" where
  "NewBlockIterator D s = \<lparr>bi_rest = bg_Items D (bs_db s) prefixHeight\<rparr>"

definition it_Valid :: "badgerDBIterator \<Rightarrow> bool" where
  "it_Valid i \<longleftrightarrow> bi_rest i \<noteq> []"

definition it_Next :: "badgerDBIterator \<Rightarrow> badgerDBIterator" where
  "it_Next i = i\<lparr>bi_rest := tl (bi_rest i)\<rparr>"

definition it_Height :: "badgerDBIterator \<Rightarrow> int" where
  "it_Height i = (case bi_rest i of [] \<Rightarrow> 0 | item # _ \<Rightarrow> decodeInt64 (drop (length prefixHeight) (it_Key item)))"

definition it_Hash :: "badgerDBIterator \<Rightarrow> slice" where
  "it_Hash i =
     (case bi_rest i of
        [] \<Rightarrow> None
      | item # _ \<Rightarrow> (case it_Value item of Inl e \<Rightarrow> None | Inr hash \<Rightarrow> Some hash))"

section \<open>Reads and writes of the database\<close>

lemma read_value_Inr:
  assumes "badger_laws D content" "read_value D d k = Inr v"
  shows "fmlookup (content d) k = Some v"
  using assms(2) bg_Get_Inr [OF assms(1), of d k]
  by (auto simp: read_value_def item_of_def split: sum.splits)

lemma read_value_NotFound:
  assumes "badger_laws D content" "read_value D d k = Inl DbNotFound"
  shows "fmlookup (content d) k = None"
  using assms(2) bg_Get_NotFound [OF assms(1), of d k] by (auto simp: read_value_def split: sum.splits)

lemma key_exists_Inr:
  assumes "badger_laws D content" "key_exists D d k = Inr x"
  shows "x = (fmlookup (content d) k \<noteq> None)"
  using assms(2) bg_Get_Inr [OF assms(1), of d k] bg_Get_NotFound [OF assms(1), of d k]
  by (auto simp: key_exists_def bg_View_def item_of_def split: sum.splits option.splits dbError.splits)

lemma set_keys_Inr: "set_keys D d pend kvs = Inr ws \<Longrightarrow> ws = pend @ kvs"
  by (induction D d pend kvs rule: set_keys.induct) (auto split: option.splits)

lemma bg_Update_content:
  assumes D: "badger_laws D content" and r: "bg_Update D d kvs = (e, d')"
  shows "content d' = (case e of None \<Rightarrow> put_all kvs (content d) | Some _ \<Rightarrow> content d)"
proof (cases "bg_Unavailable D d")
  case None
  show ?thesis
  proof (cases "set_keys D d [] kvs")
    case (Inr ws)
    then have "ws = kvs" using set_keys_Inr [OF Inr] by simp
    then show ?thesis
      using r None Inr bg_Commit_None [OF D, of d kvs d'] bg_Commit_Some [OF D, of d kvs _ d']
      by (cases e) (auto simp: bg_Update_def)
  qed (use r None in \<open>auto simp: bg_Update_def\<close>)
next
  case (Some a)
  then have "e = Some a" "d' = d" using r by (simp_all add: bg_Update_def)
  then show ?thesis by simp
qed

lemma put_all_save:
  "put_all ([(makeHeightKey h, hash), (makeBlockKey hash, makeBlockValue h data)] @
     (if h > height then [(keyMetaHeight, encodeInt64 h)] else []) @
     (if base = 0 \<or> h < base then [(keyMetaBase, encodeInt64 h)] else [])) c
   = put_block c height base h hash data"
  by (simp add: put_all_def put_block_def Let_def)

section \<open>Invariant and abstraction\<close>

definition bdg_inv :: "('d \<Rightarrow> kvmap) \<Rightarrow> 'd badgerDBBlockStore \<Rightarrow> bool" where
  "bdg_inv content s \<longleftrightarrow> store_ok (content (bs_db s)) (bs_height s) (bs_base s) \<and> \<not> bs_pruning s"

definition bdg_abs :: "('d \<Rightarrow> kvmap) \<Rightarrow> 'd badgerDBBlockStore \<Rightarrow> blockSpec" where
  "bdg_abs content s = kv_abs (content (bs_db s)) (bs_height s) (bs_base s) (bs_pruneCfg s)"

lemma bdg_save_step:
  assumes D: "badger_laws D content" and inv: "bdg_inv content s" and h: "height_range h"
    and fresh: "\<And>x d. block_at (content (bs_db s)) x = Some (hash, d) \<Longrightarrow> x = h"
    and r: "bdg_SaveBlock D s h hash data = (err, s')"
  shows "bdg_inv content s' \<and> spec_step (bdg_abs content s) (OpSave h hash data) (err = None) (bdg_abs content s')"
proof -
  have ok: "store_ok (content (bs_db s)) (bs_height s) (bs_base s)" using inv by (simp add: bdg_inv_def)
  show ?thesis
  proof (cases "key_exists D (bs_db s) (makeHeightKey h) = Inr False")
    case False
    then have "err \<noteq> None" "s' = s" using r by (auto simp: bdg_SaveBlock_def split: sum.splits bool.splits)
    then show ?thesis using inv by (auto simp: spec_step.not_saved)
  next
    case True
    then have new: "fmlookup (content (bs_db s)) (makeHeightKey h) = None" using key_exists_Inr [OF D True] by simp
    let ?kvs = "[(makeHeightKey h, hash), (makeBlockKey hash, makeBlockValue h data)] @
       (if h > bs_height s then [(keyMetaHeight, encodeInt64 h)] else []) @
       (if bs_base s = 0 \<or> h < bs_base s then [(keyMetaBase, encodeInt64 h)] else [])"
    obtain e d where u: "bg_Update D (bs_db s) ?kvs = (e, d)" by (meson surj_pair)
    note c = bg_Update_content [OF D u, unfolded put_all_save]
    note def = r [unfolded bdg_SaveBlock_def True sum.case bool.case u prod.case]
    show ?thesis
    proof (cases e)
      case None
      then have "err = None" "s' = s\<lparr>bs_db := d, bs_height := (if h > bs_height s then h else bs_height s),
          bs_base := (if bs_base s = 0 \<or> h < bs_base s then h else bs_base s)\<rparr>" using def by auto
      then show ?thesis
        using kv_saved [where data = data and cfg = "bs_pruneCfg s" and hash = hash, OF ok h new] fresh c None inv
        by (simp add: bdg_inv_def bdg_abs_def)
    next
      case (Some x)
      then have "err \<noteq> None" "s' = s\<lparr>bs_db := d\<rparr>" using def by auto
      then show ?thesis using c Some inv spec_step.not_saved [of "bdg_abs content s" h hash data] by (auto simp: bdg_inv_def bdg_abs_def)
    qed
  qed
qed

section \<open>Pruning\<close>

definition item_pairs :: "kvmap \<Rightarrow> badgerItem list \<Rightarrow> (int \<times> bytes) list" where
  "item_pairs c is = map (\<lambda>i. (decodeInt64 (drop (length prefixHeight) (it_Key i)), the (fmlookup c (it_Key i)))) is"

definition height_items :: "kvmap \<Rightarrow> badgerItem list \<Rightarrow> bool" where
  "height_items c is \<longleftrightarrow> (\<forall>i \<in> set is. item_of c i \<and> (\<exists>h. it_Key i = makeHeightKey h \<and> height_range h))"

definition entry_keys :: "deleteEntry list \<Rightarrow> bytes list" where
  "entry_keys es = concat (map (\<lambda>e. [de_heightKey e, de_blockKey e]) es)"

lemma collect_takeWhile:
  "collect_loop D d cfg tip endKey (takeWhile (\<lambda>i. compareKeys (it_Key i) endKey < 0) is) td nb =
   collect_loop D d cfg tip endKey is td nb"
proof (induction "is" arbitrary: td nb)
  case (Cons i "is")
  then show ?case
    by (cases "compareKeys (it_Key i) endKey < 0"; cases "it_Value i"; cases "cfg \<noteq> None") (simp_all add: Let_def)
qed simp

lemma collect_spec:
  assumes "height_items c is" "\<forall>i \<in> set is. compareKeys (it_Key i) endKey < 0"
    and "collect_loop D d cfg tip endKey is td nb = Inr (td', nb')"
  shows "\<exists>es. td' = td @ es \<and> length es = length (victims cfg tip (item_pairs c is)) \<and>
    map (\<lambda>e. (de_heightKey e, de_blockKey e)) es =
      map (\<lambda>(h, hash). (makeHeightKey h, makeBlockKey hash)) (victims cfg tip (item_pairs c is)) \<and>
    nb' = lowest_kept cfg tip (item_pairs c is) nb"
  using assms
proof (induction "is" arbitrary: td nb)
  case Nil
  then show ?case by (simp add: item_pairs_def victims_def lowest_kept_def)
next
  case (Cons i "is")
  obtain h v where i: "it_Key i = makeHeightKey h" "height_range h" "fmlookup c (makeHeightKey h) = Some v"
      "\<And>w. it_Value i = Inr w \<Longrightarrow> w = v"
    using Cons.prems(1) unfolding height_items_def item_of_def by fastforce
  have dec: "decodeInt64 (drop (length prefixHeight) (makeHeightKey h)) = h"
    using decode_height_key height_in_i64 i(2) by blast
  have pairs: "item_pairs c (i # is) = (h, v) # item_pairs c is" by (simp add: item_pairs_def i(1,3) dec)
  have prems: "height_items c is" "\<forall>i \<in> set is. compareKeys (it_Key i) endKey < 0" using Cons.prems by (simp_all add: height_items_def)
  have lt: "\<not> compareKeys (it_Key i) endKey \<ge> 0" using Cons.prems(2) by simp
  show ?case
  proof (cases "cfg \<noteq> None \<and> ShouldKeep cfg h tip")
    case True
    have "victims cfg tip (item_pairs c (i # is)) = victims cfg tip (item_pairs c is)"
      "lowest_kept cfg tip (item_pairs c (i # is)) nb = lowest_kept cfg tip (item_pairs c is) (if h < nb then h else nb)"
      using True by (simp_all add: pairs victims_def lowest_kept_def)
    moreover have "collect_loop D d cfg tip endKey is td (if h < nb then h else nb) = Inr (td', nb')"
      using Cons.prems(3) True lt by (simp add: Let_def i(1) dec)
    ultimately show ?thesis using Cons.IH [OF prems] by simp
  next
    case False
    have v: "victims cfg tip (item_pairs c (i # is)) = (h, v) # victims cfg tip (item_pairs c is)"
      "lowest_kept cfg tip (item_pairs c (i # is)) nb = lowest_kept cfg tip (item_pairs c is) nb"
      using False by (auto simp: pairs victims_def lowest_kept_def)
    obtain w where w: "it_Value i = Inr w"
      using Cons.prems(3) False lt by (cases "it_Value i") (auto simp: Let_def i(1) dec)
    define x where "x = \<lparr>de_heightKey = makeHeightKey h, de_blockKey = makeBlockKey w,
      de_dataSize = (case bg_Get D d (makeBlockKey w) of Inr b \<Rightarrow> it_ValueSize b | Inl _ \<Rightarrow> 0)\<rparr>"
    have "collect_loop D d cfg tip endKey (i # is) td nb = collect_loop D d cfg tip endKey is (td @ [x]) nb"
      by (simp only: collect_loop.simps Let_def lt [unfolded i(1)] if_False i(1) dec False w sum.case x_def)
    then have "collect_loop D d cfg tip endKey is (td @ [x]) nb = Inr (td', nb')" using Cons.prems(3) by simp
    then obtain es where "td' = (td @ [x]) @ es" "length es = length (victims cfg tip (item_pairs c is))"
        "map (\<lambda>e. (de_heightKey e, de_blockKey e)) es =
          map (\<lambda>(h, hash). (makeHeightKey h, makeBlockKey hash)) (victims cfg tip (item_pairs c is))"
        "nb' = lowest_kept cfg tip (item_pairs c is) nb"
      using Cons.IH [OF prems] by blast
    then show ?thesis using i(4) [OF w] by (intro exI [of _ "x # es"]) (simp add: v x_def)
  qed
qed

lemma entry_keys_victims:
  "map (\<lambda>e. (de_heightKey e, de_blockKey e)) es = map (\<lambda>(h, hash). (makeHeightKey h, makeBlockKey hash)) vs \<Longrightarrow>
   entry_keys es = block_keys vs"
proof (induction es arbitrary: vs)
  case (Cons e es)
  then obtain v vs' where "vs = v # vs'" by (cases vs) auto
  then show ?case using Cons by (cases v) (simp add: entry_keys_def block_keys_def)
qed (simp add: entry_keys_def block_keys_def)

lemma delete_keys_Some: "delete_keys D d ks es = Some ks' \<Longrightarrow> ks' = ks @ entry_keys es"
  by (induction D d ks es rule: delete_keys.induct) (auto simp: entry_keys_def split: if_splits)

lemma length_entry_keys [simp]: "length (entry_keys es) = 2 * length es"
  by (induction es) (simp_all add: entry_keys_def)

lemma entry_keys_split: "entry_keys es = entry_keys (take n es) @ entry_keys (drop n es)"
  unfolding entry_keys_def by (metis append_take_drop_id concat_append map_append)

text \<open>The batches delete the entries from the front; after a failure some are left.\<close>

lemma delete_batches_content:
  "badger_laws D content \<Longrightarrow> delete_batches D d es = (fin, d') \<Longrightarrow>
    \<exists>n. content d' = drop_keys (entry_keys (take n es)) (content d) \<and> (fin \<longrightarrow> n \<ge> length es)"
proof (induction D d es rule: delete_batches.induct)
  case (1 D d es)
  note laws = "1.prems"(1)
  have keep: "\<exists>n. content d = drop_keys (entry_keys (take n es)) (content d) \<and> (fin \<longrightarrow> n \<ge> length es)"
    if "fin \<longrightarrow> es = []" using that by (intro exI [of _ 0]) (auto simp: entry_keys_def)
  show ?case
  proof (cases "es = []")
    case True
    then show ?thesis using "1.prems" keep by (simp add: delete_batches.simps [of D d "[]"])
  next
    case ne: False
    show ?thesis
    proof (cases "delete_keys D d [] (take batchSize es)")
      case None
      then show ?thesis using "1.prems" keep ne by (simp add: delete_batches.simps [of D d es])
    next
      case (Some ks)
      then have ks: "ks = entry_keys (take batchSize es)" using delete_keys_Some [OF Some] by simp
      obtain e d1 where fl: "bg_Flush D d ks = (e, d1)" by (meson surj_pair)
      show ?thesis
      proof (cases e)
        case e: (Some x)
        have "content d1 = content d"
          using fl e ks by (intro bg_Flush_Some [OF laws, of ks]) (simp_all add: batchSize_def)
        moreover have "d' = d1" "\<not> fin" using "1.prems"(2) ne Some fl e by (simp_all add: delete_batches.simps [of D d es])
        ultimately show ?thesis using keep by simp
      next
        case e: None
        have "delete_batches D d1 (drop batchSize es) = (fin, d')"
          using "1.prems"(2) ne Some fl e by (simp add: delete_batches.simps [of D d es])
        then obtain n where n: "content d' = drop_keys (entry_keys (take n (drop batchSize es))) (content d1)"
            "fin \<longrightarrow> n \<ge> length (drop batchSize es)"
          using "1.IH" [OF ne Some fl [symmetric] e laws] by blast
        have "content d1 = drop_keys (entry_keys (take batchSize es)) (content d)"
          using bg_Flush_None [OF laws] fl e ks by simp
        moreover have "take (batchSize + n) es = take batchSize es @ take n (drop batchSize es)" by (rule take_add)
        ultimately show ?thesis
          using n by (intro exI [of _ "batchSize + n"]) (auto simp: entry_keys_def)
      qed
    qed
  qed
qed

text \<open>On a sorted list, skipping to a key and stopping at a key select the keys in between.\<close>

lemma takeWhile_sorted:
  "sorted_wrt R xs \<Longrightarrow> (\<And>x y. R x y \<Longrightarrow> P y \<Longrightarrow> P x) \<Longrightarrow> takeWhile P xs = filter P xs"
proof (induction xs)
  case (Cons x xs)
  have "filter P xs = []" if "\<not> P x" using Cons.prems that by (auto simp: filter_empty_conv)
  then show ?case using Cons by simp
qed simp

lemma dropWhile_sorted:
  "sorted_wrt R xs \<Longrightarrow> (\<And>x y. R x y \<Longrightarrow> P y \<Longrightarrow> P x) \<Longrightarrow> dropWhile P xs = filter (\<lambda>x. \<not> P x) xs"
proof (induction xs)
  case (Cons x xs)
  have "filter (\<lambda>x. \<not> P x) xs = xs" if "\<not> P x" using Cons.prems that by (auto simp: filter_id_conv)
  then show ?case using Cons by simp
qed simp

definition visited :: "'d badgerdb \<Rightarrow> 'd \<Rightarrow> int \<Rightarrow> int \<Rightarrow> badgerItem list" where
  "visited D d base b =
     takeWhile (\<lambda>i. compareKeys (it_Key i) (makeHeightKey b) < 0)
       (dropWhile (\<lambda>i. compareKeys (it_Key i) (makeHeightKey base) < 0) (bg_Items D d prefixHeight))"

lemma visited_filter:
  assumes "badger_laws D content"
  shows "visited D d base b = filter (\<lambda>i. \<not> compareKeys (it_Key i) (makeHeightKey base) < 0 \<and>
    compareKeys (it_Key i) (makeHeightKey b) < 0) (bg_Items D d prefixHeight)"
proof -
  let ?I = "bg_Items D d prefixHeight"
  note sorted = bg_Items_sorted [OF assms, of d prefixHeight]
  have "dropWhile (\<lambda>i. compareKeys (it_Key i) (makeHeightKey base) < 0) ?I =
      filter (\<lambda>i. \<not> compareKeys (it_Key i) (makeHeightKey base) < 0) ?I"
    by (rule dropWhile_sorted [OF sorted]) (auto simp: compareKeys_lex)
  moreover have "takeWhile (\<lambda>i. compareKeys (it_Key i) (makeHeightKey b) < 0) (filter P ?I) =
      filter (\<lambda>i. compareKeys (it_Key i) (makeHeightKey b) < 0) (filter P ?I)" for P
    by (rule takeWhile_sorted [OF sorted_wrt_filter [OF sorted]]) (auto simp: compareKeys_lex)
  ultimately show ?thesis by (simp add: visited_def conj_commute)
qed

lemma visited_items:
  assumes D: "badger_laws D content" and ok: "store_ok (content d) height base" and b: "0 < b" "b < 2 ^ 63"
  shows "height_items (content d) (visited D d base b)"
    and "range_pairs (content d) base b True (item_pairs (content d) (visited D d base b))"
proof -
  let ?c = "content d" and ?V = "visited D d base b"
  have base: "0 \<le> base" "base < 2 ^ 63" using ok by (simp_all add: store_ok_def)
  have item: "\<exists>h v. it_Key i = makeHeightKey h \<and> height_range h \<and> base \<le> h \<and> h < b \<and> fmlookup ?c (makeHeightKey h) = Some v \<and>
      item_of ?c i" if i: "i \<in> set ?V" for i
  proof -
    have io: "item_of ?c i" "take (length prefixHeight) (it_Key i) = prefixHeight"
      using bg_Items_sound [OF D, of i d prefixHeight] i by (auto simp: visited_filter [OF D])
    then obtain v where v: "fmlookup ?c (it_Key i) = Some v" by (auto simp: item_of_def)
    have "take 2 (it_Key i) = prefixHeight" using io(2) by (simp add: prefix_defs numeral_2_eq_2)
    then obtain h where h: "it_Key i = makeHeightKey h" "0 < h" "h \<le> height" using ok v unfolding store_ok_def by blast
    have "height_range h" using h ok by (simp add: store_ok_def height_range_def)
    moreover have "base \<le> h" "h < b"
      using i h compare_height_keys [of h base] compare_height_keys [of h b] base b \<open>height_range h\<close>
      by (auto simp: visited_filter [OF D] height_range_def sgn_if split: if_splits)
    ultimately show ?thesis using h(1) v io(1) by auto
  qed
  then show "height_items ?c ?V" unfolding height_items_def by blast
  have pairs: "(h, hash) \<in> set (item_pairs ?c ?V) \<longleftrightarrow>
      height_range h \<and> fmlookup ?c (makeHeightKey h) = Some hash \<and> base \<le> h \<and> h < b" for h hash
  proof
    assume "(h, hash) \<in> set (item_pairs ?c ?V)"
    then obtain i where i: "i \<in> set ?V" "h = decodeInt64 (drop (length prefixHeight) (it_Key i))" "hash = the (fmlookup ?c (it_Key i))"
      by (auto simp: item_pairs_def)
    obtain x v where x: "it_Key i = makeHeightKey x" "height_range x" "base \<le> x" "x < b" "fmlookup ?c (makeHeightKey x) = Some v"
      using item [OF i(1)] by blast
    then show "height_range h \<and> fmlookup ?c (makeHeightKey h) = Some hash \<and> base \<le> h \<and> h < b"
      using i(2,3) decode_height_key [OF height_in_i64] by simp
  next
    assume h: "height_range h \<and> fmlookup ?c (makeHeightKey h) = Some hash \<and> base \<le> h \<and> h < b"
    then have "makeHeightKey h \<in> it_Key ` set (bg_Items D d prefixHeight)"
      by (intro bg_Items_complete [OF D]) (auto simp: makeHeightKey_def)
    then obtain i where i: "i \<in> set (bg_Items D d prefixHeight)" "it_Key i = makeHeightKey h" by auto
    then have "i \<in> set ?V"
      using h base b compare_height_keys [of h base] compare_height_keys [of h b]
      by (auto simp: visited_filter [OF D] height_range_def sgn_if)
    then show "(h, hash) \<in> set (item_pairs ?c ?V)"
      using i(2) h decode_height_key [OF height_in_i64, of h] by (force simp: item_pairs_def)
  qed
  show "range_pairs ?c base b True (item_pairs ?c ?V)"
    unfolding range_pairs_def stored_pairs_def using pairs by auto
qed

lemma bdg_finish_step:
  assumes D: "badger_laws D content" and inv: "bdg_inv content s"
    and run: "0 < b" "b \<le> bs_height s" "bs_base s < b" and ps: "range_pairs (content (bs_db s)) (bs_base s) b True ps"
    and td: "map (\<lambda>e. (de_heightKey e, de_blockKey e)) td =
        map (\<lambda>(h, hash). (makeHeightKey h, makeBlockKey hash)) (victims (bs_pruneCfg s) (bs_height s) ps)"
    and nb: "nb = lowest_kept (bs_pruneCfg s) (bs_height s) ps b"
    and r: "bdg_prune_finish D s td nb = (r, s')"
  shows "bdg_inv content s' \<and> spec_step (bdg_abs content s) (OpPrune b) (\<not> isl r) (bdg_abs content s')"
proof -
  let ?c = "content (bs_db s)" and ?vs = "victims (bs_pruneCfg s) (bs_height s) ps"
  have ok: "store_ok ?c (bs_height s) (bs_base s)" and idle: "\<not> bs_pruning s" using inv by (simp_all add: bdg_inv_def)
  obtain fin d1 where del: "delete_batches D (bs_db s) td = (fin, d1)" by (meson surj_pair)
  obtain n where n: "content d1 = drop_keys (entry_keys (take n td)) ?c" "fin \<longrightarrow> n \<ge> length td"
    using delete_batches_content [OF D del] by blast
  have cut: "entry_keys (take n td) = block_keys (take n ?vs)"
    using arg_cong [OF td, of "take n"] unfolding take_map by (rule entry_keys_victims)
  have weak: "range_pairs ?c (bs_base s) b False ps" using ps by (simp add: range_pairs_def)
  have partly: "bdg_inv content (s\<lparr>bs_db := d\<rparr>) \<and>
      spec_step (bdg_abs content s) (OpPrune b) False (bdg_abs content (s\<lparr>bs_db := d\<rparr>))" if "content d = content d1" for d
    using kv_pruned_partly [OF ok weak set_take_subset, of n "bs_pruneCfg s"] that n(1) cut idle
    by (simp add: bdg_inv_def bdg_abs_def)
  show ?thesis
  proof (cases fin)
    case False
    then have "r = Inl (ErrOther ''deleting keys'')" "s' = s\<lparr>bs_db := d1\<rparr>" using r del by (simp_all add: bdg_prune_finish_def)
    then show ?thesis using partly [of d1] by simp
  next
    case True
    have "length td = length ?vs" using arg_cong [OF td, of length] by simp
    then have c1: "content d1 = drop_keys (block_keys ?vs) ?c" using n True cut by simp
    note whole = kv_pruned [OF ok run ps, of "bs_pruneCfg s", folded nb c1]
    have fin: "fin = True" using True by simp
    note def = r [unfolded bdg_prune_finish_def del fin prod.case bool.case Let_def]
    show ?thesis
    proof (cases "nb > bs_base s")
      case False
      then have "\<not> isl r" "s' = s\<lparr>bs_db := d1\<rparr>" using def by auto
      then show ?thesis using whole idle False by (simp add: bdg_inv_def bdg_abs_def)
    next
      case up: True
      obtain e d2 where u: "bg_Update D d1 [(keyMetaBase, encodeInt64 nb)] = (e, d2)" by (meson surj_pair)
      note c2 = bg_Update_content [OF D u]
      show ?thesis
      proof (cases e)
        case None
        then have "\<not> isl r" "s' = s\<lparr>bs_db := d2, bs_base := nb\<rparr>" using def up u by auto
        then show ?thesis using whole idle up c2 None by (simp add: bdg_inv_def bdg_abs_def put_all_def)
      next
        case (Some x)
        then have "isl r" "s' = s\<lparr>bs_db := d2\<rparr>" using def up u by auto
        then show ?thesis using partly [of d2] c2 Some by simp
      qed
    qed
  qed
qed

lemma bdg_prune_step:
  assumes D: "badger_laws D content" and inv: "bdg_inv content s" and r: "bdg_Prune D s b = (r, s')"
  shows "bdg_inv content s' \<and> spec_step (bdg_abs content s) (OpPrune b) (\<not> isl r) (bdg_abs content s')"
proof -
  let ?c = "content (bs_db s)" and ?cfg = "bs_pruneCfg s" and ?tip = "bs_height s" and ?base = "bs_base s"
  have ok: "store_ok ?c ?tip ?base" and idle: "\<not> bs_pruning s" using inv by (simp_all add: bdg_inv_def)
  have same: "bdg_inv content s \<and> spec_step (bdg_abs content s) (OpPrune b) False (bdg_abs content s)"
    using inv spec_step.not_pruned [of "sp_blocks (bdg_abs content s)" "bdg_abs content s" b] by simp
  consider (refused) "isl r" "s' = s" | (settled) "\<not> isl r" "s' = s" "0 < b" "b \<le> ?tip" "?base \<ge> b"
    | (run) "0 < b" "b \<le> ?tip" "?base < b"
    using r idle unfolding bdg_Prune_def by (cases "b \<le> 0"; cases "b > ?tip"; cases "?base \<ge> b") auto
  then show ?thesis
  proof cases
    case refused
    then show ?thesis using same by simp
  next
    case settled
    then show ?thesis using inv kv_settled [OF ok settled(3-5)] by (simp add: bdg_abs_def)
  next
    case run
    have b: "0 < b" "b < 2 ^ 63" using run ok by (simp_all add: store_ok_def)
    let ?V = "visited D (bs_db s) ?base b"
    let ?loop = "collect_loop D (bs_db s) ?cfg ?tip (makeHeightKey b) ?V [] b"
    note items = visited_items [OF D ok b]
    have def: "(r, s') = (case bg_View D (bs_db s) ?loop of
        Inl e \<Rightarrow> (Inl (ErrOther ''collecting blocks to prune''), s)
      | Inr (toDelete, newBase) \<Rightarrow> bdg_prune_finish D s toDelete newBase)"
      using run idle r unfolding bdg_Prune_def visited_def collect_takeWhile by simp
    show ?thesis
    proof (cases "bg_View D (bs_db s) ?loop")
      case (Inl e)
      then have "isl r" "s' = s" using def by auto
      then show ?thesis using same by simp
    next
      case (Inr q)
      obtain td nb where q: "q = (td, nb)" by (cases q)
      have loop: "?loop = Inr (td, nb)" using Inr q by (simp add: bg_View_def split: option.splits)
      have below: "\<forall>i \<in> set ?V. compareKeys (it_Key i) (makeHeightKey b) < 0" by (simp add: visited_filter [OF D])
      have fin: "bdg_prune_finish D s td nb = (r, s')" using def Inr q by simp
      show ?thesis
        using collect_spec [OF items(1) below loop] bdg_finish_step [OF D inv run items(2) _ _ fin] by auto
    qed
  qed
qed

section \<open>Opening and the operations on certificates\<close>

lemma read_meta_value:
  assumes D: "badger_laws D content" and m: "fmlookup (content d) k = (if v = 0 then None else Some (encodeInt64 v))" "in_i64 v"
    and r: "read_meta D d k = Inr x"
  shows "(case x of None \<Rightarrow> 0 | Some w \<Rightarrow> w) = v"
proof (cases "bg_Get D d k")
  case (Inl e)
  then show ?thesis using r m bg_Get_NotFound [OF D, of d k] by (cases e) (auto simp: read_meta_def split: if_splits)
next
  case (Inr i)
  then obtain w where w: "it_Value i = Inr w" "x = Some (decodeInt64 w)" using r by (auto simp: read_meta_def split: sum.splits)
  have "fmlookup (content d) k = Some w" using bg_Get_Inr [OF D Inr] w(1) by (auto simp: item_of_def)
  then show ?thesis using m w(2) by (auto split: if_splits)
qed

lemma bdg_open_step:
  assumes D: "badger_laws D content" and ok: "store_ok (content d) height base"
    and r: "NewBadgerDBBlockStoreWithOptions D (Inr d) = Inr s'"
  shows "s' = \<lparr>bs_db = d, bs_height = height, bs_base = base, bs_pruneCfg = None, bs_pruning = False\<rparr>"
proof -
  have b: "in_i64 height" "in_i64 base" and m: "fmlookup (content d) keyMetaHeight = (if height = 0 then None else Some (encodeInt64 height))"
    "fmlookup (content d) keyMetaBase = (if base = 0 then None else Some (encodeInt64 base))"
    using ok by (simp_all add: store_ok_def in_i64_def)
  obtain h x where hx: "read_meta D d keyMetaHeight = Inr h" "read_meta D d keyMetaBase = Inr x"
    "s' = \<lparr>bs_db = d, bs_height = (case h of None \<Rightarrow> 0 | Some v \<Rightarrow> v), bs_base = (case x of None \<Rightarrow> 0 | Some v \<Rightarrow> v),
      bs_pruneCfg = None, bs_pruning = False\<rparr>"
    using r by (auto simp: NewBadgerDBBlockStoreWithOptions_def bdg_loadMetadata_def bg_View_def Let_def
        split: sum.splits option.splits)
  then show ?thesis
    using read_meta_value [OF D m(1) b(1) hx(1)] read_meta_value [OF D m(2) b(2) hx(2)] by simp
qed

definition bdg_unrelated :: "('d \<Rightarrow> kvmap) \<Rightarrow> 'd badgerDBBlockStore \<Rightarrow> 'd badgerDBBlockStore \<Rightarrow> bool" where
  "bdg_unrelated content s s' \<longleftrightarrow> (bdg_inv content s \<longrightarrow> bdg_inv content s') \<and> bdg_abs content s' = bdg_abs content s"

lemma put_all_other:
  assumes "\<forall>(k, v) \<in> set kvs. other_key k"
  shows "(store_ok (put_all kvs c) height base \<longleftrightarrow> store_ok c height base) \<and> block_at (put_all kvs c) = block_at c"
  using assms by (induction kvs arbitrary: c) (auto simp: put_all_def put_other_ok)

lemma update_unrelated:
  assumes D: "badger_laws D content" and o: "\<forall>(k, v) \<in> set kvs. other_key k" and r: "bg_Update D (bs_db s) kvs = (e, d)"
  shows "bdg_unrelated content s (s\<lparr>bs_db := d\<rparr>)"
  using bg_Update_content [OF D r] put_all_other [OF o, of "content (bs_db s)"]
  by (cases e) (simp_all add: bdg_unrelated_def bdg_inv_def bdg_abs_def kv_abs_def)

lemma unrelated_cases:
  assumes D: "badger_laws D content"
    and "s' = s \<or> (\<exists>kvs e d. (\<forall>(k, v) \<in> set kvs. other_key k) \<and> bg_Update D (bs_db s) kvs = (e, d) \<and> s' = s\<lparr>bs_db := d\<rparr>)"
  shows "bdg_unrelated content s s'"
  using assms(2) update_unrelated [OF D] by (auto simp: bdg_unrelated_def)

lemma bdg_SaveCertificate_unrelated:
  assumes D: "badger_laws D content" and r: "bdg_SaveCertificate D L s cert = (e, s')"
  shows "bdg_unrelated content s s'"
proof (rule unrelated_cases [OF D], cases cert)
  case (Some c)
  let ?kvs = "\<lambda>data. [(makeCertKey (cert_Digest L c), data), (makeCertRoundKey (cert_Round L c) (cert_Author L c), cert_Digest L c)]"
  have "s' = s \<or> (\<exists>data e d. bg_Update D (bs_db s) (?kvs data) = (e, d) \<and> s' = s\<lparr>bs_db := d\<rparr>)"
    using r Some by (auto simp: bdg_SaveCertificate_def split: sum.splits bool.splits prod.splits option.splits)
  moreover have "\<forall>(k, v) \<in> set (?kvs data). other_key k" for data by simp
  ultimately show "s' = s \<or> (\<exists>kvs e d. (\<forall>(k, v) \<in> set kvs. other_key k) \<and> bg_Update D (bs_db s) kvs = (e, d) \<and> s' = s\<lparr>bs_db := d\<rparr>)"
    by blast
qed (use r in \<open>auto simp: bdg_SaveCertificate_def\<close>)

lemma bdg_SetCertificateBlockHeight_unrelated:
  assumes D: "badger_laws D content" and r: "bdg_SetCertificateBlockHeight D L s digest h = (e, s')"
  shows "bdg_unrelated content s s'"
proof (rule unrelated_cases [OF D])
  let ?kvs = "\<lambda>c. [(makeCertHeightKey h (cert_Author L c), digest)]"
  have "s' = s \<or> (\<exists>c e d. bg_Update D (bs_db s) (?kvs c) = (e, d) \<and> s' = s\<lparr>bs_db := d\<rparr>)"
    using r by (auto simp: bdg_SetCertificateBlockHeight_def split: sum.splits prod.splits option.splits)
  moreover have "\<forall>(k, v) \<in> set (?kvs c). other_key k" for c by simp
  ultimately show "s' = s \<or> (\<exists>kvs e d. (\<forall>(k, v) \<in> set kvs. other_key k) \<and> bg_Update D (bs_db s) kvs = (e, d) \<and> s' = s\<lparr>bs_db := d\<rparr>)"
    by blast
qed

lemma bdg_SaveBatch_unrelated:
  assumes D: "badger_laws D content" and r: "bdg_SaveBatch D L s batch = (e, s')"
  shows "bdg_unrelated content s s'"
proof -
  have "s' = s \<or> (\<exists>k v e d. other_key k \<and> bg_Update D (bs_db s) [(k, v)] = (e, d) \<and> s' = s\<lparr>bs_db := d\<rparr>)"
    using r other_keys(4) unfolding bdg_SaveBatch_def
    by (force split: sum.splits bool.splits prod.splits option.splits)
  then show ?thesis using update_unrelated [OF D, of "[(k, v)]" s for k v] by (auto simp: bdg_unrelated_def)
qed

section \<open>Runs\<close>

inductive bdg_step ::
  "'d badgerdb \<Rightarrow> ('c, 'b) looseTypes \<Rightarrow> 'd badgerDBBlockStore \<Rightarrow> storeOp \<Rightarrow> bool \<Rightarrow> 'd badgerDBBlockStore \<Rightarrow> bool"
  for D :: "'d badgerdb" and L :: "('c, 'b) looseTypes" where
  save: "bdg_SaveBlock D s h hash data = (err, s') \<Longrightarrow> bdg_step D L s (OpSave h hash data) (err = None) s'"
| prune: "bdg_Prune D s b = (r, s') \<Longrightarrow> bdg_step D L s (OpPrune b) (\<not> isl r) s'"
| config: "bdg_step D L s (OpSetConfig cfg) True (bdg_SetPruneConfig s cfg)"
| reopen: "NewBadgerDBBlockStoreWithOptions D (Inr (bs_db s)) = Inr s' \<Longrightarrow> bdg_step D L s OpReopen True s'"
| cert: "bdg_SaveCertificate D L s c = (e, s') \<Longrightarrow> bdg_step D L s OpOther (e = None) s'"
| cert_height: "bdg_SetCertificateBlockHeight D L s digest h = (e, s') \<Longrightarrow> bdg_step D L s OpOther (e = None) s'"
| batch: "bdg_SaveBatch D L s b = (e, s') \<Longrightarrow> bdg_step D L s OpOther (e = None) s'"

inductive bdg_run ::
  "'d badgerdb \<Rightarrow> ('c, 'b) looseTypes \<Rightarrow> 'd badgerDBBlockStore \<Rightarrow> (storeOp \<times> bool) list \<Rightarrow> 'd badgerDBBlockStore \<Rightarrow> bool"
  for D :: "'d badgerdb" and L :: "('c, 'b) looseTypes" where
  stop: "bdg_run D L s [] s"
| step: "bdg_step D L s opn ok s' \<Longrightarrow> bdg_run D L s' tr s'' \<Longrightarrow> bdg_run D L s ((opn, ok) # tr) s''"

lemma bdg_step_refines:
  assumes D: "badger_laws D content" and st: "bdg_step D L s opn ok s'" and inv: "bdg_inv content s"
    and good: "good_saves height_of [(opn, ok)]" and com: "committed height_of (bdg_abs content s)"
  shows "bdg_inv content s' \<and> spec_step (bdg_abs content s) opn ok (bdg_abs content s')"
  using st
proof cases
  case (save h hash data err)
  have "x = h" if "block_at (content (bs_db s)) x = Some (hash, d)" for x d
    using com good that save(1) by (auto simp: committed_def bdg_abs_def kv_abs_def good_saves_def)
  then show ?thesis using bdg_save_step [OF D inv _ _ save(3)] good save(1,2) by (auto simp: good_saves_def)
next
  case (prune b r)
  then show ?thesis using bdg_prune_step [OF D inv] by simp
next
  case (config cfg)
  then show ?thesis
    using inv spec_step.configured [of "bdg_abs content s" cfg]
    by (simp add: bdg_inv_def bdg_abs_def kv_abs_def bdg_SetPruneConfig_def)
next
  case reopen
  then show ?thesis
    using inv bdg_open_step [OF D, of "bs_db s" "bs_height s" "bs_base s" s'] spec_step.reopened [of "bdg_abs content s"]
    by (simp add: bdg_inv_def bdg_abs_def kv_abs_def)
next
  case (cert c e)
  then show ?thesis using bdg_SaveCertificate_unrelated [OF D] inv spec_step.other by (metis bdg_unrelated_def)
next
  case (cert_height digest h e)
  then show ?thesis using bdg_SetCertificateBlockHeight_unrelated [OF D] inv spec_step.other by (metis bdg_unrelated_def)
next
  case (batch b e)
  then show ?thesis using bdg_SaveBatch_unrelated [OF D] inv spec_step.other by (metis bdg_unrelated_def)
qed

lemma bdg_run_refines:
  assumes D: "badger_laws D content" and run: "bdg_run D L s tr s'" and inv: "bdg_inv content s"
    and good: "good_saves height_of tr" and com: "committed height_of (bdg_abs content s)"
  shows "bdg_inv content s' \<and> spec_run (bdg_abs content s) tr (bdg_abs content s')"
  using run inv good com
proof (induction rule: bdg_run.induct)
  case (stop s)
  then show ?case by (simp add: spec_run.stop)
next
  case (step s opn ok s' tr s'')
  have g: "good_saves height_of [(opn, ok)]" "good_saves height_of tr" using step.prems(2) by (simp_all add: good_saves_def)
  have one: "bdg_inv content s'" "spec_step (bdg_abs content s) opn ok (bdg_abs content s')"
    using bdg_step_refines [OF D step.hyps(1) step.prems(1) g(1) step.prems(3)] by simp_all
  then have "committed height_of (bdg_abs content s')" using committed_step step.prems(3) g(1) by blast
  then show ?case using step.IH one g(2) spec_run.step by blast
qed

lemma bdg_loads_abs:
  assumes D: "badger_laws D content" and inv: "bdg_inv content s"
  shows "height_range h \<Longrightarrow> bdg_LoadBlock D s h = Inr b \<Longrightarrow> sp_blocks (bdg_abs content s) h = Some b"
    and "height_range h \<Longrightarrow> bdg_LoadBlock D s h = Inl ErrBlockNotFound \<Longrightarrow> sp_blocks (bdg_abs content s) h = None"
    and "bdg_LoadBlockByHash D s hash = Inr (h, d) \<Longrightarrow> sp_blocks (bdg_abs content s) h = Some (hash, d)"
    and "bdg_LoadBlockByHash D s hash = Inl ErrBlockNotFound \<Longrightarrow> sp_blocks (bdg_abs content s) h \<noteq> Some (hash, d)"
proof -
  let ?c = "content (bs_db s)"
  have ok: "store_ok ?c (bs_height s) (bs_base s)" using inv by (simp add: bdg_inv_def)
  have abs: "sp_blocks (bdg_abs content s) = block_at ?c" by (simp add: bdg_abs_def kv_abs_def)
  note get = read_value_Inr [OF D] read_value_NotFound [OF D]
  show "sp_blocks (bdg_abs content s) h = Some b" if "height_range h" "bdg_LoadBlock D s h = Inr b"
    using that get(1) by (fastforce simp: bdg_LoadBlock_def abs block_at_def split: sum.splits dbError.splits option.splits)
  show "sp_blocks (bdg_abs content s) h = None" if "height_range h" "bdg_LoadBlock D s h = Inl ErrBlockNotFound"
    using that get by (fastforce simp: bdg_LoadBlock_def abs block_at_def split: sum.splits dbError.splits option.splits)
  show "sp_blocks (bdg_abs content s) h = Some (hash, d)" if r: "bdg_LoadBlockByHash D s hash = Inr (h, d)"
  proof -
    obtain v where v: "fmlookup ?c (makeBlockKey hash) = Some v" "parseBlockValue v = (h, d)"
      using r get(1) by (fastforce simp: bdg_LoadBlockByHash_def split: sum.splits dbError.splits option.splits)
    obtain x y where "v = makeBlockValue x y" "height_range x" "fmlookup ?c (makeHeightKey x) = Some hash"
      using v(1) by (rule store_ok_block_key [OF ok])
    then show ?thesis using v height_in_i64 [of x] by (simp add: abs block_at_iff [OF ok])
  qed
  show "sp_blocks (bdg_abs content s) h \<noteq> Some (hash, d)" if "bdg_LoadBlockByHash D s hash = Inl ErrBlockNotFound"
    using that get(2) by (auto simp: bdg_LoadBlockByHash_def abs block_at_iff [OF ok] split: sum.splits dbError.splits option.splits)
qed

section \<open>A database in memory\<close>

definition map_badger :: "kvmap badgerdb" where
  "map_badger = \<lparr>bg_Unavailable = (\<lambda>c. None),
     bg_Get = (\<lambda>c k. case fmlookup c k of None \<Rightarrow> Inl DbNotFound
        | Some v \<Rightarrow> Inr \<lparr>it_Key = k, it_Value = Inr v, it_ValueSize = int (length v)\<rparr>),
     bg_Items = (\<lambda>c p. map (\<lambda>(k, v). \<lparr>it_Key = k, it_Value = Inr v, it_ValueSize = int (length v)\<rparr>)
        (entries_of (\<lambda>k. take (length p) k = p) c)),
     bg_Set = (\<lambda>c ws k v. None), bg_Commit = (\<lambda>c ws. (None, put_all ws c)),
     bg_Delete = (\<lambda>c ks k. None), bg_Flush = (\<lambda>c ks. (None, drop_keys ks c))\<rparr>"

lemma map_badger_laws: "badger_laws map_badger id"
proof -
  have it: "iterates (\<lambda>k. take (length p) k = p) c (entries_of (\<lambda>k. take (length p) k = p) c, None)" for p c
    by (rule map_db_iterates)
  have "sorted_wrt (\<lambda>x y. compareKeys (it_Key x) (it_Key y) < 0) (bg_Items map_badger c p)" for c p
    using it [of p c] by (simp add: map_badger_def iterates_def sorted_wrt_map case_prod_beta)
  moreover have "item_of c i \<and> take (length p) (it_Key i) = p" if "i \<in> set (bg_Items map_badger c p)" for c p i
    using it [of p c] that by (auto simp: map_badger_def iterates_def item_of_def)
  moreover have "k \<in> it_Key ` set (bg_Items map_badger c p)" if "fmlookup c k = Some v" "take (length p) k = p" for c p k v
    using it [of p c] that by (force simp: map_badger_def iterates_def)
  ultimately show ?thesis
    unfolding badger_laws_def by (simp add: map_badger_def item_of_def split: option.splits)
qed

section \<open>Properties\<close>


definition ex_badger :: "kvmap badgerDBBlockStore" where
  "ex_badger = snd (bdg_Prune map_badger (snd (bdg_SaveBlock map_badger (snd (bdg_SaveBlock map_badger
     \<lparr>bs_db = fmempty, bs_height = 0, bs_base = 0, bs_pruneCfg = None, bs_pruning = False\<rparr> 1 [1] [10])) 2 [2] [20])) 2)"


end
