(* ===== verification/Container.thy ===== *)
theory Container
  imports Prelude
begin

text \<open>
  \<open>internal/container/container.go\<close>: registration, Kahn's algorithm for the startup order, and
  the start and stop of all components. A component is what the container can see of it: which
  optional interfaces it has and what their methods return. The calls the container makes are
  a list of events. The orders in which Go ranges over the maps are arguments.
\<close>

section \<open>Components\<close>

record component =
  cm_Dependencies :: "string list option"
  cm_OnStart :: "error option option"
  cm_OnStop :: "error option option"
  cm_Validate :: "error option option"
  cm_Start :: "error option"
  cm_Stop :: "error option"

text \<open>An optional method is \<open>None\<close> when the component does not implement its interface.\<close>

record componentEntry =
  ce_name :: string
  ce_component :: component
  ce_dependencies :: "string list"

record container =
  ct_components :: "(string, componentEntry) fmap"
  ct_order :: "string list option"
  ct_started :: bool

datatype event = OnStart string | Validate string | Start string | OnStop string | Stop string

definition New :: container where
  "New = \<lparr>ct_components = fmempty, ct_order = None, ct_started = False\<rparr>"

definition Register :: "container \<Rightarrow> string \<Rightarrow> component \<Rightarrow> string list \<Rightarrow> error option \<times> container" where
  "Register c name cmp deps =
     (if ct_started c then (Some ErrContainerAlreadyStarted, c)
      else if fmlookup (ct_components c) name \<noteq> None then (Some ErrComponentAlreadyRegistered, c)
      else
        let deps' = (case cm_Dependencies cmp of None \<Rightarrow> deps | Some own \<Rightarrow> deps @ own)
        in (None, c\<lparr>ct_components := fmupd name
              \<lparr>ce_name = name, ce_component = cmp, ce_dependencies = deps'\<rparr> (ct_components c)\<rparr>))"

definition ct_Get :: "container \<Rightarrow> string \<Rightarrow> error + component" where
  "ct_Get c name =
     (case fmlookup (ct_components c) name of
        None \<Rightarrow> Inl ErrComponentNotFound | Some entry \<Rightarrow> Inr (ce_component entry))"

text \<open>\<open>None\<close> is the panic.\<close>

definition ct_MustGet :: "container \<Rightarrow> string \<Rightarrow> component option" where
  "ct_MustGet c name = (case ct_Get c name of Inl e \<Rightarrow> None | Inr cmp \<Rightarrow> Some cmp)"

definition ct_Has :: "container \<Rightarrow> string \<Rightarrow> bool" where
  "ct_Has c name \<longleftrightarrow> fmlookup (ct_components c) name \<noteq> None"

definition ct_Count :: "container \<Rightarrow> nat" where
  "ct_Count c = map_len (ct_components c)"

section \<open>topologicalSort\<close>

text \<open>An entry of \<open>inDegree\<close> or \<open>graph\<close> that is missing reads as zero or nil.\<close>

definition degree :: "(string, int) fmap \<Rightarrow> string \<Rightarrow> int" where
  "degree m n = (case fmlookup m n of None \<Rightarrow> 0 | Some d \<Rightarrow> d)"

definition dependents :: "(string, string list) fmap \<Rightarrow> string \<Rightarrow> string list" where
  "dependents g n = (case fmlookup g n of None \<Rightarrow> [] | Some ds \<Rightarrow> ds)"

text \<open>The loop over the dependencies of one component, then the one over the components.\<close>

fun add_edges ::
  "container \<Rightarrow> string \<Rightarrow> string list \<Rightarrow> (string, string list) fmap \<Rightarrow> (string, int) fmap \<Rightarrow>
   error + (string, string list) fmap \<times> (string, int) fmap" where
  "add_edges c name [] graph inDegree = Inr (graph, inDegree)"
| "add_edges c name (dep # deps) graph inDegree =
     (if fmlookup (ct_components c) dep = None then Inl ErrDependencyNotFound
      else add_edges c name deps (fmupd dep (dependents graph dep @ [name]) graph)
             (fmupd name (degree inDegree name + 1) inDegree))"

fun build_graph ::
  "container \<Rightarrow> string list \<Rightarrow> (string, string list) fmap \<Rightarrow> (string, int) fmap \<Rightarrow>
   error + (string, string list) fmap \<times> (string, int) fmap" where
  "build_graph c [] graph inDegree = Inr (graph, inDegree)"
| "build_graph c (name # names) graph inDegree =
     (case add_edges c name (ce_dependencies (the (fmlookup (ct_components c) name))) graph inDegree of
        Inl e \<Rightarrow> Inl e
      | Inr (graph', inDegree') \<Rightarrow> build_graph c names graph' inDegree')"

text \<open>The loop that reduces the in-degree of the dependents of one component.\<close>

fun relax :: "string list \<Rightarrow> (string, int) fmap \<Rightarrow> string list \<Rightarrow> (string, int) fmap \<times> string list" where
  "relax [] inDegree queue = (inDegree, queue)"
| "relax (d # ds) inDegree queue =
     (let inDegree' = fmupd d (degree inDegree d - 1) inDegree
      in relax ds inDegree' (if degree inDegree' d = 0 then queue @ [d] else queue))"

definition positive :: "(string, int) fmap \<Rightarrow> string set" where
  "positive m = {n. 0 < degree m n}"

lemma finite_positive [simp]: "finite (positive m)"
proof (rule finite_subset)
  show "positive m \<subseteq> fmdom' m" by (auto simp: positive_def degree_def fmdom'I split: option.splits)
qed simp

lemma degree_upd [simp]: "degree (fmupd k v m) n = (if n = k then v else degree m n)"
  by (simp add: degree_def)

lemma dependents_upd [simp]: "dependents (fmupd k v g) n = (if n = k then v else dependents g n)"
  by (simp add: dependents_def)

lemma relax_measure:
  "length (snd (relax ds m q)) + card (positive (fst (relax ds m q))) \<le> length q + card (positive m)"
proof (induction ds m q rule: relax.induct)
  case (2 d ds m q)
  let ?m = "fmupd d (degree m d - 1) m"
  have sub: "positive ?m \<subseteq> positive m" by (auto simp: positive_def split: if_splits)
  have "card (positive ?m) + 1 \<le> card (positive m)" if "degree m d = 1"
  proof -
    have "d \<in> positive m" "d \<notin> positive ?m" using that by (simp_all add: positive_def)
    then have "positive ?m \<subset> positive m" using sub by blast
    then show ?thesis using psubset_card_mono [of "positive m" "positive ?m"] by simp
  qed
  moreover have "card (positive ?m) \<le> card (positive m)" using sub by (simp add: card_mono)
  ultimately show ?case using 2 [OF refl] by (simp add: Let_def split: if_splits)
qed simp

lemma relax_measure_less:
  "(m', q') = relax ds m q \<Longrightarrow> length q' + card (positive m') < Suc (length q + card (positive m))"
  using relax_measure [of ds m q] by (metis fst_conv snd_conv le_imp_less_Suc)

text \<open>
  The main loop. It ends: what leaves the queue is never put back, since a component is queued
  when its in-degree falls to zero.
\<close>

function kahn ::
  "(string, string list) fmap \<Rightarrow> string list \<Rightarrow> (string, int) fmap \<Rightarrow> string list \<Rightarrow>
   (string, int) fmap \<times> string list" where
  "kahn graph [] inDegree order = (inDegree, order)"
| "kahn graph (current # queue) inDegree order =
     (case relax (dependents graph current) inDegree queue of
        (inDegree', queue') \<Rightarrow> kahn graph queue' inDegree' (order @ [current]))"
  by pat_completeness auto
termination
  by (relation "measure (\<lambda>(graph, queue, inDegree, order). length queue + card (positive inDegree))")
    (auto dest: relax_measure_less)

definition zero_degrees :: "string list \<Rightarrow> (string, int) fmap" where
  "zero_degrees names = fold (\<lambda>n m. fmupd n 0 m) names fmempty"

definition empty_graph :: "string list \<Rightarrow> (string, string list) fmap" where
  "empty_graph names = fold (\<lambda>n m. fmupd n [] m) names fmempty"

text \<open>\<open>ks1\<close> and \<open>ks2\<close> are the orders of the ranges over \<open>components\<close>, \<open>ks3\<close> that over \<open>inDegree\<close>.\<close>

definition topologicalSort ::
  "container \<Rightarrow> string list \<Rightarrow> string list \<Rightarrow> string list \<Rightarrow> error + string list" where
  "topologicalSort c ks1 ks2 ks3 =
     (case build_graph c ks2 (empty_graph ks1) (zero_degrees ks1) of
        Inl e \<Rightarrow> Inl e
      | Inr (graph, inDegree) \<Rightarrow>
          let queue = filter (\<lambda>n. degree inDegree n = 0) ks3 in
          (case kahn graph queue inDegree [] of
             (inDegree', order) \<Rightarrow>
               if length order \<noteq> map_len (ct_components c) then Inl ErrCircularDependency else Inr order))"

section \<open>StartAll and StopAll\<close>

fun call_all :: "(string \<Rightarrow> error option option) \<Rightarrow> (string \<Rightarrow> event) \<Rightarrow> string list \<Rightarrow> error option \<times> event list" where
  "call_all m ev [] = (None, [])"
| "call_all m ev (n # ns) =
     (case m n of
        None \<Rightarrow> call_all m ev ns
      | Some (Some e) \<Rightarrow> (Some e, [ev n])
      | Some None \<Rightarrow> (case call_all m ev ns of (r, evs) \<Rightarrow> (r, ev n # evs)))"

text \<open>The loops of \<open>StopAll\<close> go on after an error and keep the first one.\<close>

fun call_each ::
  "(string \<Rightarrow> error option option) \<Rightarrow> (string \<Rightarrow> event) \<Rightarrow> string list \<Rightarrow> error option \<Rightarrow> error option \<times> event list" where
  "call_each m ev [] firstErr = (firstErr, [])"
| "call_each m ev (n # ns) firstErr =
     (case m n of
        None \<Rightarrow> call_each m ev ns firstErr
      | Some r \<Rightarrow>
          (case call_each m ev ns (if r \<noteq> None \<and> firstErr = None then r else firstErr) of
             (r', evs) \<Rightarrow> (r', ev n # evs)))"

definition comp_of :: "container \<Rightarrow> string \<Rightarrow> component" where
  "comp_of c n = ce_component (the (fmlookup (ct_components c) n))"

definition StartAll ::
  "container \<Rightarrow> string list \<Rightarrow> string list \<Rightarrow> string list \<Rightarrow> error option \<times> container \<times> event list" where
  "StartAll c ks1 ks2 ks3 =
     (if ct_started c then (None, c, [])
      else
        (case topologicalSort c ks1 ks2 ks3 of
           Inl e \<Rightarrow> (Some e, c, [])
         | Inr order \<Rightarrow>
             let c1 = c\<lparr>ct_order := Some order\<rparr> in
             (case call_all (\<lambda>n. cm_OnStart (comp_of c n)) OnStart order of
                (Some e, evs1) \<Rightarrow> (Some e, c1, evs1)
              | (None, evs1) \<Rightarrow>
                  (case call_all (\<lambda>n. cm_Validate (comp_of c n)) Validate order of
                     (Some e, evs2) \<Rightarrow> (Some e, c1, evs1 @ evs2)
                   | (None, evs2) \<Rightarrow>
                       (case call_all (\<lambda>n. Some (cm_Start (comp_of c n))) Start order of
                          (Some e, evs3) \<Rightarrow> (Some e, c1, evs1 @ evs2 @ evs3)
                        | (None, evs3) \<Rightarrow> (None, c1\<lparr>ct_started := True\<rparr>, evs1 @ evs2 @ evs3))))))"

definition StopAll :: "container \<Rightarrow> error option \<times> container \<times> event list" where
  "StopAll c =
     (if \<not> ct_started c then (None, c, [])
      else
        let names = rev (case ct_order c of None \<Rightarrow> [] | Some order \<Rightarrow> order) in
        (case call_each (\<lambda>n. cm_OnStop (comp_of c n)) OnStop names None of
           (e1, evs1) \<Rightarrow>
             (case call_each (\<lambda>n. Some (cm_Stop (comp_of c n))) Stop names e1 of
                (e2, evs2) \<Rightarrow> (e2, c\<lparr>ct_started := False\<rparr>, evs1 @ evs2))))"

definition ct_IsStarted :: "container \<Rightarrow> bool" where
  "ct_IsStarted c = ct_started c"

definition ct_StartupOrder :: "container \<Rightarrow> string list option" where
  "ct_StartupOrder c = ct_order c"

section \<open>Correctness of the sort\<close>

definition deps_of :: "container \<Rightarrow> string \<Rightarrow> string list" where
  "deps_of c n = (case fmlookup (ct_components c) n of None \<Rightarrow> [] | Some e \<Rightarrow> ce_dependencies e)"

text \<open>The pairs of a dependency and a component that needs it.\<close>

definition depends :: "container \<Rightarrow> (string \<times> string) set" where
  "depends c = {(d, n). fmlookup (ct_components c) n \<noteq> None \<and> d \<in> set (deps_of c n)}"

lemma add_edges_ok:
  "add_edges c name deps g m = Inr (g', m') \<Longrightarrow>
     (\<forall>d \<in> set deps. fmlookup (ct_components c) d \<noteq> None) \<and>
     (\<forall>d n. count_list (dependents g' d) n = count_list (dependents g d) n + (if n = name then count_list deps d else 0)) \<and>
     (\<forall>n. degree m' n = degree m n + (if n = name then int (length deps) else 0))"
proof (induction c name deps g m rule: add_edges.induct)
  case (2 c name dep deps g m)
  have "fmlookup (ct_components c) dep \<noteq> None" using "2.prems" by (auto split: if_splits)
  then show ?case using 2 by auto
qed auto

lemma add_edges_error:
  "add_edges c name deps g m = Inl e \<Longrightarrow> e = ErrDependencyNotFound \<and> (\<exists>d \<in> set deps. fmlookup (ct_components c) d = None)"
  by (induction c name deps g m rule: add_edges.induct) (auto split: if_splits)

lemma deps_of_entry:
  "fmlookup (ct_components c) n \<noteq> None \<Longrightarrow> ce_dependencies (the (fmlookup (ct_components c) n)) = deps_of c n"
  by (auto simp: deps_of_def)

lemma build_graph_ok:
  "distinct names \<Longrightarrow> \<forall>n \<in> set names. fmlookup (ct_components c) n \<noteq> None \<Longrightarrow>
   build_graph c names g m = Inr (g', m') \<Longrightarrow>
     (\<forall>n \<in> set names. \<forall>d \<in> set (deps_of c n). fmlookup (ct_components c) d \<noteq> None) \<and>
     (\<forall>d n. count_list (dependents g' d) n =
        count_list (dependents g d) n + (if n \<in> set names then count_list (deps_of c n) d else 0)) \<and>
     (\<forall>n. degree m' n = degree m n + (if n \<in> set names then int (length (deps_of c n)) else 0))"
proof (induction c names g m rule: build_graph.induct)
  case (2 c name names g m)
  obtain g1 m1 where e: "add_edges c name (ce_dependencies (the (fmlookup (ct_components c) name))) g m = Inr (g1, m1)"
    using "2.prems"(3) by (auto split: sum.splits)
  have d: "ce_dependencies (the (fmlookup (ct_components c) name)) = deps_of c name"
    using "2.prems"(2) by (simp add: deps_of_entry)
  have ok: "\<forall>d \<in> set (deps_of c name). fmlookup (ct_components c) d \<noteq> None"
    "\<forall>d n. count_list (dependents g1 d) n = count_list (dependents g d) n + (if n = name then count_list (deps_of c name) d else 0)"
    "\<forall>n. degree m1 n = degree m n + (if n = name then int (length (deps_of c name)) else 0)"
    using add_edges_ok [OF e] unfolding d by blast+
  have rest: "build_graph c names g1 m1 = Inr (g', m')" using "2.prems"(3) e by simp
  have IH: "(\<forall>n \<in> set names. \<forall>d \<in> set (deps_of c n). fmlookup (ct_components c) d \<noteq> None) \<and>
     (\<forall>d n. count_list (dependents g' d) n =
        count_list (dependents g1 d) n + (if n \<in> set names then count_list (deps_of c n) d else 0)) \<and>
     (\<forall>n. degree m' n = degree m1 n + (if n \<in> set names then int (length (deps_of c n)) else 0))"
    using "2.IH" [OF e refl _ _ rest] "2.prems"(1,2) by simp
  then show ?case using ok "2.prems"(1) by auto
qed auto

lemma build_graph_error:
  "\<forall>n \<in> set names. fmlookup (ct_components c) n \<noteq> None \<Longrightarrow> build_graph c names g m = Inl e \<Longrightarrow>
   e = ErrDependencyNotFound \<and> (\<exists>n \<in> set names. \<exists>d \<in> set (deps_of c n). fmlookup (ct_components c) d = None)"
proof (induction c names g m rule: build_graph.induct)
  case (2 c name names g m)
  have d: "ce_dependencies (the (fmlookup (ct_components c) name)) = deps_of c name"
    using "2.prems"(1) by (simp add: deps_of_entry)
  show ?case
  proof (cases "add_edges c name (deps_of c name) g m")
    case (Inl e')
    then show ?thesis using add_edges_error [OF Inl] "2.prems" d by auto
  next
    case (Inr gm)
    obtain g1 m1 where gm: "gm = (g1, m1)" by (cases gm)
    have a: "add_edges c name (ce_dependencies (the (fmlookup (ct_components c) name))) g m = Inr (g1, m1)"
      using Inr gm d by simp
    have rest: "build_graph c names g1 m1 = Inl e" using "2.prems"(2) a by simp
    show ?thesis using "2.IH" [OF a refl _ rest] "2.prems"(1) by simp
  qed
qed auto

lemma zero_degrees: "degree (zero_degrees names) n = 0" and empty_graph: "dependents (empty_graph names) n = []"
proof -
  have "degree m n = 0 \<Longrightarrow> degree (fold (\<lambda>n m. fmupd n 0 m) names m) n = 0" for m
    by (induction names arbitrary: m) auto
  then show "degree (zero_degrees names) n = 0" by (simp add: zero_degrees_def degree_def)
  have "dependents g n = [] \<Longrightarrow> dependents (fold (\<lambda>n m. fmupd n [] m) names g) n = []" for g
    by (induction names arbitrary: g) auto
  then show "dependents (empty_graph names) n = []" by (simp add: empty_graph_def dependents_def)
qed

lemma relax_ok:
  "(\<And>n. int (count_list ds n) \<le> degree m n) \<Longrightarrow> relax ds m q = (m', q') \<Longrightarrow>
   \<exists>new. q' = q @ new \<and> distinct new \<and> set new = {n \<in> set ds. degree m n = int (count_list ds n)} \<and>
     (\<forall>n. degree m' n = degree m n - int (count_list ds n))"
proof (induction ds m q rule: relax.induct)
  case (2 d ds m q)
  let ?m = "fmupd d (degree m d - 1) m" and ?q = "if degree m d - 1 = 0 then q @ [d] else q"
  have pre: "int (count_list ds n) \<le> degree ?m n" for n using "2.prems"(1) [of n] by (auto split: if_splits)
  have r: "relax ds ?m ?q = (m', q')" using "2.prems"(2) by (simp add: Let_def)
  obtain new where new: "q' = ?q @ new" "distinct new"
    "set new = {n \<in> set ds. degree ?m n = int (count_list ds n)}"
    "\<forall>n. degree m' n = degree ?m n - int (count_list ds n)"
    using "2.IH" [OF refl pre] r by (auto simp: Let_def)
  have cl: "count_list ds d = 0 \<longleftrightarrow> d \<notin> set ds" by (simp add: count_list_0_iff)
  show ?case
  proof (cases "degree m d = 1")
    case True
    have "int (count_list ds d) \<le> 0" using pre [of d] True by simp
    then have notin: "d \<notin> set ds" using cl by simp
    have "set (d # new) = {n \<in> set (d # ds). degree m n = int (count_list (d # ds) n)}"
    proof (rule set_eqI)
      fix n
      show "n \<in> set (d # new) \<longleftrightarrow> n \<in> {n \<in> set (d # ds). degree m n = int (count_list (d # ds) n)}"
        using notin cl True by (cases "n = d") (simp_all add: new(3))
    qed
    then show ?thesis using new True notin by (intro exI [of _ "d # new"]) auto
  next
    case False
    have "set new = {n \<in> set (d # ds). degree m n = int (count_list (d # ds) n)}"
    proof (rule set_eqI)
      fix n
      show "n \<in> set new \<longleftrightarrow> n \<in> {n \<in> set (d # ds). degree m n = int (count_list (d # ds) n)}"
        using cl False "2.prems"(1) [of d] by (cases "n = d") (auto simp: new(3))
    qed
    then show ?thesis using new False by (intro exI [of _ new]) auto
  qed
qed auto

text \<open>Every component comes after all of its dependencies.\<close>

definition topological :: "container \<Rightarrow> string list \<Rightarrow> bool" where
  "topological c order \<longleftrightarrow> (\<forall>xs n ys. order = xs @ n # ys \<longrightarrow> set (deps_of c n) \<subseteq> set xs)"

abbreviation names_of :: "container \<Rightarrow> string set" where
  "names_of c \<equiv> fmdom' (ct_components c)"

definition missing :: "container \<Rightarrow> string list \<Rightarrow> string \<Rightarrow> nat" where
  "missing c order n = length (filter (\<lambda>d. d \<notin> set order) (deps_of c n))"

definition kahn_inv :: "container \<Rightarrow> string list \<Rightarrow> (string, int) fmap \<Rightarrow> string list \<Rightarrow> bool" where
  "kahn_inv c queue m order \<longleftrightarrow>
     distinct (order @ queue) \<and> set (order @ queue) \<subseteq> names_of c \<and> topological c order \<and>
     (\<forall>n. degree m n = (if n \<in> names_of c then int (missing c order n) else 0)) \<and>
     (\<forall>n \<in> names_of c. n \<in> set (order @ queue) \<longleftrightarrow> missing c order n = 0)"

lemma missing_snoc:
  assumes "current \<notin> set order"
  shows "missing c order n = missing c (order @ [current]) n + count_list (deps_of c n) current"
proof -
  have "length (filter (\<lambda>d. d \<notin> set order) xs) =
      length (filter (\<lambda>d. d \<notin> set (order @ [current])) xs) + count_list xs current" for xs
    using assms by (induction xs) auto
  then show ?thesis by (simp add: missing_def)
qed

lemma missing_0_iff: "missing c order n = 0 \<longleftrightarrow> set (deps_of c n) \<subseteq> set order"
  by (auto simp: missing_def filter_empty_conv)

lemma topological_snoc:
  "topological c (order @ [n]) \<longleftrightarrow> topological c order \<and> set (deps_of c n) \<subseteq> set order"
proof
  assume t: "topological c (order @ [n])"
  have "topological c order"
    unfolding topological_def
  proof (intro allI impI)
    fix xs k ys
    assume "order = xs @ k # ys"
    then have "order @ [n] = xs @ k # (ys @ [n])" by simp
    then show "set (deps_of c k) \<subseteq> set xs" using t unfolding topological_def by blast
  qed
  moreover have "set (deps_of c n) \<subseteq> set order" using t unfolding topological_def by blast
  ultimately show "topological c order \<and> set (deps_of c n) \<subseteq> set order" ..
next
  assume t: "topological c order \<and> set (deps_of c n) \<subseteq> set order"
  show "topological c (order @ [n])"
    unfolding topological_def
  proof (intro allI impI)
    fix xs k ys
    assume eq: "order @ [n] = xs @ k # ys"
    show "set (deps_of c k) \<subseteq> set xs"
    proof (cases ys rule: rev_cases)
      case Nil
      then show ?thesis using eq t by simp
    next
      case (snoc zs z)
      then have "order = xs @ k # zs" using eq by simp
      then show ?thesis using t unfolding topological_def by blast
    qed
  qed
qed

text \<open>\<open>graph_ok\<close>: the dependents listed in the graph are those of the components, as often.\<close>

definition graph_ok :: "container \<Rightarrow> (string, string list) fmap \<Rightarrow> bool" where
  "graph_ok c g \<longleftrightarrow> (\<forall>d n. count_list (dependents g d) n =
     (if n \<in> names_of c then count_list (deps_of c n) d else 0))"

lemma kahn_inv_step:
  assumes g: "graph_ok c g" and inv: "kahn_inv c (current # queue) m order"
    and r: "relax (dependents g current) m queue = (m', queue')"
  shows "kahn_inv c queue' m' (order @ [current])"
proof -
  let ?cnt = "\<lambda>n. count_list (dependents g current) n" and ?o = "order @ [current]"
  have i: "distinct (order @ current # queue)" "set (order @ current # queue) \<subseteq> names_of c" "topological c order"
    "\<And>n. degree m n = (if n \<in> names_of c then int (missing c order n) else 0)"
    "\<And>n. n \<in> names_of c \<Longrightarrow> n \<in> set (order @ current # queue) \<longleftrightarrow> missing c order n = 0"
    using inv unfolding kahn_inv_def by blast+
  have cur: "current \<notin> set order" "current \<in> names_of c" using i(1,2) by auto
  have cnt: "?cnt n = (if n \<in> names_of c then count_list (deps_of c n) current else 0)" for n
    using g unfolding graph_ok_def by blast
  have miss: "missing c order n = missing c ?o n + ?cnt n" if "n \<in> names_of c" for n
    using missing_snoc [OF cur(1), of c n] that cnt [of n] by simp
  have le: "int (?cnt n) \<le> degree m n" for n using i(4) miss cnt by auto
  obtain new where new: "queue' = queue @ new" "distinct new"
    "set new = {n \<in> set (dependents g current). degree m n = int (?cnt n)}"
    "\<forall>n. degree m' n = degree m n - int (?cnt n)"
    using relax_ok [OF le r] by blast
  have deg': "degree m' n = (if n \<in> names_of c then int (missing c ?o n) else 0)" for n
    using new(4) i(4) [of n] miss [of n] cnt [of n] by simp
  have new_iff: "n \<in> set new \<longleftrightarrow> n \<in> names_of c \<and> 0 < ?cnt n \<and> missing c ?o n = 0" for n
  proof -
    have "n \<in> set (dependents g current) \<longleftrightarrow> 0 < ?cnt n" using count_list_0_iff [of "dependents g current" n] by auto
    then show ?thesis using new(3) i(4) [of n] miss [of n] cnt [of n] by auto
  qed
  have "n \<notin> set (order @ current # queue)" if "n \<in> set new" for n
    using that i(5) [of n] miss [of n] new_iff [of n] by auto
  then have "distinct (?o @ queue')" using i(1) new(1,2) by auto
  moreover have "set (?o @ queue') \<subseteq> names_of c" using i(2) new(1) new_iff by auto
  moreover have "topological c ?o"
    unfolding topological_snoc using i(3) i(5) [OF cur(2)] by (simp add: missing_0_iff)
  moreover have "n \<in> set (?o @ queue') \<longleftrightarrow> missing c ?o n = 0" if n: "n \<in> names_of c" for n
    using i(5) [OF n] miss [OF n] new_iff [of n] n new(1) by auto
  ultimately show ?thesis using deg' unfolding kahn_inv_def by blast
qed

lemma kahn_correct:
  "graph_ok c g \<Longrightarrow> kahn_inv c queue m order \<Longrightarrow> kahn g queue m order = (m', order') \<Longrightarrow> kahn_inv c [] m' order'"
proof (induction g queue m order rule: kahn.induct)
  case (2 g current queue m order)
  obtain m1 q1 where r: "relax (dependents g current) m queue = (m1, q1)" by fastforce
  have "kahn g q1 m1 (order @ [current]) = (m', order')" using "2.prems"(3) r by simp
  then show ?case
    using "2.IH" [OF r [symmetric] "2.prems"(1) kahn_inv_step [OF "2.prems"(1,2) r]] by simp
qed simp

lemma in_names_iff: "n \<in> names_of c \<longleftrightarrow> fmlookup (ct_components c) n \<noteq> None"
  by (metis fmdom'_notD fmdom'_notI)

text \<open>A set of components that each need another one of the set contains a cycle.\<close>

lemma cycle_exists:
  assumes S: "S \<subseteq> names_of c" "S \<noteq> {}" and dep: "\<forall>n \<in> S. \<exists>d \<in> S. d \<in> set (deps_of c n)"
  shows "\<not> acyclic (depends c)"
proof
  assume ac: "acyclic (depends c)"
  let ?r = "depends c \<inter> S \<times> S"
  have fin: "finite S" using S(1) finite_subset by fastforce
  have "acyclic ?r" using ac by (rule acyclic_subset) simp
  then have "wf ?r" using fin by (intro finite_acyclic_wf) simp_all
  then obtain z where z: "z \<in> S" "\<And>y. (y, z) \<in> ?r \<Longrightarrow> y \<notin> S" using S(2) by (metis ex_in_conv wfE_min)
  obtain d where d: "d \<in> S" "d \<in> set (deps_of c z)" using dep z(1) by blast
  have "fmlookup (ct_components c) z \<noteq> None" using z(1) S(1) in_names_iff by blast
  then have "(d, z) \<in> ?r" using d z(1) by (simp add: depends_def)
  then show False using z(2) d(1) by blast
qed

lemma takeWhile_first: "x \<notin> set us \<Longrightarrow> length (takeWhile (\<lambda>y. y \<noteq> x) (us @ x # vs)) = length us"
  by (induction us) auto

lemma topological_acyclic:
  assumes t: "topological c order" "distinct order" "set order = names_of c"
  shows "acyclic (depends c)"
proof -
  define pos where "pos n = length (takeWhile (\<lambda>x. x \<noteq> n) order)" for n
  have "pos d < pos n" if dn: "(d, n) \<in> depends c" for d n
  proof -
    have "n \<in> set order" using dn unfolding t(3) in_names_iff depends_def by simp
    then obtain xs ys where o: "order = xs @ n # ys" using split_list [of n order] by blast
    have n: "n \<notin> set xs" using o t(2) by simp
    have d: "d \<in> set xs" using t(1) o dn unfolding topological_def depends_def by blast
    have "pos n = length xs" unfolding pos_def o using n by (rule takeWhile_first)
    moreover have "pos d < length xs"
    proof -
      obtain us vs where u: "xs = us @ d # vs" "d \<notin> set us" using split_list_first [OF d] by blast
      have "pos d = length us"
        unfolding pos_def o u(1) using takeWhile_first [OF u(2), of "vs @ n # ys"] by simp
      then show ?thesis using u(1) by simp
    qed
    ultimately show ?thesis by simp
  qed
  then have "depends c \<subseteq> inv_image less_than pos" by auto
  then have "wf (depends c)" by (rule wf_subset [rotated]) (rule wf_inv_image [OF wf_less_than])
  then show ?thesis by (rule wf_acyclic)
qed

definition deps_registered :: "container \<Rightarrow> bool" where
  "deps_registered c \<longleftrightarrow> (\<forall>n \<in> names_of c. \<forall>d \<in> set (deps_of c n). d \<in> names_of c)"

lemma sort_cases:
  assumes ks: "enumerates ks1 (ct_components c)" "enumerates ks2 (ct_components c)" "enumerates ks3 (ct_components c)"
  obtains (missing) "topologicalSort c ks1 ks2 ks3 = Inl ErrDependencyNotFound" "\<not> deps_registered c"
  | (cyclic) "topologicalSort c ks1 ks2 ks3 = Inl ErrCircularDependency" "deps_registered c" "\<not> acyclic (depends c)"
  | (sorted) order where "topologicalSort c ks1 ks2 ks3 = Inr order" "deps_registered c" "acyclic (depends c)"
      "topological c order" "distinct order" "set order = names_of c"
proof -
  have k: "distinct ks2" "set ks2 = names_of c" "distinct ks3" "set ks3 = names_of c"
    using ks by (simp_all add: enumerates_def)
  have pre: "\<forall>n \<in> set ks2. fmlookup (ct_components c) n \<noteq> None" using k(2) in_names_iff by blast
  show thesis
  proof (cases "build_graph c ks2 (empty_graph ks1) (zero_degrees ks1)")
    case (Inl e)
    then have "topologicalSort c ks1 ks2 ks3 = Inl ErrDependencyNotFound"
      using build_graph_error [OF pre Inl] by (simp add: topologicalSort_def)
    moreover have "\<not> deps_registered c"
      using build_graph_error [OF pre Inl] k(2) in_names_iff unfolding deps_registered_def by metis
    ultimately show thesis by (rule missing)
  next
    case (Inr gm)
    obtain g m where gm: "gm = (g, m)" by (cases gm)
    note b = build_graph_ok [OF k(1) pre Inr [unfolded gm], unfolded empty_graph zero_degrees k(2)]
    have reg: "deps_registered c" using b unfolding deps_registered_def in_names_iff by blast
    have g: "graph_ok c g" using b unfolding graph_ok_def by simp
    have deg: "degree m n = (if n \<in> names_of c then int (missing c [] n) else 0)" for n
      using b by (simp add: missing_def)
    let ?q = "filter (\<lambda>n. degree m n = 0) ks3"
    have inv: "kahn_inv c ?q m []"
      using k(3,4) deg by (auto simp: kahn_inv_def topological_def)
    obtain m' order where kr: "kahn g ?q m [] = (m', order)" by fastforce
    have fin: "kahn_inv c [] m' order" by (rule kahn_correct [OF g inv kr])
    have o: "distinct order" "set order \<subseteq> names_of c" "topological c order"
      "\<And>n. n \<in> names_of c \<Longrightarrow> n \<in> set order \<longleftrightarrow> missing c order n = 0"
      using fin unfolding kahn_inv_def by auto
    have sort: "topologicalSort c ks1 ks2 ks3 = (if length order \<noteq> map_len (ct_components c)
        then Inl ErrCircularDependency else Inr order)"
      using Inr gm kr by (simp add: topologicalSort_def Let_def)
    have len: "length order = card (set order)" using o(1) by (simp add: distinct_card)
    show thesis
    proof (cases "set order = names_of c")
      case True
      then show thesis
        using sorted [of order] sort len reg o topological_acyclic [OF o(3,1) True] by (simp add: map_len_def)
    next
      case False
      have "card (set order) < card (names_of c)" using o(2) False by (intro psubset_card_mono) auto
      then have err: "topologicalSort c ks1 ks2 ks3 = Inl ErrCircularDependency" using sort len by (simp add: map_len_def)
      have "\<exists>d \<in> names_of c - set order. d \<in> set (deps_of c n)" if "n \<in> names_of c - set order" for n
        using o(4) [of n] that reg by (auto simp: missing_0_iff deps_registered_def)
      then have "\<not> acyclic (depends c)"
        using False o(2) by (intro cycle_exists [of "names_of c - set order"]) auto
      then show thesis using cyclic err reg by blast
    qed
  qed
qed

lemma call_all_ok:
  "call_all m ev ns = (None, evs) \<Longrightarrow> evs = map ev (filter (\<lambda>n. m n \<noteq> None) ns)"
  by (induction m ev ns arbitrary: evs rule: call_all.induct) (auto split: option.splits prod.splits)

lemma call_each_events:
  "snd (call_each m ev ns e) = map ev (filter (\<lambda>n. m n \<noteq> None) ns)"
  by (induction m ev ns e rule: call_each.induct) (auto split: option.splits prod.splits)

lemma StartAll_ok:
  assumes "\<not> ct_started c" "StartAll c ks1 ks2 ks3 = (None, c', evs)"
  obtains order where "topologicalSort c ks1 ks2 ks3 = Inr order" "c' = c\<lparr>ct_order := Some order, ct_started := True\<rparr>"
    "evs = map OnStart (filter (\<lambda>n. cm_OnStart (comp_of c n) \<noteq> None) order) @
       map Validate (filter (\<lambda>n. cm_Validate (comp_of c n) \<noteq> None) order) @ map Start order"
proof -
  obtain order where o: "topologicalSort c ks1 ks2 ks3 = Inr order"
    using assms by (cases "topologicalSort c ks1 ks2 ks3") (auto simp: StartAll_def)
  obtain e1 evs1 where 1: "call_all (\<lambda>n. cm_OnStart (comp_of c n)) OnStart order = (e1, evs1)" by fastforce
  obtain e2 evs2 where 2: "call_all (\<lambda>n. cm_Validate (comp_of c n)) Validate order = (e2, evs2)" by fastforce
  obtain e3 evs3 where 3: "call_all (\<lambda>n. Some (cm_Start (comp_of c n))) Start order = (e3, evs3)" by fastforce
  have r: "e1 = None" "e2 = None" "e3 = None" "c' = c\<lparr>ct_order := Some order, ct_started := True\<rparr>"
    "evs = evs1 @ evs2 @ evs3"
    using assms o 1 2 3 by (auto simp: StartAll_def Let_def split: option.splits)
  have "evs1 = map OnStart (filter (\<lambda>n. cm_OnStart (comp_of c n) \<noteq> None) order)"
    "evs2 = map Validate (filter (\<lambda>n. cm_Validate (comp_of c n) \<noteq> None) order)" "evs3 = map Start order"
    using call_all_ok [OF 1 [unfolded r(1)]] call_all_ok [OF 2 [unfolded r(2)]] call_all_ok [OF 3 [unfolded r(3)]]
    by simp_all
  then show thesis using that [OF o r(4)] r(5) by simp
qed

lemma call_each_None:
  "fst (call_each m ev ns e) = None \<longleftrightarrow> e = None \<and> (\<forall>n \<in> set ns. \<forall>x. m n \<noteq> Some (Some x))"
  by (induction m ev ns e rule: call_each.induct) (auto split: option.splits prod.splits if_splits)

section \<open>Properties\<close>

text \<open>
  C12: Kahn's algorithm ends and is correct and complete, whatever the iteration order of the
  maps: it returns an order exactly when every dependency is registered and there is no
  circular dependency; the order has every component once, after all of its dependencies; the
  two errors are returned in exactly the other two cases.
\<close>

theorem topological_sort_correct:
  assumes "enumerates ks1 (ct_components c)" "enumerates ks2 (ct_components c)" "enumerates ks3 (ct_components c)"
  shows "case topologicalSort c ks1 ks2 ks3 of
      Inr order \<Rightarrow> deps_registered c \<and> acyclic (depends c) \<and> topological c order \<and> distinct order \<and>
        set order = names_of c
    | Inl ErrDependencyNotFound \<Rightarrow> \<not> deps_registered c
    | Inl ErrCircularDependency \<Rightarrow> deps_registered c \<and> \<not> acyclic (depends c)
    | Inl _ \<Rightarrow> False"
  using assms by (cases rule: sort_cases) simp_all

text \<open>
  C13: A successful \<open>StartAll\<close> starts every component once, after all of its dependencies and after
  all \<open>OnStart\<close> and \<open>Validate\<close> calls; the following \<open>StopAll\<close> stops every component once, in the
  reverse order, even when some of them fail, and returns the first error.
\<close>

theorem start_then_stop_order:
  assumes ks: "enumerates ks1 (ct_components c)" "enumerates ks2 (ct_components c)" "enumerates ks3 (ct_components c)"
    and c: "\<not> ct_IsStarted c" and start: "StartAll c ks1 ks2 ks3 = (None, c', evs)"
  shows "\<exists>pre order post e c''. evs = pre @ map Start order \<and> (\<forall>n. Start n \<notin> set pre) \<and>
    topological c order \<and> distinct order \<and> set order = names_of c \<and> ct_IsStarted c' \<and>
    StopAll c' = (e, c'', post @ map Stop (rev order)) \<and> (\<forall>n. Stop n \<notin> set post) \<and> \<not> ct_IsStarted c'' \<and>
    (e = None \<longleftrightarrow> (\<forall>n \<in> names_of c. cm_Stop (comp_of c n) = None \<and> (\<forall>x. cm_OnStop (comp_of c n) \<noteq> Some (Some x))))"
proof -
  obtain order where o: "topologicalSort c ks1 ks2 ks3 = Inr order" "c' = c\<lparr>ct_order := Some order, ct_started := True\<rparr>"
    "evs = map OnStart (filter (\<lambda>n. cm_OnStart (comp_of c n) \<noteq> None) order) @
       map Validate (filter (\<lambda>n. cm_Validate (comp_of c n) \<noteq> None) order) @ map Start order"
    using StartAll_ok [OF _ start] c by (auto simp: ct_IsStarted_def)
  have t: "topological c order" "distinct order" "set order = names_of c"
    using ks o(1) by (cases rule: sort_cases; simp)+
  let ?post = "map OnStop (filter (\<lambda>n. cm_OnStop (comp_of c n) \<noteq> None) (rev order))"
  obtain e1 evs1 where 1: "call_each (\<lambda>n. cm_OnStop (comp_of c n)) OnStop (rev order) None = (e1, evs1)" by fastforce
  obtain e2 evs2 where 2: "call_each (\<lambda>n. Some (cm_Stop (comp_of c n))) Stop (rev order) e1 = (e2, evs2)" by fastforce
  have evs: "evs1 = ?post" "evs2 = map Stop (rev order)"
    using call_each_events [of "\<lambda>n. cm_OnStop (comp_of c n)" OnStop "rev order" None]
      call_each_events [of "\<lambda>n. Some (cm_Stop (comp_of c n))" Stop "rev order" e1] 1 2 by simp_all
  have comp: "comp_of c' = comp_of c" by (simp add: o(2) comp_of_def fun_eq_iff)
  have stop: "StopAll c' = (e2, c'\<lparr>ct_started := False\<rparr>, ?post @ map Stop (rev order))"
    using 1 2 evs unfolding StopAll_def comp by (simp add: o(2) Let_def)
  have n1: "e1 = None \<longleftrightarrow> (\<forall>n \<in> names_of c. \<forall>x. cm_OnStop (comp_of c n) \<noteq> Some (Some x))"
    using call_each_None [of "\<lambda>n. cm_OnStop (comp_of c n)" OnStop "rev order" None] 1 t(3) by simp
  have n2: "e2 = None \<longleftrightarrow> e1 = None \<and> (\<forall>n \<in> names_of c. cm_Stop (comp_of c n) = None)"
    using call_each_None [of "\<lambda>n. Some (cm_Stop (comp_of c n))" Stop "rev order" e1] 2 t(3) by simp
  let ?pre = "map OnStart (filter (\<lambda>n. cm_OnStart (comp_of c n) \<noteq> None) order) @
       map Validate (filter (\<lambda>n. cm_Validate (comp_of c n) \<noteq> None) order)"
  have "evs = ?pre @ map Start order" "\<forall>n. Start n \<notin> set ?pre" "\<forall>n. Stop n \<notin> set ?post"
    using o(3) by auto
  moreover have "ct_IsStarted c'" "\<not> ct_IsStarted (c'\<lparr>ct_started := False\<rparr>)"
    by (simp_all add: o(2) ct_IsStarted_def)
  moreover have "e2 = None \<longleftrightarrow> (\<forall>n \<in> names_of c. cm_Stop (comp_of c n) = None \<and>
      (\<forall>x. cm_OnStop (comp_of c n) \<noteq> Some (Some x)))"
    unfolding n2 n1 by blast
  ultimately show ?thesis using t stop by blast
qed

text \<open>
  C38: When \<open>StartAll\<close> fails, the container does not count as started, and \<open>StopAll\<close> does nothing:
  the components that were started before the failure are not stopped.
\<close>

theorem failed_start_not_stopped:
  assumes "\<not> ct_IsStarted c" "StartAll c ks1 ks2 ks3 = (Some e, c', evs)"
  shows "\<not> ct_IsStarted c' \<and> StopAll c' = (None, c', [])"
proof (cases "topologicalSort c ks1 ks2 ks3")
  case (Inl e')
  then show ?thesis using assms by (simp add: StartAll_def StopAll_def ct_IsStarted_def)
next
  case (Inr order)
  obtain e1 evs1 where 1: "call_all (\<lambda>n. cm_OnStart (comp_of c n)) OnStart order = (e1, evs1)" by fastforce
  obtain e2 evs2 where 2: "call_all (\<lambda>n. cm_Validate (comp_of c n)) Validate order = (e2, evs2)" by fastforce
  obtain e3 evs3 where 3: "call_all (\<lambda>n. Some (cm_Start (comp_of c n))) Start order = (e3, evs3)" by fastforce
  have "c' = c\<lparr>ct_order := Some order\<rparr>"
    using assms Inr 1 2 3 by (cases e1; cases e2; cases e3) (simp_all add: StartAll_def ct_IsStarted_def)
  then show ?thesis using assms(1) by (simp add: StopAll_def ct_IsStarted_def)
qed

section \<open>Witnesses\<close>

definition ex_component :: "error option \<Rightarrow> component" where
  "ex_component start = \<lparr>cm_Dependencies = None, cm_OnStart = Some None, cm_OnStop = None, cm_Validate = None,
     cm_Start = start, cm_Stop = Some (ErrOther ''busy'')\<rparr>"

text \<open>\<open>store\<close> first, then \<open>pool\<close>, then \<open>node\<close>, which needs both.\<close>

definition ex_container :: "error option \<Rightarrow> container" where
  "ex_container start =
     snd (Register (snd (Register (snd (Register New ''node'' (ex_component start) [''store'', ''pool'']))
       ''pool'' (ex_component None) [''store''])) ''store'' (ex_component None) [])"

abbreviation ex_names :: "string list" where
  "ex_names \<equiv> [''pool'', ''node'', ''store'']"

lemma ex_container_names: "enumerates ex_names (ct_components (ex_container None))"
proof -
  have "fmdom (ct_components (ex_container None)) = {|''pool'', ''node'', ''store''|}" by code_simp
  then show ?thesis by (simp add: enumerates_def fmdom'_alt_def)
qed

theorem topological_sort_correct_witness:
  "topologicalSort (ex_container None) ex_names ex_names ex_names = Inr [''store'', ''pool'', ''node''] \<and>
   topological (ex_container None) [''store'', ''pool'', ''node'']"
proof -
  have s: "topologicalSort (ex_container None) ex_names ex_names ex_names = Inr [''store'', ''pool'', ''node'']"
    by code_simp
  then show ?thesis
    using topological_sort_correct [OF ex_container_names ex_container_names ex_container_names] by simp
qed

theorem start_then_stop_order_witness:
  "\<exists>c' c'' post e. StartAll (ex_container None) ex_names ex_names ex_names = (None, c',
       map OnStart [''store'', ''pool'', ''node''] @ map Start [''store'', ''pool'', ''node'']) \<and>
     StopAll c' = (e, c'', post @ map Stop [''node'', ''pool'', ''store'']) \<and> e \<noteq> None"
proof -
  let ?r = "StartAll (ex_container None) ex_names ex_names ex_names"
  let ?o = "[''store'', ''pool'', ''node'']"
  have f: "fst ?r = None" "snd (snd ?r) = map OnStart ?o @ map Start ?o" "\<not> ct_IsStarted (ex_container None)"
    by code_simp+
  then have r: "?r = (None, fst (snd ?r), map OnStart ?o @ map Start ?o)" by (simp add: prod_eq_iff)
  obtain pre order post e c'' where w: "map OnStart ?o @ map Start ?o = pre @ map Start order" "\<forall>n. Start n \<notin> set pre"
    "StopAll (fst (snd ?r)) = (e, c'', post @ map Stop (rev order))"
    "e = None \<longleftrightarrow> (\<forall>n \<in> names_of (ex_container None). cm_Stop (comp_of (ex_container None) n) = None \<and>
      (\<forall>x. cm_OnStop (comp_of (ex_container None) n) \<noteq> Some (Some x)))"
    using start_then_stop_order [OF ex_container_names ex_container_names ex_container_names f(3) r] by blast
  have "filter (\<lambda>ev. \<exists>n. ev = Start n) pre = []" using w(2) by (auto simp: filter_empty_conv)
  then have "map Start order = map Start ?o"
    using arg_cong [OF w(1), of "filter (\<lambda>ev. \<exists>n. ev = Start n)"] by (simp add: filter_map comp_def)
  then have "order = ?o" by (auto simp: map_eq_Cons_conv)
  have "cm_Stop (comp_of (ex_container None) ''pool'') \<noteq> None" by code_simp
  moreover have "''pool'' \<in> names_of (ex_container None)" using ex_container_names by (auto simp: enumerates_def)
  ultimately have "e \<noteq> None" unfolding w(4) by (intro notI) (drule (1) bspec, simp)
  with \<open>order = ?o\<close> show ?thesis using r w(3) by auto
qed

theorem failed_start_not_stopped_witness:
  "\<exists>c' evs. StartAll (ex_container (Some (ErrOther ''no port''))) ex_names ex_names ex_names =
       (Some (ErrOther ''no port''), c', evs) \<and> Start ''pool'' \<in> set evs \<and> StopAll c' = (None, c', [])"
proof -
  let ?r = "StartAll (ex_container (Some (ErrOther ''no port''))) ex_names ex_names ex_names"
  have f: "fst ?r = Some (ErrOther ''no port'')" "Start ''pool'' \<in> set (snd (snd ?r))"
    "\<not> ct_IsStarted (ex_container (Some (ErrOther ''no port'')))" by code_simp+
  then have r: "?r = (Some (ErrOther ''no port''), fst (snd ?r), snd (snd ?r))" by (simp add: prod_eq_iff)
  show ?thesis using failed_start_not_stopped [OF f(3) r] f(2) r by blast
qed

end
