(* ===== verification/ValidatorSet.thy ===== *)
theory ValidatorSet
  imports Prelude
begin

text \<open>
  \<open>pkg/consensus/validators.go\<close>: \<open>SimpleValidatorSet\<close>, \<open>IndexedValidatorSet\<close>, the verification of
  commits and the sign bytes of a commit, behind the interface \<open>ValidatorSet\<close> of
  \<open>pkg/consensus/interface.go\<close>. Deep copies are values here. \<open>ed25519.Verify\<close> is the parameter
  \<open>verify key msg sig\<close>. Voting powers are int64 values; sums of them wrap as in the code.
\<close>

section \<open>Validators and commits\<close>

record validator =
  v_Index :: "16 word"
  v_Address :: bytes
  v_PublicKey :: bytes
  v_VotingPower :: int
  v_ProposerPriority :: int

record commitSig =
  cs_ValidatorIndex :: "16 word"
  cs_Signature :: slice
  cs_Timestamp :: int

record commit =
  c_Height :: int
  c_Round :: int
  c_BlockHash :: bytes
  c_Signatures :: "commitSig list"

abbreviation MaxInt64 :: int where
  "MaxInt64 \<equiv> 2 ^ 63 - 1"

abbreviation PublicKeySize :: nat where
  "PublicKeySize \<equiv> 32"

abbreviation SignatureSize :: nat where
  "SignatureSize \<equiv> 64"

section \<open>SimpleValidatorSet\<close>

record simpleValidatorSet =
  vs_validators :: "validator list"
  vs_totalPower :: int
  vs_epoch :: "64 word"

text \<open>The loop that validates the given list and adds up the power.\<close>

fun vs_check :: "validator option list \<Rightarrow> bytes set \<Rightarrow> int \<Rightarrow> error + int" where
  "vs_check [] seen totalPower = Inr totalPower"
| "vs_check (None # vs) seen totalPower = Inl (ErrOther ''validator is nil'')"
| "vs_check (Some v # vs) seen totalPower =
     (if v_VotingPower v \<le> 0 then Inl ErrInvalidVotingPower
      else if v_Address v \<in> seen then Inl ErrDuplicateValidator
      else vs_check vs (insert (v_Address v) seen) (i64 (totalPower + v_VotingPower v)))"

definition NewSimpleValidatorSet :: "validator option list \<Rightarrow> 64 word \<Rightarrow> error + simpleValidatorSet" where
  "NewSimpleValidatorSet validators epoch =
     (if validators = [] then Inr \<lparr>vs_validators = [], vs_totalPower = 0, vs_epoch = epoch\<rparr>
      else
        (case vs_check validators {} 0 of
           Inl e \<Rightarrow> Inl e
         | Inr totalPower \<Rightarrow>
             Inr \<lparr>vs_validators = map (\<lambda>(i, v). (the v)\<lparr>v_Index := word_of_nat i\<rparr>) (enumerate 0 validators),
                  vs_totalPower = totalPower, vs_epoch = epoch\<rparr>))"

definition vs_Count :: "simpleValidatorSet \<Rightarrow> nat" where
  "vs_Count vs = length (vs_validators vs)"

definition vs_GetByIndex :: "simpleValidatorSet \<Rightarrow> 16 word \<Rightarrow> validator option" where
  "vs_GetByIndex vs index =
     (if unat index \<ge> length (vs_validators vs) then None else Some (vs_validators vs ! unat index))"

definition vs_GetByAddress :: "simpleValidatorSet \<Rightarrow> bytes \<Rightarrow> validator option" where
  "vs_GetByAddress vs address = List.find (\<lambda>v. v_Address v = address) (vs_validators vs)"

definition vs_Contains :: "simpleValidatorSet \<Rightarrow> bytes \<Rightarrow> bool" where
  "vs_Contains vs address \<longleftrightarrow> vs_GetByAddress vs address \<noteq> None"

text \<open>\<open>None\<close> is the panic of an index out of range; \<open>Some None\<close> is the nil result.\<close>

definition vs_GetProposer :: "simpleValidatorSet \<Rightarrow> int \<Rightarrow> int \<Rightarrow> validator option option" where
  "vs_GetProposer vs height rnd =
     (if vs_validators vs = [] then Some None
      else
        let idx = go_mod (i64 (height + rnd)) (int (length (vs_validators vs)))
        in if 0 \<le> idx \<and> idx < int (length (vs_validators vs))
           then Some (Some (vs_validators vs ! nat idx)) else None)"

definition vs_TotalVotingPower :: "simpleValidatorSet \<Rightarrow> int" where
  "vs_TotalVotingPower vs = vs_totalPower vs"

definition vs_Quorum :: "simpleValidatorSet \<Rightarrow> int" where
  "vs_Quorum vs =
     (if vs_totalPower vs > MaxInt64 div 2
      then go_div (vs_totalPower vs) 3 * 2 + 1
      else go_div (i64 (2 * vs_totalPower vs)) 3 + 1)"

definition vs_F :: "simpleValidatorSet \<Rightarrow> int" where
  "vs_F vs = go_div (int (length (vs_validators vs)) - 1) 3"

definition vs_Epoch :: "simpleValidatorSet \<Rightarrow> 64 word" where
  "vs_Epoch vs = vs_epoch vs"

text \<open>\<open>byte(height >> k)\<close>: an arithmetic shift, then the low eight bits.\<close>

definition makeCommitSignBytes :: "int \<Rightarrow> int \<Rightarrow> bytes \<Rightarrow> bytes" where
  "makeCommitSignBytes height rnd blockHash =
     map (\<lambda>k. word_of_int (height div 2 ^ k)) [56, 48, 40, 32, 24, 16, 8, 0] @
     map (\<lambda>k. word_of_int (rnd div 2 ^ k)) [24, 16, 8, 0] @ blockHash"

text \<open>Whether the loop of \<open>VerifyCommit\<close> counts a signature.\<close>

definition vs_counts ::
  "(bytes \<Rightarrow> bytes \<Rightarrow> bytes \<Rightarrow> bool) \<Rightarrow> simpleValidatorSet \<Rightarrow> bytes \<Rightarrow> commitSig \<Rightarrow> bool" where
  "vs_counts verify vs signBytes sig =
     (case cs_Signature sig of
        None \<Rightarrow> False
      | Some signature \<Rightarrow>
          if unat (cs_ValidatorIndex sig) \<ge> length (vs_validators vs) then False
          else
            let validator = vs_validators vs ! unat (cs_ValidatorIndex sig) in
            if length (v_PublicKey validator) \<noteq> PublicKeySize then False
            else if length signature \<noteq> SignatureSize then False
            else verify (v_PublicKey validator) signBytes signature)"

fun vs_commit_power ::
  "(bytes \<Rightarrow> bytes \<Rightarrow> bytes \<Rightarrow> bool) \<Rightarrow> simpleValidatorSet \<Rightarrow> bytes \<Rightarrow> commitSig list \<Rightarrow> int \<Rightarrow> int" where
  "vs_commit_power verify vs signBytes [] votingPower = votingPower"
| "vs_commit_power verify vs signBytes (sig # sigs) votingPower =
     vs_commit_power verify vs signBytes sigs
       (if vs_counts verify vs signBytes sig
        then i64 (votingPower + v_VotingPower (vs_validators vs ! unat (cs_ValidatorIndex sig)))
        else votingPower)"

definition vs_VerifyCommit ::
  "(bytes \<Rightarrow> bytes \<Rightarrow> bytes \<Rightarrow> bool) \<Rightarrow> simpleValidatorSet \<Rightarrow> int \<Rightarrow> bytes \<Rightarrow> commit option \<Rightarrow> error option" where
  "vs_VerifyCommit verify vs height blockHash com =
     (case com of
        None \<Rightarrow> Some (ErrOther ''nil commit'')
      | Some c \<Rightarrow>
          if c_Height c \<noteq> height then Some (ErrOther ''commit height does not match expected'')
          else if c_BlockHash c \<noteq> blockHash then Some (ErrOther ''commit block hash does not match'')
          else
            let votingPower = vs_commit_power verify vs (makeCommitSignBytes height (c_Round c) blockHash)
                  (c_Signatures c) 0;
                quorum = (if vs_totalPower vs > MaxInt64 div 2
                          then go_div (vs_totalPower vs) 3 * 2 + 1
                          else go_div (i64 (2 * vs_totalPower vs)) 3 + 1)
            in if votingPower < quorum then Some ErrInsufficientQuorum else None)"

definition vs_Validators :: "simpleValidatorSet \<Rightarrow> validator list" where
  "vs_Validators vs = vs_validators vs"

definition vs_Copy :: "simpleValidatorSet \<Rightarrow> simpleValidatorSet" where
  "vs_Copy vs = \<lparr>vs_validators = map (\<lambda>v. \<lparr>v_Index = v_Index v, v_Address = v_Address v,
       v_PublicKey = v_PublicKey v, v_VotingPower = v_VotingPower v,
       v_ProposerPriority = v_ProposerPriority v\<rparr>) (vs_validators vs),
     vs_totalPower = vs_totalPower vs, vs_epoch = vs_epoch vs\<rparr>"

section \<open>IndexedValidatorSet\<close>

record indexedValidatorSet =
  iv_set :: simpleValidatorSet
  iv_byAddress :: "(bytes, validator) fmap"

definition build_index :: "validator list \<Rightarrow> (bytes, validator) fmap" where
  "build_index vals = fold (\<lambda>v m. fmupd (v_Address v) v m) vals fmempty"

definition NewIndexedValidatorSet :: "validator option list \<Rightarrow> 64 word \<Rightarrow> error + indexedValidatorSet" where
  "NewIndexedValidatorSet validators epoch =
     (case NewSimpleValidatorSet validators epoch of
        Inl e \<Rightarrow> Inl e
      | Inr simple \<Rightarrow> Inr \<lparr>iv_set = simple, iv_byAddress = build_index (vs_validators simple)\<rparr>)"

definition iv_GetByAddress :: "indexedValidatorSet \<Rightarrow> bytes \<Rightarrow> validator option" where
  "iv_GetByAddress vs address = fmlookup (iv_byAddress vs) address"

definition iv_Contains :: "indexedValidatorSet \<Rightarrow> bytes \<Rightarrow> bool" where
  "iv_Contains vs address \<longleftrightarrow> fmlookup (iv_byAddress vs) address \<noteq> None"

definition iv_Copy :: "indexedValidatorSet \<Rightarrow> indexedValidatorSet" where
  "iv_Copy vs = (let simple = vs_Copy (iv_set vs)
     in \<lparr>iv_set = simple, iv_byAddress = build_index (vs_validators simple)\<rparr>)"

section \<open>The interface\<close>

record 'v validatorSet =
  Count :: "'v \<Rightarrow> nat"
  GetByIndex :: "'v \<Rightarrow> 16 word \<Rightarrow> validator option"
  GetByAddress :: "'v \<Rightarrow> bytes \<Rightarrow> validator option"
  Contains :: "'v \<Rightarrow> bytes \<Rightarrow> bool"
  GetProposer :: "'v \<Rightarrow> int \<Rightarrow> int \<Rightarrow> validator option option"
  TotalVotingPower :: "'v \<Rightarrow> int"
  Quorum :: "'v \<Rightarrow> int"
  Validators :: "'v \<Rightarrow> validator list"

definition simple_set :: "simpleValidatorSet validatorSet" where
  "simple_set = \<lparr>Count = vs_Count, GetByIndex = vs_GetByIndex, GetByAddress = vs_GetByAddress,
     Contains = vs_Contains, GetProposer = vs_GetProposer, TotalVotingPower = vs_TotalVotingPower,
     Quorum = vs_Quorum, Validators = vs_Validators\<rparr>"

text \<open>The methods of the embedded set are promoted; two are overridden.\<close>

definition indexed_set :: "indexedValidatorSet validatorSet" where
  "indexed_set = \<lparr>Count = vs_Count \<circ> iv_set, GetByIndex = vs_GetByIndex \<circ> iv_set,
     GetByAddress = iv_GetByAddress, Contains = iv_Contains, GetProposer = vs_GetProposer \<circ> iv_set,
     TotalVotingPower = vs_TotalVotingPower \<circ> iv_set, Quorum = vs_Quorum \<circ> iv_set,
     Validators = vs_Validators \<circ> iv_set\<rparr>"

text \<open>The power of the validators at the positions in \<open>A\<close>.\<close>

definition power_at :: "validator list \<Rightarrow> nat set \<Rightarrow> int" where
  "power_at vals A = (\<Sum>i\<in>A. v_VotingPower (vals ! i))"

locale validator_set =
  fixes V :: "('v, 'z) validatorSet_scheme"
    and inv :: "'v \<Rightarrow> bool"
    and members :: "'v \<Rightarrow> validator list"
  assumes count: "inv vs \<Longrightarrow> Count V vs = length (members vs)"
    and by_index: "inv vs \<Longrightarrow> GetByIndex V vs i =
      (if unat i < length (members vs) then Some (members vs ! unat i) else None)"
    and by_address: "inv vs \<Longrightarrow> GetByAddress V vs a = Some v \<longleftrightarrow> v \<in> set (members vs) \<and> v_Address v = a"
    and contains: "inv vs \<Longrightarrow> Contains V vs a \<longleftrightarrow> GetByAddress V vs a \<noteq> None"
    and index: "inv vs \<Longrightarrow> k < length (members vs) \<Longrightarrow> unat (v_Index (members vs ! k)) = k"
    and power: "inv vs \<Longrightarrow> v \<in> set (members vs) \<Longrightarrow> 0 < v_VotingPower v"
    and total: "inv vs \<Longrightarrow> TotalVotingPower V vs = power_at (members vs) {..<length (members vs)}"
    and total_range: "inv vs \<Longrightarrow> in_i64 (TotalVotingPower V vs)"
    and quorum_min: "inv vs \<Longrightarrow> 2 * TotalVotingPower V vs < 3 * Quorum V vs"
    and quorum_max: "inv vs \<Longrightarrow> members vs \<noteq> [] \<Longrightarrow> Quorum V vs \<le> TotalVotingPower V vs"
    and proposer: "inv vs \<Longrightarrow> members vs \<noteq> [] \<Longrightarrow> in_i64 (h + r) \<Longrightarrow> 0 \<le> h + r \<Longrightarrow>
      GetProposer V vs h r = Some (Some (members vs ! nat ((h + r) mod int (length (members vs)))))"
    and validators: "inv vs \<Longrightarrow> Validators V vs = members vs"
begin

text \<open>Index and address of a member lead to each other.\<close>

lemma index_address:
  assumes "inv vs" "GetByIndex V vs i = Some v"
  shows "v_Index v = i \<and> GetByAddress V vs (v_Address v) = Some v \<and> Contains V vs (v_Address v)"
proof -
  have i: "unat i < length (members vs)" "v = members vs ! unat i"
    using assms by_index [OF assms(1), of i] by (auto split: if_splits)
  have "unat (v_Index v) = unat i" using index [OF assms(1) i(1)] i(2) by simp
  then have "v_Index v = i" by (simp add: word_eq_iff_unsigned [symmetric] unsigned_word_eqI)
  moreover have "GetByAddress V vs (v_Address v) = Some v" using by_address [OF assms(1)] i by simp
  ultimately show ?thesis using contains [OF assms(1)] by simp
qed

lemma power_at_mono:
  assumes "inv vs" "A \<subseteq> B" "B \<subseteq> {..<length (members vs)}"
  shows "power_at (members vs) A \<le> power_at (members vs) B"
  unfolding power_at_def
proof (rule sum_mono2)
  show "finite B" using assms(3) finite_subset by blast
  show "0 \<le> v_VotingPower (members vs ! i)" if "i \<in> B - A" for i
    using power [OF assms(1), of "members vs ! i"] that assms(3) by fastforce
qed (rule assms(2))

text \<open>Two quorums have more than a third of the power in common.\<close>

lemma quorum_overlap:
  assumes vs: "inv vs" and A: "A \<subseteq> {..<length (members vs)}" and B: "B \<subseteq> {..<length (members vs)}"
    and qA: "Quorum V vs \<le> power_at (members vs) A" and qB: "Quorum V vs \<le> power_at (members vs) B"
  shows "TotalVotingPower V vs < 3 * power_at (members vs) (A \<inter> B)"
proof -
  have fin: "finite A" "finite B" using A B finite_subset by blast+
  have "power_at (members vs) A + power_at (members vs) B
      = power_at (members vs) (A \<union> B) + power_at (members vs) (A \<inter> B)"
    unfolding power_at_def using sum.union_inter [OF fin, of "\<lambda>i. v_VotingPower (members vs ! i)"] by simp
  moreover have "power_at (members vs) (A \<union> B) \<le> TotalVotingPower V vs"
    unfolding total [OF vs] by (rule power_at_mono [OF vs]) (use A B in auto)
  ultimately show ?thesis using quorum_min [OF vs] qA qB by linarith
qed

text \<open>Every validator proposes in one of any \<open>n\<close> consecutive rounds of a height.\<close>

lemma proposer_rotates:
  assumes vs: "inv vs" and m: "v \<in> set (members vs)" and h: "0 \<le> h + r"
    and bound: "in_i64 (h + r + int (length (members vs)))"
  shows "\<exists>k < length (members vs). GetProposer V vs h (r + int k) = Some (Some v)"
proof -
  let ?n = "length (members vs)"
  obtain j where j: "j < ?n" "members vs ! j = v" using m by (metis in_set_conv_nth)
  let ?k = "nat ((int j - (h + r)) mod int ?n)"
  have n: "0 < int ?n" using j(1) by linarith
  have k: "int ?k = (int j - (h + r)) mod int ?n" by (rule nat_0_le [OF pos_mod_sign [OF n]])
  have lt: "?k < ?n" using pos_mod_bound [OF n, of "int j - (h + r)"] k by linarith
  have "(h + (r + int ?k)) mod int ?n = int j mod int ?n"
    unfolding k by (simp add: mod_simps flip: add.assoc)
  then have idx: "nat ((h + (r + int ?k)) mod int ?n) = j" using j(1) by simp
  have "int ?k < int ?n" using lt by linarith
  then have "in_i64 (h + (r + int ?k))" using bound h unfolding in_i64_def by linarith
  moreover have "0 \<le> h + (r + int ?k)" using h by linarith
  moreover have "members vs \<noteq> []" using m by auto
  ultimately have "GetProposer V vs h (r + int ?k) = Some (Some v)"
    using proposer [OF vs, of h "r + int ?k"] unfolding idx j(2) by blast
  with lt show ?thesis by blast
qed

end

section \<open>Construction\<close>

definition vs_inv :: "simpleValidatorSet \<Rightarrow> bool" where
  "vs_inv vs \<longleftrightarrow>
     length (vs_validators vs) \<le> 2 ^ 16 \<and> distinct (map v_Address (vs_validators vs)) \<and>
     (\<forall>i < length (vs_validators vs). v_Index (vs_validators vs ! i) = word_of_nat i) \<and>
     (\<forall>v \<in> set (vs_validators vs). 0 < v_VotingPower v) \<and>
     vs_totalPower vs = sum_list (map v_VotingPower (vs_validators vs)) \<and>
     vs_totalPower vs \<le> MaxInt64 div 2"

definition acceptable :: "validator option list \<Rightarrow> bool" where
  "acceptable vals \<longleftrightarrow> None \<notin> set vals \<and> (\<forall>v \<in> set vals. 0 < v_VotingPower (the v)) \<and>
     distinct (map (v_Address \<circ> the) vals)"

lemma vs_check_Inr:
  "in_i64 t \<Longrightarrow> vs_check vals seen t = Inr p \<longleftrightarrow>
     acceptable vals \<and> (v_Address \<circ> the) ` set vals \<inter> seen = {} \<and>
     p = i64 (t + sum_list (map (v_VotingPower \<circ> the) vals))"
proof (induction vals seen t rule: vs_check.induct)
  case (3 v vals seen t)
  show ?case
  proof (cases "v_VotingPower v \<le> 0 \<or> v_Address v \<in> seen")
    case True
    then show ?thesis by (auto simp: acceptable_def)
  next
    case False
    then have "vs_check (Some v # vals) seen t = Inr p \<longleftrightarrow>
        acceptable vals \<and> (v_Address \<circ> the) ` set vals \<inter> insert (v_Address v) seen = {} \<and>
        p = i64 (i64 (t + v_VotingPower v) + sum_list (map (v_VotingPower \<circ> the) vals))"
      using 3 by (simp add: comp_def)
    then show ?thesis using False by (auto simp: acceptable_def ac_simps comp_def)
  qed
qed (auto simp: acceptable_def)

lemma NewSimple_cases:
  "NewSimpleValidatorSet vals epoch = Inr vs \<longleftrightarrow>
     acceptable vals \<and>
     vs = \<lparr>vs_validators = map (\<lambda>(i, v). (the v)\<lparr>v_Index := word_of_nat i\<rparr>) (enumerate 0 vals),
           vs_totalPower = i64 (sum_list (map (v_VotingPower \<circ> the) vals)), vs_epoch = epoch\<rparr>"
proof (cases "vals = []")
  case True
  then show ?thesis by (auto simp: NewSimpleValidatorSet_def acceptable_def i64_def)
next
  case False
  have "in_i64 0" by (simp add: in_i64_def)
  then show ?thesis
    using False vs_check_Inr [of 0 vals "{}"]
    by (cases "vs_check vals {} 0") (auto simp: NewSimpleValidatorSet_def)
qed

lemma indexed_copies_map:
  "(\<And>v i. f (v\<lparr>v_Index := i\<rparr>) = f v) \<Longrightarrow>
   map f (map (\<lambda>(i, v). (the v)\<lparr>v_Index := word_of_nat i\<rparr>) (enumerate k vals)) = map (f \<circ> the) vals"
  by (induction vals arbitrary: k) auto

lemma NewSimple_inv:
  assumes new: "NewSimpleValidatorSet vals epoch = Inr vs" and n: "length vals \<le> 2 ^ 16"
    and t: "sum_list (map (v_VotingPower \<circ> the) vals) \<le> MaxInt64 div 2"
  shows "vs_inv vs"
proof -
  have ok: "acceptable vals" and
    vs: "vs = \<lparr>vs_validators = map (\<lambda>(i, v). (the v)\<lparr>v_Index := word_of_nat i\<rparr>) (enumerate 0 vals),
           vs_totalPower = i64 (sum_list (map (v_VotingPower \<circ> the) vals)), vs_epoch = epoch\<rparr>"
    using new by (auto simp: NewSimple_cases)
  have pow: "map v_VotingPower (vs_validators vs) = map (v_VotingPower \<circ> the) vals"
    and addr: "map v_Address (vs_validators vs) = map (v_Address \<circ> the) vals"
    unfolding vs simpleValidatorSet.simps by (rule indexed_copies_map; simp)+
  have nn: "0 \<le> sum_list (map (v_VotingPower \<circ> the) vals)"
    using ok by (intro sum_list_nonneg) (auto simp: acceptable_def)
  have "in_i64 (sum_list (map (v_VotingPower \<circ> the) vals))" using nn t by (simp add: in_i64_def)
  then have tot: "vs_totalPower vs = sum_list (map v_VotingPower (vs_validators vs))"
    unfolding pow by (simp add: vs)
  have "0 < v_VotingPower v" if "v \<in> set (vs_validators vs)" for v
  proof -
    have "v_VotingPower v \<in> set (map v_VotingPower (vs_validators vs))" using that by simp
    then show ?thesis unfolding pow using ok by (auto simp: acceptable_def)
  qed
  moreover have "v_Index (vs_validators vs ! i) = word_of_nat i" if "i < length (vs_validators vs)" for i
    using that by (simp add: vs nth_enumerate_eq)
  moreover have "length (vs_validators vs) = length vals" by (simp add: vs)
  moreover have "distinct (map v_Address (vs_validators vs))" unfolding addr using ok by (simp add: acceptable_def)
  moreover have "vs_totalPower vs \<le> MaxInt64 div 2" unfolding tot pow by (rule t)
  ultimately show ?thesis using n tot unfolding vs_inv_def by simp
qed

section \<open>Both sets keep the contract\<close>

lemma power_at_all: "power_at vals {..<length vals} = sum_list (map v_VotingPower vals)"
  by (simp add: power_at_def sum_list_sum_nth atLeast0LessThan)

lemma sum_powers_pos:
  "\<forall>v \<in> set vals. 0 < v_VotingPower v \<Longrightarrow> 0 \<le> sum_list (map v_VotingPower vals) \<and>
     (vals \<noteq> [] \<longrightarrow> 0 < sum_list (map v_VotingPower vals))"
  by (induction vals) auto

lemma vs_quorum_small:
  assumes "vs_inv vs"
  shows "vs_Quorum vs = 2 * vs_totalPower vs div 3 + 1" and "0 \<le> vs_totalPower vs"
proof -
  show nn: "0 \<le> vs_totalPower vs"
    using assms sum_powers_pos [of "vs_validators vs"] by (simp add: vs_inv_def)
  have "vs_totalPower vs \<le> MaxInt64 div 2" using assms by (simp add: vs_inv_def)
  then show "vs_Quorum vs = 2 * vs_totalPower vs div 3 + 1"
    using nn by (simp add: vs_Quorum_def in_i64_def)
qed

lemma find_distinct:
  "distinct (map f xs) \<Longrightarrow> List.find (\<lambda>x. f x = a) xs = Some x \<longleftrightarrow> x \<in> set xs \<and> f x = a"
  by (induction xs) (auto simp: image_iff)

lemma unat_small_index: "i < 2 ^ 16 \<Longrightarrow> unat (word_of_nat i :: 16 word) = i"
  by (simp add: unat_of_nat take_bit_nat_eq_self)

interpretation sv: validator_set simple_set vs_inv vs_validators
proof (unfold_locales, goal_cases)
  case (1 vs)
  then show ?case by (simp add: simple_set_def vs_Count_def)
next
  case (2 vs i)
  then show ?case by (simp add: simple_set_def vs_GetByIndex_def)
next
  case (3 vs a v)
  then show ?case by (simp add: simple_set_def vs_GetByAddress_def vs_inv_def find_distinct)
next
  case (4 vs a)
  then show ?case by (simp add: simple_set_def vs_Contains_def)
next
  case (5 vs k)
  then show ?case by (simp add: vs_inv_def unat_small_index)
next
  case (6 vs v)
  then show ?case by (simp add: vs_inv_def)
next
  case (7 vs)
  then show ?case by (simp add: simple_set_def vs_TotalVotingPower_def power_at_all vs_inv_def)
next
  case (8 vs)
  then show ?case using vs_quorum_small(2) [OF 8]
    by (simp add: simple_set_def vs_TotalVotingPower_def vs_inv_def in_i64_def)
next
  case (9 vs)
  then show ?case using vs_quorum_small [OF 9] by (simp add: simple_set_def vs_TotalVotingPower_def)
next
  case (10 vs)
  have "1 \<le> vs_totalPower vs"
    using 10 sum_powers_pos [of "vs_validators vs"] by (simp add: vs_inv_def)
  then show ?case using vs_quorum_small [OF 10(1)] by (simp add: simple_set_def vs_TotalVotingPower_def)
next
  case (11 vs h r)
  then have "0 < length (vs_validators vs)" by simp
  then show ?case using 11 by (simp add: simple_set_def vs_GetProposer_def Let_def)
next
  case (12 vs)
  then show ?case by (simp add: simple_set_def vs_Validators_def)
qed

lemma build_index_lookup:
  assumes "distinct (map v_Address vals)"
  shows "fmlookup (build_index vals) a = List.find (\<lambda>v. v_Address v = a) vals"
proof -
  have "distinct (map v_Address vals) \<Longrightarrow> fmlookup (fold (\<lambda>v. fmupd (v_Address v) v) vals m) a =
      (case List.find (\<lambda>v. v_Address v = a) vals of Some v \<Rightarrow> Some v | None \<Rightarrow> fmlookup m a)" for m
  proof (induction vals arbitrary: m)
    case (Cons v vals)
    have "List.find (\<lambda>v. v_Address v = a) vals = None" if "v_Address v = a"
      using Cons.prems that by (auto simp: find_None_iff image_iff)
    then show ?case using Cons by (auto split: option.splits)
  qed simp
  from this [OF assms, of fmempty] show ?thesis by (simp add: build_index_def split: option.splits)
qed

definition iv_inv :: "indexedValidatorSet \<Rightarrow> bool" where
  "iv_inv vs \<longleftrightarrow> vs_inv (iv_set vs) \<and> iv_byAddress vs = build_index (vs_validators (iv_set vs))"

lemma iv_GetByAddress_eq: "iv_inv vs \<Longrightarrow> iv_GetByAddress vs a = vs_GetByAddress (iv_set vs) a"
  by (simp add: iv_inv_def iv_GetByAddress_def vs_GetByAddress_def build_index_lookup vs_inv_def)

interpretation iv: validator_set indexed_set iv_inv "\<lambda>vs. vs_validators (iv_set vs)"
proof (unfold_locales, goal_cases)
  case (1 vs)
  then show ?case by (simp add: indexed_set_def vs_Count_def)
next
  case (2 vs i)
  then show ?case by (simp add: indexed_set_def vs_GetByIndex_def)
next
  case (3 vs a v)
  then show ?case using sv.by_address [of "iv_set vs" a v]
    by (simp add: indexed_set_def simple_set_def iv_GetByAddress_eq iv_inv_def)
next
  case (4 vs a)
  then show ?case by (simp add: indexed_set_def iv_Contains_def iv_GetByAddress_def)
next
  case (5 vs k)
  then show ?case using sv.index [of "iv_set vs" k] by (simp add: iv_inv_def)
next
  case (6 vs v)
  then show ?case using sv.power [of "iv_set vs" v] by (simp add: iv_inv_def)
next
  case (7 vs)
  then show ?case using sv.total [of "iv_set vs"] by (simp add: iv_inv_def indexed_set_def simple_set_def)
next
  case (8 vs)
  then show ?case using sv.total_range [of "iv_set vs"] by (simp add: iv_inv_def indexed_set_def simple_set_def)
next
  case (9 vs)
  then show ?case using sv.quorum_min [of "iv_set vs"] by (simp add: iv_inv_def indexed_set_def simple_set_def)
next
  case (10 vs)
  then show ?case using sv.quorum_max [of "iv_set vs"] by (simp add: iv_inv_def indexed_set_def simple_set_def)
next
  case (11 vs h r)
  then show ?case using sv.proposer [of "iv_set vs" h r] by (simp add: iv_inv_def indexed_set_def simple_set_def)
next
  case (12 vs)
  then show ?case by (simp add: indexed_set_def vs_Validators_def)
qed

section \<open>Sign bytes\<close>

lemma makeCommitSignBytes_be: "makeCommitSignBytes h r b = be_bytes 8 h @ be_bytes 4 r @ b"
  by (simp add: makeCommitSignBytes_def be_bytes_def upt_rec)

definition in_i32 :: "int \<Rightarrow> bool" where
  "in_i32 x \<longleftrightarrow> - (2 ^ 31) \<le> x \<and> x < 2 ^ 31"

lemma sign_bytes_inj:
  assumes eq: "makeCommitSignBytes h r b = makeCommitSignBytes h' r' b'"
    and i: "in_i64 h" "in_i64 h'" "in_i32 r" "in_i32 r'"
  shows "h = h' \<and> r = r' \<and> b = b'"
proof -
  have e: "be_bytes 8 h = be_bytes 8 h'" "be_bytes 4 r = be_bytes 4 r'" "b = b'"
    using eq by (simp_all add: makeCommitSignBytes_be append_eq_append_conv)
  have "h = h'"
    using be_bytes_inj [OF e(1)] i(1,2) by (intro mod_inj_in_range [of h 63 h']) (simp_all add: in_i64_def)
  moreover have "r = r'"
    using be_bytes_inj [OF e(2)] i(3,4) by (intro mod_inj_in_range [of r 31 r']) (simp_all add: in_i32_def)
  ultimately show ?thesis using e(3) by simp
qed

section \<open>Commits\<close>

definition signers :: "(bytes \<Rightarrow> bytes \<Rightarrow> bytes \<Rightarrow> bool) \<Rightarrow> simpleValidatorSet \<Rightarrow> bytes \<Rightarrow> commitSig list \<Rightarrow> nat set" where
  "signers verify vs signBytes sigs =
     (\<lambda>sig. unat (cs_ValidatorIndex sig)) ` {sig \<in> set sigs. vs_counts verify vs signBytes sig}"

lemma signers_Cons:
  "signers verify vs sb (sig # sigs) =
     (if vs_counts verify vs sb sig then insert (unat (cs_ValidatorIndex sig)) (signers verify vs sb sigs)
      else signers verify vs sb sigs)"
  by (auto simp: signers_def)

lemma vs_counts_index:
  "vs_counts verify vs sb sig \<Longrightarrow> unat (cs_ValidatorIndex sig) < length (vs_validators vs)"
  by (auto simp: vs_counts_def Let_def split: option.splits if_splits)

lemma signers_bound: "signers verify vs sb sigs \<subseteq> {..<length (vs_validators vs)}"
  by (auto simp: signers_def vs_counts_index)

lemma finite_signers [simp]: "finite (signers verify vs sb sigs)"
  by (simp add: signers_def)

lemma power_at_bounds:
  assumes "vs_inv vs" "A \<subseteq> {..<length (vs_validators vs)}"
  shows "0 \<le> power_at (vs_validators vs) A" "power_at (vs_validators vs) A \<le> vs_totalPower vs"
    "in_i64 (power_at (vs_validators vs) A)"
proof -
  show l: "0 \<le> power_at (vs_validators vs) A"
    using sv.power_at_mono [OF assms(1) _ assms(2), of "{}"] by (simp add: power_at_def)
  show u: "power_at (vs_validators vs) A \<le> vs_totalPower vs"
    using sv.power_at_mono [OF assms(1) assms(2)] sv.total [OF assms(1)]
    by (simp add: simple_set_def vs_TotalVotingPower_def)
  have "vs_totalPower vs \<le> MaxInt64 div 2" using assms(1) by (simp add: vs_inv_def)
  then show "in_i64 (power_at (vs_validators vs) A)" using l u by (simp add: in_i64_def)
qed

text \<open>When no validator is listed twice, the loop adds up the power of the signers.\<close>

lemma vs_commit_power_signers:
  assumes vs: "vs_inv vs"
  shows "A \<subseteq> {..<length (vs_validators vs)} \<Longrightarrow> distinct (map cs_ValidatorIndex sigs) \<Longrightarrow>
    (\<forall>sig \<in> set sigs. unat (cs_ValidatorIndex sig) \<notin> A) \<Longrightarrow>
    vs_commit_power verify vs sb sigs (power_at (vs_validators vs) A) =
      power_at (vs_validators vs) (A \<union> signers verify vs sb sigs)"
proof (induction sigs arbitrary: A)
  case Nil
  then show ?case by (simp add: signers_def)
next
  case (Cons sig sigs)
  let ?i = "unat (cs_ValidatorIndex sig)"
  show ?case
  proof (cases "vs_counts verify vs sb sig")
    case True
    have A: "insert ?i A \<subseteq> {..<length (vs_validators vs)}" using Cons.prems(1) vs_counts_index [OF True] by simp
    have fin: "finite A" using Cons.prems(1) finite_subset by blast
    have add: "power_at (vs_validators vs) A + v_VotingPower (vs_validators vs ! ?i)
        = power_at (vs_validators vs) (insert ?i A)"
      using fin Cons.prems(3) by (simp add: power_at_def)
    have "\<forall>s \<in> set sigs. unat (cs_ValidatorIndex s) \<notin> insert ?i A"
      using Cons.prems(2,3) by (auto simp: image_iff) (metis unsigned_word_eqI)
    from Cons.IH [OF A _ this] Cons.prems(2) power_at_bounds(3) [OF vs A]
    show ?thesis using True by (simp add: add signers_Cons)
  next
    case False
    then show ?thesis using Cons by (simp add: signers_Cons)
  qed
qed

lemma VerifyCommit_iff:
  "vs_VerifyCommit verify vs h b (Some c) = None \<longleftrightarrow> c_Height c = h \<and> c_BlockHash c = b \<and>
     vs_Quorum vs \<le> vs_commit_power verify vs (makeCommitSignBytes h (c_Round c) b) (c_Signatures c) 0"
  by (simp add: vs_VerifyCommit_def vs_Quorum_def Let_def not_less)

lemma VerifyCommit_quorum:
  assumes vs: "vs_inv vs" and ok: "vs_VerifyCommit verify vs h b (Some c) = None"
    and d: "distinct (map cs_ValidatorIndex (c_Signatures c))"
  shows "vs_Quorum vs \<le> power_at (vs_validators vs)
    (signers verify vs (makeCommitSignBytes h (c_Round c) b) (c_Signatures c))"
  using ok vs_commit_power_signers [OF vs, of "{}" "c_Signatures c"] d
  by (simp add: VerifyCommit_iff power_at_def)

lemma two_thirds: "1 \<le> t \<Longrightarrow> 0 < 2 * t div 3 + 1 \<and> 2 * t div 3 + 1 \<le> (t :: int)"
  by presburger

lemma ceil_div:
  assumes "0 < w" "0 < q"
  shows "\<exists>n. q \<le> int n * w \<and> int n * w \<le> q + w - (1 :: int)"
proof -
  have "0 \<le> (q + w - 1) div w" using assms by (simp add: pos_imp_zdiv_nonneg_iff)
  then have "int (nat ((q + w - 1) div w)) * w = q + w - 1 - (q + w - 1) mod w"
    by (simp add: minus_mod_eq_div_mult)
  then show ?thesis
    using pos_mod_sign [OF assms(1), of "q + w - 1"] pos_mod_bound [OF assms(1), of "q + w - 1"]
    by (intro exI [of _ "nat ((q + w - 1) div w)"]) linarith
qed

lemma vs_commit_power_replicate:
  assumes "vs_counts verify vs sb sig" "0 \<le> w" "w = v_VotingPower (vs_validators vs ! unat (cs_ValidatorIndex sig))"
  shows "0 \<le> acc \<Longrightarrow> acc + int n * w \<le> MaxInt64 \<Longrightarrow>
    vs_commit_power verify vs sb (replicate n sig) acc = acc + int n * w"
proof (induction n arbitrary: acc)
  case (Suc n)
  have "0 \<le> int n * w" using assms(2) by simp
  then have "acc + w \<le> MaxInt64" using Suc.prems(2) by (simp add: algebra_simps)
  then have "i64 (acc + w) = acc + w" using Suc.prems(1) assms(2) by (simp add: in_i64_def)
  then show ?case using Suc assms by (simp add: algebra_simps)
qed simp

section \<open>Properties\<close>


text \<open>
  C10: The sign bytes of a commit determine height, round and block hash: no signature for one
  commit is a signature for another.
\<close>

theorem commit_sign_bytes_injective:
  "in_i64 h \<Longrightarrow> in_i64 h' \<Longrightarrow> in_i32 r \<Longrightarrow> in_i32 r' \<Longrightarrow>
   makeCommitSignBytes h r b = makeCommitSignBytes h' r' b' \<longleftrightarrow> h = h' \<and> r = r' \<and> b = b'"
  using sign_bytes_inj by blast

text \<open>
  C32: \<open>VerifyCommit\<close> counts a validator once per listed signature: one validator of the set with
  one valid signature suffices for a commit that is accepted.
\<close>

theorem one_signer_forges_commit:
  assumes vs: "vs_inv vs" and i: "unat i < length (vs_validators vs)"
    and key: "length (v_PublicKey (vs_validators vs ! unat i)) = PublicKeySize"
    and sig: "length s = SignatureSize"
      "verify (v_PublicKey (vs_validators vs ! unat i)) (makeCommitSignBytes h r b) s"
  shows "\<exists>c. vs_VerifyCommit verify vs h b (Some c) = None \<and> (\<forall>x \<in> set (c_Signatures c). cs_ValidatorIndex x = i)"
proof -
  let ?sig = "\<lparr>cs_ValidatorIndex = i, cs_Signature = Some s, cs_Timestamp = 0\<rparr>"
  let ?c = "\<lambda>n. \<lparr>c_Height = h, c_Round = r, c_BlockHash = b, c_Signatures = replicate n ?sig\<rparr>"
  define w where "w = v_VotingPower (vs_validators vs ! unat i)"
  have w: "0 < w" using sv.power [OF vs, of "vs_validators vs ! unat i"] i by (simp add: w_def)
  have T: "vs_totalPower vs \<le> MaxInt64 div 2" using vs by (simp add: vs_inv_def)
  have wT: "w \<le> vs_totalPower vs"
    using power_at_bounds(2) [OF vs, of "{unat i}"] i by (simp add: power_at_def w_def)
  have Q: "0 < vs_Quorum vs" "vs_Quorum vs \<le> vs_totalPower vs"
    using two_thirds [of "vs_totalPower vs"] wT w unfolding vs_quorum_small(1) [OF vs] by linarith+
  obtain n where n: "vs_Quorum vs \<le> int n * w" "int n * w \<le> vs_Quorum vs + w - 1"
    using ceil_div [OF w Q(1)] by blast
  have counts: "vs_counts verify vs (makeCommitSignBytes h r b) ?sig"
    using i key sig by (simp add: vs_counts_def Let_def)
  have "0 + int n * w \<le> MaxInt64" using n(2) Q wT T by linarith
  then have "vs_commit_power verify vs (makeCommitSignBytes h r b) (replicate n ?sig) 0 = int n * w"
    using vs_commit_power_replicate [OF counts, of w 0 n] w by (simp add: w_def)
  then have "vs_VerifyCommit verify vs h b (Some (?c n)) = None"
    using n(1) by (simp add: VerifyCommit_iff)
  moreover have "\<forall>x \<in> set (c_Signatures (?c n)). cs_ValidatorIndex x = i" by simp
  ultimately show ?thesis by blast
qed

text \<open>
  C11: \<open>Quorum\<close> is more than two thirds of the total power and never above it, as long as the
  total is at most half of the int64 range; the set built by \<open>NewSimpleValidatorSet\<close> has the
  exact total.
\<close>

theorem new_set_quorum:
  assumes new: "NewSimpleValidatorSet vals epoch = Inr vs" and n: "vals \<noteq> []" "length vals \<le> 2 ^ 16"
    and t: "sum_list (map (v_VotingPower \<circ> the) vals) \<le> MaxInt64 div 2"
  shows "vs_TotalVotingPower vs = sum_list (map (v_VotingPower \<circ> the) vals) \<and>
    2 * vs_TotalVotingPower vs < 3 * vs_Quorum vs \<and> vs_Quorum vs \<le> vs_TotalVotingPower vs \<and>
    (\<forall>i. vs_GetByIndex vs i \<noteq> None \<longleftrightarrow> unat i < length vals) \<and>
    (\<forall>i v. vs_GetByIndex vs i = Some v \<longrightarrow> v_Index v = i \<and> vs_GetByAddress vs (v_Address v) = Some v)"
proof -
  have vs: "vs_inv vs" by (rule NewSimple_inv [OF new n(2) t])
  have eq: "vs_validators vs = map (\<lambda>(i, v). (the v)\<lparr>v_Index := word_of_nat i\<rparr>) (enumerate 0 vals)"
    using new by (simp add: NewSimple_cases)
  have "map v_VotingPower (vs_validators vs) = map (v_VotingPower \<circ> the) vals"
    unfolding eq by (rule indexed_copies_map) simp
  then have "vs_totalPower vs = sum_list (map (v_VotingPower \<circ> the) vals)"
    using vs by (simp add: vs_inv_def)
  moreover have "length (vs_validators vs) = length vals" by (simp add: eq)
  moreover have "vs_validators vs \<noteq> []" unfolding eq using n(1) by (cases vals) simp_all
  moreover have "2 * vs_TotalVotingPower vs < 3 * vs_Quorum vs"
    using sv.quorum_min [OF vs] by (simp add: simple_set_def)
  moreover have "vs_Quorum vs \<le> vs_TotalVotingPower vs" if "vs_validators vs \<noteq> []"
    using sv.quorum_max [OF vs that] by (simp add: simple_set_def)
  moreover have "v_Index v = i \<and> vs_GetByAddress vs (v_Address v) = Some v" if "vs_GetByIndex vs i = Some v" for i v
    using sv.index_address [OF vs, of i v] that by (simp add: simple_set_def)
  moreover have "vs_GetByIndex vs i \<noteq> None \<longleftrightarrow> unat i < length (vs_validators vs)" for i
    by (simp add: vs_GetByIndex_def)
  ultimately show ?thesis unfolding vs_TotalVotingPower_def by metis
qed



section \<open>Witnesses\<close>

text \<open>
  Four validators of power 10. The signature scheme of the example accepts a signature whose
  first half is the key.
\<close>

definition ex_validator :: "byte \<Rightarrow> validator option" where
  "ex_validator k = Some \<lparr>v_Index = 0, v_Address = [k], v_PublicKey = replicate 32 k, v_VotingPower = 10,
     v_ProposerPriority = 0\<rparr>"

definition ex_validators :: "validator option list" where
  "ex_validators = [ex_validator 1, ex_validator 2, ex_validator 3, ex_validator 4]"

definition ex_set :: simpleValidatorSet where
  "ex_set = \<lparr>vs_validators = map (\<lambda>(i, v). (the v)\<lparr>v_Index := word_of_nat i\<rparr>) (enumerate 0 ex_validators),
     vs_totalPower = 40, vs_epoch = 0\<rparr>"

definition ex_verify :: "bytes \<Rightarrow> bytes \<Rightarrow> bytes \<Rightarrow> bool" where
  "ex_verify key msg s \<longleftrightarrow> take 32 s = key"

definition ex_sig :: "16 word \<Rightarrow> byte \<Rightarrow> commitSig" where
  "ex_sig i k = \<lparr>cs_ValidatorIndex = i, cs_Signature = Some (replicate 64 k), cs_Timestamp = 0\<rparr>"

definition ex_commit :: "bytes \<Rightarrow> commitSig list \<Rightarrow> commit" where
  "ex_commit b sigs = \<lparr>c_Height = 7, c_Round = 0, c_BlockHash = b, c_Signatures = sigs\<rparr>"

lemma ex_set_new: "NewSimpleValidatorSet ex_validators 0 = Inr ex_set"
  by (simp add: NewSimpleValidatorSet_def ex_set_def ex_validators_def ex_validator_def in_i64_def)

lemma ex_set_power: "sum_list (map (v_VotingPower \<circ> the) ex_validators) \<le> MaxInt64 div 2"
  by (simp add: ex_validators_def ex_validator_def)

lemma ex_set_inv: "vs_inv ex_set"
  by (rule NewSimple_inv [OF ex_set_new _ ex_set_power]) (simp add: ex_validators_def)


theorem commit_sign_bytes_injective_witness:
  "makeCommitSignBytes 7 1 [1] \<noteq> makeCommitSignBytes 7 (-1) [1]"
  using commit_sign_bytes_injective [of 7 7 1 "-1" "[1]" "[1]"] by (simp add: in_i64_def in_i32_def)

theorem one_signer_forges_commit_witness:
  "\<exists>c. vs_VerifyCommit ex_verify ex_set 7 [9] (Some c) = None \<and> (\<forall>x \<in> set (c_Signatures c). cs_ValidatorIndex x = 2)"
proof (rule one_signer_forges_commit [OF ex_set_inv])
  show "unat (2 :: 16 word) < length (vs_validators ex_set)" by code_simp
  show "length (v_PublicKey (vs_validators ex_set ! unat (2 :: 16 word))) = PublicKeySize" by code_simp
  show "length (replicate 64 (3 :: byte)) = SignatureSize" by simp
  show "ex_verify (v_PublicKey (vs_validators ex_set ! unat (2 :: 16 word))) (makeCommitSignBytes 7 0 [9])
      (replicate 64 3)" by code_simp
qed

theorem new_set_quorum_witness:
  "vs_TotalVotingPower ex_set = 40 \<and> 80 < 3 * vs_Quorum ex_set \<and> vs_Quorum ex_set \<le> 40"
  using new_set_quorum [OF ex_set_new _ _ ex_set_power]
  by (simp add: ex_validators_def ex_validator_def)


end
