(* ===== verification/Detector.thy ===== *)
theory Detector
  imports ValidatorSet
begin

text \<open>
  \<open>pkg/consensus/detector.go\<close>: whether this node is a validator, by key or by address, over any
  implementation of the \<open>ValidatorSet\<close> interface, and the tracker that reports changes. The calls
  the callback has received are recorded, latest first.
\<close>

section \<open>Detectors\<close>

datatype detector = KeyBasedDetector bytes | AddressBasedDetector bytes

text \<open>The loop over \<open>Validators\<close>: the position of the first match.\<close>

fun first_index :: "('a \<Rightarrow> bool) \<Rightarrow> 'a list \<Rightarrow> int \<Rightarrow> int" where
  "first_index P [] i = -1"
| "first_index P (v # vs) i = (if P v then i else first_index P vs (i + 1))"

definition key_ValidatorIndex :: "('v, 'z) validatorSet_scheme \<Rightarrow> bytes \<Rightarrow> 'v option \<Rightarrow> int" where
  "key_ValidatorIndex V publicKey valSet =
     (case valSet of
        None \<Rightarrow> -1
      | Some vs \<Rightarrow> first_index (\<lambda>v. v_PublicKey v = publicKey) (Validators V vs) 0)"

definition key_IsValidator :: "('v, 'z) validatorSet_scheme \<Rightarrow> bytes \<Rightarrow> 'v option \<Rightarrow> bool" where
  "key_IsValidator V publicKey valSet \<longleftrightarrow>
     (case valSet of None \<Rightarrow> False | Some vs \<Rightarrow> key_ValidatorIndex V publicKey valSet \<ge> 0)"

definition key_GetValidator :: "('v, 'z) validatorSet_scheme \<Rightarrow> bytes \<Rightarrow> 'v option \<Rightarrow> validator option" where
  "key_GetValidator V publicKey valSet =
     (case valSet of
        None \<Rightarrow> None
      | Some vs \<Rightarrow> List.find (\<lambda>v. v_PublicKey v = publicKey) (Validators V vs))"

definition addr_IsValidator :: "('v, 'z) validatorSet_scheme \<Rightarrow> bytes \<Rightarrow> 'v option \<Rightarrow> bool" where
  "addr_IsValidator V address valSet \<longleftrightarrow>
     (case valSet of None \<Rightarrow> False | Some vs \<Rightarrow> Contains V vs address)"

definition addr_ValidatorIndex :: "('v, 'z) validatorSet_scheme \<Rightarrow> bytes \<Rightarrow> 'v option \<Rightarrow> int" where
  "addr_ValidatorIndex V address valSet =
     (case valSet of
        None \<Rightarrow> -1
      | Some vs \<Rightarrow> first_index (\<lambda>v. v_Address v = address) (Validators V vs) 0)"

definition addr_GetValidator :: "('v, 'z) validatorSet_scheme \<Rightarrow> bytes \<Rightarrow> 'v option \<Rightarrow> validator option" where
  "addr_GetValidator V address valSet =
     (case valSet of None \<Rightarrow> None | Some vs \<Rightarrow> GetByAddress V vs address)"

text \<open>The calls through the interface \<open>ValidatorDetector\<close>.\<close>

definition det_IsValidator :: "('v, 'z) validatorSet_scheme \<Rightarrow> detector \<Rightarrow> 'v option \<Rightarrow> bool" where
  "det_IsValidator V d valSet =
     (case d of KeyBasedDetector k \<Rightarrow> key_IsValidator V k valSet | AddressBasedDetector a \<Rightarrow> addr_IsValidator V a valSet)"

definition det_ValidatorIndex :: "('v, 'z) validatorSet_scheme \<Rightarrow> detector \<Rightarrow> 'v option \<Rightarrow> int" where
  "det_ValidatorIndex V d valSet =
     (case d of KeyBasedDetector k \<Rightarrow> key_ValidatorIndex V k valSet | AddressBasedDetector a \<Rightarrow> addr_ValidatorIndex V a valSet)"

definition det_GetValidator :: "('v, 'z) validatorSet_scheme \<Rightarrow> detector \<Rightarrow> 'v option \<Rightarrow> validator option" where
  "det_GetValidator V d valSet =
     (case d of KeyBasedDetector k \<Rightarrow> key_GetValidator V k valSet | AddressBasedDetector a \<Rightarrow> addr_GetValidator V a valSet)"

lemmas det_defs = det_IsValidator_def det_ValidatorIndex_def key_IsValidator_def key_ValidatorIndex_def
  addr_IsValidator_def addr_ValidatorIndex_def

section \<open>ValidatorStatusTracker\<close>

record statusTracker =
  st_detector :: detector
  st_callback :: bool
  st_lastStatus :: bool
  st_lastIndex :: int
  st_lastValidator :: "validator option"
  st_calls :: "(bool \<times> int \<times> validator option) list"

definition NewValidatorStatusTracker :: "detector \<Rightarrow> bool \<Rightarrow> statusTracker" where
  "NewValidatorStatusTracker d callback =
     \<lparr>st_detector = d, st_callback = callback, st_lastStatus = False, st_lastIndex = -1,
      st_lastValidator = None, st_calls = []\<rparr>"

definition tracker_Update ::
  "('v, 'z) validatorSet_scheme \<Rightarrow> statusTracker \<Rightarrow> 'v option \<Rightarrow> bool \<times> statusTracker" where
  "tracker_Update V t valSet =
     (let isValidator = det_IsValidator V (st_detector t) valSet;
          index = det_ValidatorIndex V (st_detector t) valSet;
          validator = (if isValidator then det_GetValidator V (st_detector t) valSet else None);
          statusChanged = (isValidator \<noteq> st_lastStatus t \<or> index \<noteq> st_lastIndex t)
      in if statusChanged
         then (True, t\<lparr>st_lastStatus := isValidator, st_lastIndex := index, st_lastValidator := validator,
                       st_calls := (if st_callback t then (isValidator, index, validator) # st_calls t
                                    else st_calls t)\<rparr>)
         else (False, t))"

definition tracker_IsValidator :: "statusTracker \<Rightarrow> bool" where
  "tracker_IsValidator t = st_lastStatus t"

definition tracker_ValidatorIndex :: "statusTracker \<Rightarrow> int" where
  "tracker_ValidatorIndex t = st_lastIndex t"

definition tracker_Validator :: "statusTracker \<Rightarrow> validator option" where
  "tracker_Validator t = st_lastValidator t"

definition tracker_SetCallback :: "statusTracker \<Rightarrow> bool \<Rightarrow> statusTracker" where
  "tracker_SetCallback t callback = t\<lparr>st_callback := callback\<rparr>"

fun tracker_updates :: "('v, 'z) validatorSet_scheme \<Rightarrow> statusTracker \<Rightarrow> 'v option list \<Rightarrow> statusTracker" where
  "tracker_updates V t [] = t"
| "tracker_updates V t (s # ss) = tracker_updates V (snd (tracker_Update V t s)) ss"

section \<open>The tracker follows the sets\<close>

lemma first_index_find:
  "0 \<le> i \<Longrightarrow> (first_index P vs i = -1 \<longleftrightarrow> (\<forall>v \<in> set vs. \<not> P v)) \<and> (first_index P vs i = -1 \<or> i \<le> first_index P vs i)"
  by (induction P vs i rule: first_index.induct) auto

definition det_status :: "('v, 'z) validatorSet_scheme \<Rightarrow> detector \<Rightarrow> 'v option \<Rightarrow> bool \<times> int" where
  "det_status V d valSet = (det_IsValidator V d valSet, det_ValidatorIndex V d valSet)"

text \<open>The status and index the callback was given, in the order of the calls.\<close>

definition reported :: "statusTracker \<Rightarrow> (bool \<times> int) list" where
  "reported t = rev (map (\<lambda>(b, i, v). (b, i)) (st_calls t))"

lemma tracker_Update_status:
  assumes "st_callback t"
  shows "st_detector (snd (tracker_Update V t s)) = st_detector t" "st_callback (snd (tracker_Update V t s))"
    "(st_lastStatus (snd (tracker_Update V t s)), st_lastIndex (snd (tracker_Update V t s)))
       = det_status V (st_detector t) s"
    "reported (snd (tracker_Update V t s)) = reported t @
       (if det_status V (st_detector t) s = (st_lastStatus t, st_lastIndex t) then [] else [det_status V (st_detector t) s])"
  using assms by (auto simp: tracker_Update_def Let_def det_status_def reported_def)

lemma tl_remdups_adj_Cons:
  "tl (remdups_adj (x # y # xs)) = (if y = x then tl (remdups_adj (y # xs)) else y # tl (remdups_adj (y # xs)))"
  by (simp add: remdups_adj_Cons_alt)

lemma tracker_updates_reported:
  "st_callback t \<Longrightarrow> reported (tracker_updates V t ss) =
     reported t @ tl (remdups_adj ((st_lastStatus t, st_lastIndex t) # map (det_status V (st_detector t)) ss)) \<and>
   (st_lastStatus (tracker_updates V t ss), st_lastIndex (tracker_updates V t ss)) =
     last ((st_lastStatus t, st_lastIndex t) # map (det_status V (st_detector t)) ss)"
proof (induction ss arbitrary: t)
  case (Cons s ss)
  note u = tracker_Update_status [OF Cons.prems, of V s]
  show ?case
    using Cons.IH [OF u(2)] unfolding u(1,3,4)
    by (simp add: u(3) tl_remdups_adj_Cons del: remdups_adj.simps)
qed simp

context validator_set
begin

lemma detector_consistent:
  assumes "inv vs"
  shows "det_IsValidator V d (Some vs) \<longleftrightarrow> 0 \<le> det_ValidatorIndex V d (Some vs)"
proof (cases d)
  case (AddressBasedDetector a)
  have "Contains V vs a \<longleftrightarrow> (\<exists>v \<in> set (members vs). v_Address v = a)"
    using contains [OF assms] by_address [OF assms, of a] by (metis not_None_eq)
  then show ?thesis
    using first_index_find [of 0 "\<lambda>v. v_Address v = a" "members vs"] AddressBasedDetector
    by (auto simp: det_defs validators [OF assms])
qed (simp add: det_defs)

end

section \<open>Properties\<close>

text \<open>
  C34: After any validator sets have been given to \<open>Update\<close>, the tracker's status and index are
  those of the last set, and the callback was called exactly once for each change of status or
  index, in order, and never for an unchanged one.
\<close>

theorem tracker_reports_changes:
  fixes d :: detector and sets :: "simpleValidatorSet option list"
  defines "t \<equiv> tracker_updates simple_set (NewValidatorStatusTracker d True) sets"
  shows "reported t = tl (remdups_adj ((False, -1) # map (det_status simple_set d) sets)) \<and>
    (tracker_IsValidator t, tracker_ValidatorIndex t) = last ((False, -1) # map (det_status simple_set d) sets)"
  using tracker_updates_reported [of "NewValidatorStatusTracker d True" simple_set sets]
  by (simp add: t_def NewValidatorStatusTracker_def reported_def tracker_IsValidator_def tracker_ValidatorIndex_def
      del: remdups_adj.simps last.simps)

text \<open>
  Both detectors answer \<open>IsValidator\<close> exactly when \<open>ValidatorIndex\<close> is not -1, for a simple set
  and, by the overridden lookups, for an indexed one; then the index is the validator's own.
\<close>

theorem detectors_consistent:
  assumes "iv_inv vs"
  shows "(det_IsValidator indexed_set d (Some vs) \<longleftrightarrow> 0 \<le> det_ValidatorIndex indexed_set d (Some vs)) \<and>
    (det_IsValidator simple_set d (Some (iv_set vs)) \<longleftrightarrow> 0 \<le> det_ValidatorIndex simple_set d (Some (iv_set vs))) \<and>
    det_status indexed_set d (Some vs) = det_status simple_set d (Some (iv_set vs))"
proof -
  have s: "vs_inv (iv_set vs)" using assms by (simp add: iv_inv_def)
  have "det_ValidatorIndex indexed_set d (Some vs) = det_ValidatorIndex simple_set d (Some (iv_set vs))"
    by (simp add: det_defs simple_set_def indexed_set_def split: detector.split)
  then show ?thesis
    using iv.detector_consistent [OF assms, of d] sv.detector_consistent [OF s, of d] by (simp add: det_status_def)
qed

theorem detectors_consistent_witness:
  "det_status indexed_set (AddressBasedDetector [3]) (Some \<lparr>iv_set = ex_set, iv_byAddress = build_index (vs_validators ex_set)\<rparr>)
     = (True, 2)"
proof -
  have "iv_inv \<lparr>iv_set = ex_set, iv_byAddress = build_index (vs_validators ex_set)\<rparr>"
    using ex_set_inv by (simp add: iv_inv_def)
  from detectors_consistent [OF this, of "AddressBasedDetector [3]"]
  have "det_status indexed_set (AddressBasedDetector [3]) (Some \<lparr>iv_set = ex_set, iv_byAddress = build_index (vs_validators ex_set)\<rparr>)
      = det_status simple_set (AddressBasedDetector [3]) (Some ex_set)" by simp
  also have "\<dots> = (True, 2)" by code_simp
  finally show ?thesis .
qed

end
