(* ===== verification/MemoryStore.thy ===== *)
theory MemoryStore
  imports BlockStore
begin

text \<open>
  The block store kept in memory (\<open>pkg/blockstore/memory.go\<close>) with its pruning, certificates and
  batches. Certificates and batches are
  values of another module: their types are parameters, and so are the functions that read the
  digest, the round and the author; \<open>Clone\<close> returns an equal value.
\<close>

section \<open>MemoryBlockStore\<close>

record blockEntry =
  be_hash :: bytes
  be_data :: bytes

record ('c, 'b) memoryBlockStore =
  mb_blocks :: "(int, blockEntry) fmap"
  mb_byHash :: "(bytes, int) fmap"
  mb_height :: int
  mb_base :: int
  mb_pruneCfg :: "pruneConfig option"
  mb_certs :: "(bytes, 'c) fmap"
  mb_certsByRound :: "(nat, bytes list) fmap"
  mb_certsByHeight :: "(int, bytes list) fmap"
  mb_batches :: "(bytes, 'b) fmap"

definition NewMemoryBlockStore :: "('c, 'b) memoryBlockStore" where
  "NewMemoryBlockStore =
     \<lparr>mb_blocks = fmempty, mb_byHash = fmempty, mb_height = 0, mb_base = 0, mb_pruneCfg = None,
      mb_certs = fmempty, mb_certsByRound = fmempty, mb_certsByHeight = fmempty, mb_batches = fmempty\<rparr>"

definition mem_SaveBlock ::
  "('c, 'b) memoryBlockStore \<Rightarrow> int \<Rightarrow> bytes \<Rightarrow> bytes \<Rightarrow> error option \<times> ('c, 'b) memoryBlockStore" where
  "mem_SaveBlock m height hash data =
     (if fmlookup (mb_blocks m) height \<noteq> None then (Some ErrBlockAlreadyExists, m)
      else if (case fmlookup (mb_byHash m) hash of
                 Some existingHeight \<Rightarrow> existingHeight \<noteq> height | None \<Rightarrow> False)
      then (Some ErrBlockAlreadyExists, m)
      else
        (None, m\<lparr>mb_blocks := fmupd height \<lparr>be_hash = hash, be_data = data\<rparr> (mb_blocks m),
                 mb_byHash := fmupd hash height (mb_byHash m),
                 mb_base := (if mb_base m = 0 \<or> height < mb_base m then height else mb_base m),
                 mb_height := (if height > mb_height m then height else mb_height m)\<rparr>))"

definition mem_LoadBlock :: "('c, 'b) memoryBlockStore \<Rightarrow> int \<Rightarrow> error + (bytes \<times> bytes)" where
  "mem_LoadBlock m height =
     (case fmlookup (mb_blocks m) height of
        None \<Rightarrow> Inl ErrBlockNotFound
      | Some entry \<Rightarrow> Inr (be_hash entry, be_data entry))"

text \<open>Reading a missing height gives the zero entry, whose data is empty.\<close>

definition mem_LoadBlockByHash :: "('c, 'b) memoryBlockStore \<Rightarrow> bytes \<Rightarrow> error + (int \<times> bytes)" where
  "mem_LoadBlockByHash m hash =
     (case fmlookup (mb_byHash m) hash of
        None \<Rightarrow> Inl ErrBlockNotFound
      | Some h \<Rightarrow> Inr (h, case fmlookup (mb_blocks m) h of Some entry \<Rightarrow> be_data entry | None \<Rightarrow> []))"

definition mem_HasBlock :: "('c, 'b) memoryBlockStore \<Rightarrow> int \<Rightarrow> bool" where
  "mem_HasBlock m height \<longleftrightarrow> fmlookup (mb_blocks m) height \<noteq> None"

definition mem_Height :: "('c, 'b) memoryBlockStore \<Rightarrow> int" where
  "mem_Height m = mb_height m"

definition mem_Base :: "('c, 'b) memoryBlockStore \<Rightarrow> int" where
  "mem_Base m = mb_base m"

definition mem_Close :: "('c, 'b) memoryBlockStore \<Rightarrow> error option \<times> ('c, 'b) memoryBlockStore" where
  "mem_Close m = (None, m)"

definition memory_store :: "('c, 'b) memoryBlockStore blockstore" where
  "memory_store = \<lparr>SaveBlock = mem_SaveBlock, LoadBlock = mem_LoadBlock,
     LoadBlockByHash = mem_LoadBlockByHash, HasBlock = mem_HasBlock, Height = mem_Height, Base = mem_Base\<rparr>"

text \<open>
  The loop of \<open>Prune\<close> over the heights it visits; it threads the store, the number of blocks
  and of bytes removed, and the new base.
\<close>

fun mem_prune_loop ::
  "int list \<Rightarrow> ('c, 'b) memoryBlockStore \<Rightarrow> int \<Rightarrow> int \<Rightarrow> int \<Rightarrow>
   ('c, 'b) memoryBlockStore \<times> int \<times> int \<times> int" where
  "mem_prune_loop [] m prunedCount bytesFreed newBase = (m, prunedCount, bytesFreed, newBase)"
| "mem_prune_loop (height # heights) m prunedCount bytesFreed newBase =
     (case fmlookup (mb_blocks m) height of
        None \<Rightarrow> mem_prune_loop heights m prunedCount bytesFreed newBase
      | Some entry \<Rightarrow>
          if mb_pruneCfg m \<noteq> None \<and> ShouldKeep (mb_pruneCfg m) height (mb_height m)
          then mem_prune_loop heights m prunedCount bytesFreed
                 (if height < newBase then height else newBase)
          else mem_prune_loop heights
                 (m\<lparr>mb_byHash := fmdrop (be_hash entry) (mb_byHash m),
                    mb_blocks := fmdrop height (mb_blocks m)\<rparr>)
                 (prunedCount + 1)
                 (bytesFreed + int (length (be_data entry) + length (be_hash entry))) newBase)"

definition mem_Prune ::
  "('c, 'b) memoryBlockStore \<Rightarrow> int \<Rightarrow> (error + pruneResult) \<times> ('c, 'b) memoryBlockStore" where
  "mem_Prune m beforeHeight =
     (if beforeHeight \<le> 0 then (Inl ErrInvalidPruneHeight, m)
      else if beforeHeight > mb_height m then (Inl ErrPruneHeightTooHigh, m)
      else if mb_base m \<ge> beforeHeight
      then (Inr \<lparr>PrunedCount = 0, NewBase = mb_base m, BytesFreed = 0\<rparr>, m)
      else
        (case mem_prune_loop [mb_base m .. beforeHeight - 1] m 0 0 beforeHeight of
           (m1, prunedCount, bytesFreed, newBase) \<Rightarrow>
             let m2 = (if newBase > mb_base m1 then m1\<lparr>mb_base := newBase\<rparr> else m1)
             in (Inr \<lparr>PrunedCount = prunedCount, NewBase = mb_base m2, BytesFreed = bytesFreed\<rparr>, m2)))"

definition mem_PruneConfig :: "('c, 'b) memoryBlockStore \<Rightarrow> pruneConfig option" where
  "mem_PruneConfig m = mb_pruneCfg m"

definition mem_SetPruneConfig ::
  "('c, 'b) memoryBlockStore \<Rightarrow> pruneConfig option \<Rightarrow> ('c, 'b) memoryBlockStore" where
  "mem_SetPruneConfig m cfg = m\<lparr>mb_pruneCfg := cfg\<rparr>"

section \<open>Invariant\<close>

definition mem_inv :: "('c, 'b) memoryBlockStore \<Rightarrow> bool" where
  "mem_inv m \<longleftrightarrow>
     (\<forall>hash h. fmlookup (mb_byHash m) hash = Some h \<longleftrightarrow>
        (\<exists>e. fmlookup (mb_blocks m) h = Some e \<and> be_hash e = hash)) \<and>
     (\<forall>h e. fmlookup (mb_blocks m) h = Some e \<longrightarrow> 0 < h \<and> mb_base m \<le> h \<and> h \<le> mb_height m) \<and>
     (mb_base m = 0 \<longrightarrow> mb_blocks m = fmempty) \<and> 0 \<le> mb_base m \<and> 0 \<le> mb_height m"

definition mem_view :: "('c, 'b) memoryBlockStore \<Rightarrow> (int, bytes \<times> bytes) fmap" where
  "mem_view m = fmmap (\<lambda>e. (be_hash e, be_data e)) (mb_blocks m)"

lemma mem_view_lookup:
  "fmlookup (mem_view m) h = map_option (\<lambda>e. (be_hash e, be_data e)) (fmlookup (mb_blocks m) h)"
  by (simp add: mem_view_def)

lemma mem_inv_hash:
  "mem_inv m \<Longrightarrow> fmlookup (mb_byHash m) hash = Some h \<longleftrightarrow>
     (\<exists>e. fmlookup (mb_blocks m) h = Some e \<and> be_hash e = hash)"
  by (simp add: mem_inv_def)

lemma mem_inv_bounds:
  "mem_inv m \<Longrightarrow> fmlookup (mb_blocks m) h = Some e \<Longrightarrow> 0 < h \<and> mb_base m \<le> h \<and> h \<le> mb_height m"
  by (auto simp: mem_inv_def)

lemma mem_inv_new: "mem_inv NewMemoryBlockStore"
  by (simp add: mem_inv_def NewMemoryBlockStore_def)

lemma mem_SaveBlock_error: "mem_SaveBlock m h hash data = (Some e, m') \<Longrightarrow> m' = m"
  by (simp add: mem_SaveBlock_def split: if_splits)

lemma mem_SaveBlock_ok:
  assumes "mem_inv m" "mem_SaveBlock m h hash data = (None, m')"
  shows "fmlookup (mb_blocks m) h = None" "fmlookup (mb_byHash m) hash = None"
    "m' = m\<lparr>mb_blocks := fmupd h \<lparr>be_hash = hash, be_data = data\<rparr> (mb_blocks m),
            mb_byHash := fmupd hash h (mb_byHash m),
            mb_base := (if mb_base m = 0 \<or> h < mb_base m then h else mb_base m),
            mb_height := (if h > mb_height m then h else mb_height m)\<rparr>"
proof -
  show new: "fmlookup (mb_blocks m) h = None"
    using assms(2) by (auto simp: mem_SaveBlock_def split: if_splits)
  show "fmlookup (mb_byHash m) hash = None"
  proof (cases "fmlookup (mb_byHash m) hash")
    case (Some k)
    then have "k = h" using assms(2) by (auto simp: mem_SaveBlock_def split: if_splits)
    then show ?thesis using Some mem_inv_hash [OF assms(1)] new by simp
  qed
  show "m' = m\<lparr>mb_blocks := fmupd h \<lparr>be_hash = hash, be_data = data\<rparr> (mb_blocks m),
            mb_byHash := fmupd hash h (mb_byHash m),
            mb_base := (if mb_base m = 0 \<or> h < mb_base m then h else mb_base m),
            mb_height := (if h > mb_height m then h else mb_height m)\<rparr>"
    using assms(2) new \<open>fmlookup (mb_byHash m) hash = None\<close>
    unfolding mem_SaveBlock_def by simp
qed

lemma mem_inv_SaveBlock:
  assumes m: "mem_inv m" and h: "0 < h" and r: "mem_SaveBlock m h hash data = (None, m')"
  shows "mem_inv m'"
proof -
  note ok = mem_SaveBlock_ok [OF m r]
  have hash: "fmlookup (mb_byHash m') k = Some x \<longleftrightarrow>
      (\<exists>e. fmlookup (mb_blocks m') x = Some e \<and> be_hash e = k)" for k x
    using mem_inv_hash [OF m, of k x] mem_inv_hash [OF m, of hash x] ok(1,2)
    by (auto simp: ok(3))
  have "0 < x \<and> mb_base m' \<le> x \<and> x \<le> mb_height m'" if x: "fmlookup (mb_blocks m') x = Some e" for x e
  proof (cases "x = h")
    case False
    then have e: "fmlookup (mb_blocks m) x = Some e" using x by (simp add: ok(3))
    then have "mb_base m \<noteq> 0" using m by (auto simp: mem_inv_def)
    then show ?thesis using mem_inv_bounds [OF m e] by (simp add: ok(3))
  qed (use h in \<open>simp add: ok(3)\<close>)
  moreover have "mb_base m' \<noteq> 0" "0 \<le> mb_base m'" "0 \<le> mb_height m'"
    using m h by (simp_all add: ok(3) mem_inv_def)
  ultimately show ?thesis using hash unfolding mem_inv_def by blast
qed

interpretation mem: complete_store "memory_store :: ('c, 'b) memoryBlockStore blockstore"
  mem_inv mem_view "\<lambda>d. d"
proof (unfold_locales, goal_cases)
  case (1 s h hash data)
  show ?case
  proof (cases "mem_SaveBlock s h hash data")
    case (Pair e s')
    then show ?thesis
      using 1 mem_inv_SaveBlock [of s h hash data s'] mem_SaveBlock_error [of s h hash data _ s']
      by (cases e) (simp_all add: memory_store_def)
  qed
next
  case (2 s h hash data s')
  then have r: "mem_SaveBlock s h hash data = (None, s')" by (simp add: memory_store_def)
  show ?case
    using mem_SaveBlock_ok [OF 2(1) r]
    by (simp add: memory_store_def mem_view_def mem_Height_def max_def fmap_ext)
next
  case (3 s h hash data e s')
  then show ?case using mem_SaveBlock_error by (simp add: memory_store_def)
next
  case (4 s h)
  then show ?case by (simp add: memory_store_def mem_HasBlock_def mem_view_lookup)
next
  case (5 s h)
  then show ?case by (simp add: memory_store_def mem_LoadBlock_def mem_view_lookup split: option.split)
next
  case (6 s hash h d)
  then show ?case
    using mem_inv_hash [OF 6, of hash]
    by (fastforce simp: memory_store_def mem_LoadBlockByHash_def mem_view_lookup split: option.splits)
next
  case (7 s hash e)
  then show ?case by (simp add: memory_store_def mem_LoadBlockByHash_def split: option.splits)
next
  case (8 s h)
  then show ?case
    using mem_inv_bounds [OF 8(1)] by (auto simp: memory_store_def mem_view_lookup mem_Base_def mem_Height_def)
next
  case (9 s h hash data)
  have "fmlookup (mb_byHash s) hash = None"
  proof (cases "fmlookup (mb_byHash s) hash")
    case (Some k)
    then show ?thesis using mem_inv_hash [OF 9(1), of hash k] 9(4) by (auto simp: mem_view_lookup)
  qed
  then show ?case using 9(3) by (simp add: memory_store_def mem_SaveBlock_def mem_view_lookup)
qed

section \<open>Pruning\<close>

text \<open>Whether \<open>Prune\<close> retains the block at a height below its target.\<close>

definition mem_retains :: "('c, 'b) memoryBlockStore \<Rightarrow> int \<Rightarrow> bool" where
  "mem_retains m h \<longleftrightarrow> mb_pruneCfg m \<noteq> None \<and> ShouldKeep (mb_pruneCfg m) h (mb_height m)"

definition entry_size :: "blockEntry \<Rightarrow> int" where
  "entry_size e = int (length (be_data e) + length (be_hash e))"

definition hash_ok :: "('c, 'b) memoryBlockStore \<Rightarrow> bool" where
  "hash_ok m \<longleftrightarrow> (\<forall>hash h. fmlookup (mb_byHash m) hash = Some h \<longleftrightarrow>
     (\<exists>e. fmlookup (mb_blocks m) h = Some e \<and> be_hash e = hash))"

lemma hash_ok_lookup:
  "hash_ok m \<Longrightarrow> fmlookup (mb_byHash m) hash = Some h \<longleftrightarrow>
     (\<exists>e. fmlookup (mb_blocks m) h = Some e \<and> be_hash e = hash)"
  by (simp add: hash_ok_def)

lemma hash_ok_drop:
  assumes "hash_ok m" "fmlookup (mb_blocks m) h = Some e"
  shows "hash_ok (m\<lparr>mb_byHash := fmdrop (be_hash e) (mb_byHash m), mb_blocks := fmdrop h (mb_blocks m)\<rparr>)"
proof -
  have "fmlookup (fmdrop (be_hash e) (mb_byHash m)) k = Some x \<longleftrightarrow>
      (\<exists>e'. fmlookup (fmdrop h (mb_blocks m)) x = Some e' \<and> be_hash e' = k)" for k x
    using hash_ok_lookup [OF assms(1), of k x] hash_ok_lookup [OF assms(1), of "be_hash e" h]
      hash_ok_lookup [OF assms(1), of "be_hash e" x] assms(2)
    by (cases "k = be_hash e"; cases "x = h") auto
  then show ?thesis by (simp add: hash_ok_def)
qed

text \<open>What the loop leaves behind.\<close>

definition prune_rel :: "int list \<Rightarrow> ('c, 'b) memoryBlockStore \<Rightarrow> int \<Rightarrow> int \<Rightarrow> int \<Rightarrow>
    ('c, 'b) memoryBlockStore \<times> int \<times> int \<times> int \<Rightarrow> bool" where
  "prune_rel hs m c b nb r \<longleftrightarrow> (case r of (m1, c1, b1, nb1) \<Rightarrow>
     mb_blocks m1 = fmfilter (\<lambda>h. h \<notin> set hs \<or> mem_retains m h) (mb_blocks m) \<and>
     hash_ok m1 \<and> mb_pruneCfg m1 = mb_pruneCfg m \<and> mb_height m1 = mb_height m \<and>
     mb_base m1 = mb_base m \<and>
     c1 + int (map_len (mb_blocks m1)) = c + int (map_len (mb_blocks m)) \<and>
     b1 + map_weight entry_size (mb_blocks m1) = b + map_weight entry_size (mb_blocks m) \<and>
     nb1 \<le> nb \<and> (\<forall>h e. h \<in> set hs \<and> fmlookup (mb_blocks m) h = Some e \<and> mem_retains m h \<longrightarrow> nb1 \<le> h))"

lemma mem_prune_loop_rel:
  "hash_ok m \<Longrightarrow> prune_rel hs m c b nb (mem_prune_loop hs m c b nb)"
proof (induction hs m c b nb rule: mem_prune_loop.induct)
  case (1 m c b nb)
  then show ?case by (simp add: prune_rel_def)
next
  case (2 h hs m c b nb)
  show ?case
  proof (cases "fmlookup (mb_blocks m) h")
    case None
    have "fmfilter (\<lambda>x. x \<notin> set hs \<or> mem_retains m x) (mb_blocks m)
        = fmfilter (\<lambda>x. x \<notin> set (h # hs) \<or> mem_retains m x) (mb_blocks m)"
      using None by (intro fmap_ext) auto
    then show ?thesis
      using "2.IH"(1) [OF None "2.prems"] None by (auto simp: prune_rel_def split: prod.splits)
  next
    case (Some e)
    show ?thesis
    proof (cases "mem_retains m h")
      case True
      have "fmfilter (\<lambda>x. x \<notin> set hs \<or> mem_retains m x) (mb_blocks m)
          = fmfilter (\<lambda>x. x \<notin> set (h # hs) \<or> mem_retains m x) (mb_blocks m)"
        using True by (intro fmap_ext) auto
      then show ?thesis
        using "2.IH"(2) [OF Some _ "2.prems"] Some True
        by (auto simp: prune_rel_def mem_retains_def split: prod.splits if_splits)
    next
      case False
      let ?m = "m\<lparr>mb_byHash := fmdrop (be_hash e) (mb_byHash m), mb_blocks := fmdrop h (mb_blocks m)\<rparr>"
      have ret: "mem_retains ?m = mem_retains m" by (simp add: mem_retains_def fun_eq_iff)
      have "fmfilter (\<lambda>x. x \<notin> set hs \<or> mem_retains m x) (fmdrop h (mb_blocks m))
          = fmfilter (\<lambda>x. x \<notin> set (h # hs) \<or> mem_retains m x) (mb_blocks m)"
        using False by (intro fmap_ext) auto
      moreover have "int (map_len (fmdrop h (mb_blocks m))) = int (map_len (mb_blocks m)) - 1"
        using map_len_drop_old [OF Some] map_len_pos [OF Some] by simp
      moreover have "map_weight entry_size (fmdrop h (mb_blocks m))
          = map_weight entry_size (mb_blocks m) - entry_size e"
        using Some by (rule map_weight_drop_old)
      moreover have eq: "mem_prune_loop (h # hs) m c b nb
          = mem_prune_loop hs ?m (c + 1) (b + entry_size e) nb"
        using Some False by (auto simp: mem_retains_def entry_size_def)
      moreover have "prune_rel hs ?m (c + 1) (b + entry_size e) nb
          (mem_prune_loop hs ?m (c + 1) (b + entry_size e) nb)"
        using "2.IH"(3) [OF Some _ hash_ok_drop [OF "2.prems" Some]] False
        by (simp add: mem_retains_def entry_size_def)
      ultimately show ?thesis
        using False unfolding eq prune_rel_def ret
        by (auto split: prod.splits cong del: fmfilter_cong)
    qed
  qed
qed

lemma mem_Prune_ok:
  assumes m: "mem_inv m" and b: "0 < before" "before \<le> mb_height m"
  shows "\<exists>r m'. mem_Prune m before = (Inr r, m') \<and>
    mb_blocks m' = fmfilter (\<lambda>h. before \<le> h \<or> mem_retains m h) (mb_blocks m) \<and> mem_inv m' \<and>
    mb_height m' = mb_height m \<and> mb_pruneCfg m' = mb_pruneCfg m \<and> NewBase r = mb_base m' \<and>
    mb_base m \<le> mb_base m' \<and>
    PrunedCount r = int (map_len (mb_blocks m)) - int (map_len (mb_blocks m')) \<and>
    BytesFreed r = map_weight entry_size (mb_blocks m) - map_weight entry_size (mb_blocks m')"
proof (cases "mb_base m \<ge> before")
  case True
  have "fmfilter (\<lambda>h. before \<le> h \<or> mem_retains m h) (mb_blocks m) = mb_blocks m"
  proof (rule fmap_ext)
    fix h
    show "fmlookup (fmfilter (\<lambda>h. before \<le> h \<or> mem_retains m h) (mb_blocks m)) h = fmlookup (mb_blocks m) h"
      using mem_inv_bounds [OF m, of h] True by (cases "fmlookup (mb_blocks m) h") auto
  qed
  then show ?thesis using True b m by (simp add: mem_Prune_def)
next
  case False
  let ?hs = "[mb_base m .. before - 1]"
  have hok: "hash_ok m" using m by (simp add: hash_ok_def mem_inv_def)
  obtain m1 c1 b1 nb where r: "mem_prune_loop ?hs m 0 0 before = (m1, c1, b1, nb)"
    by (metis prod_cases4)
  note rel = mem_prune_loop_rel [OF hok, of ?hs 0 0 before, unfolded r prune_rel_def, simplified]
  let ?m2 = "if nb > mb_base m1 then m1\<lparr>mb_base := nb\<rparr> else m1"
  have blk: "mb_blocks ?m2 = fmfilter (\<lambda>h. before \<le> h \<or> mem_retains m h) (mb_blocks m)"
  proof (rule fmap_ext)
    fix h
    show "fmlookup (mb_blocks ?m2) h = fmlookup (fmfilter (\<lambda>h. before \<le> h \<or> mem_retains m h) (mb_blocks m)) h"
      using rel mem_inv_bounds [OF m, of h] by (cases "fmlookup (mb_blocks m) h") auto
  qed
  have ht: "mb_height ?m2 = mb_height m" using rel by simp
  have "0 < x \<and> mb_base ?m2 \<le> x \<and> x \<le> mb_height ?m2" if x: "fmlookup (mb_blocks ?m2) x = Some e" for x e
  proof -
    have e: "fmlookup (mb_blocks m) x = Some e" "before \<le> x \<or> mem_retains m x"
      using x unfolding blk by (auto split: if_splits)
    then show ?thesis unfolding ht using mem_inv_bounds [OF m e(1)] rel by (cases "before \<le> x") auto
  qed
  moreover have "hash_ok ?m2" using rel by (simp add: hash_ok_def)
  moreover have "mb_base ?m2 = 0 \<longrightarrow> mb_blocks ?m2 = fmempty"
  proof
    assume "mb_base ?m2 = 0"
    then have "mb_base m = 0" using rel m by (auto simp: mem_inv_def split: if_splits)
    then have "mb_blocks m = fmempty" using m by (simp add: mem_inv_def)
    then show "mb_blocks ?m2 = fmempty" unfolding blk by (intro fmap_ext) simp
  qed
  moreover have "0 \<le> mb_base ?m2" "0 \<le> mb_height ?m2" using rel m by (auto simp: mem_inv_def)
  ultimately have "mem_inv ?m2" unfolding mem_inv_def hash_ok_def by blast
  moreover have "mem_Prune m before
      = (Inr \<lparr>PrunedCount = c1, NewBase = mb_base ?m2, BytesFreed = b1\<rparr>, ?m2)"
    using False b r by (simp add: mem_Prune_def Let_def)
  moreover have "mb_blocks m1 = mb_blocks ?m2" by simp
  ultimately show ?thesis using rel blk
    by (intro exI [of _ "\<lparr>PrunedCount = c1, NewBase = mb_base ?m2, BytesFreed = b1\<rparr>"] exI [of _ ?m2])
      (auto split: if_splits)
qed

section \<open>Certificates and batches\<close>

definition mem_SaveCertificate ::
  "('c \<Rightarrow> bytes) \<Rightarrow> ('c \<Rightarrow> nat) \<Rightarrow> ('c, 'b) memoryBlockStore \<Rightarrow> 'c option \<Rightarrow>
   error option \<times> ('c, 'b) memoryBlockStore" where
  "mem_SaveCertificate Digest Round m c =
     (case c of
        None \<Rightarrow> (Some (ErrOther ''cannot save nil certificate''), m)
      | Some cert \<Rightarrow>
          let digestKey = Digest cert; rnd = Round cert in
          if fmlookup (mb_certs m) digestKey \<noteq> None then (Some ErrCertificateAlreadyExists, m)
          else
            (None, m\<lparr>mb_certs := fmupd digestKey cert (mb_certs m),
                     mb_certsByRound := fmupd rnd
                       ((case fmlookup (mb_certsByRound m) rnd of Some ds \<Rightarrow> ds | None \<Rightarrow> []) @ [digestKey])
                       (mb_certsByRound m)\<rparr>))"

definition mem_GetCertificate :: "('c, 'b) memoryBlockStore \<Rightarrow> bytes \<Rightarrow> error + 'c" where
  "mem_GetCertificate m digest =
     (case fmlookup (mb_certs m) digest of None \<Rightarrow> Inl ErrCertificateNotFound | Some cert \<Rightarrow> Inr cert)"

text \<open>The certificates behind a list of digests, those that are not there skipped.\<close>

definition mem_certs_of :: "('c, 'b) memoryBlockStore \<Rightarrow> bytes list option \<Rightarrow> 'c list" where
  "mem_certs_of m ds =
     (case ds of None \<Rightarrow> [] | Some digests \<Rightarrow> List.map_filter (\<lambda>d. fmlookup (mb_certs m) d) digests)"

text \<open>
  \<open>sort.Slice\<close> sorts by author and leaves the order of equal authors open: the two queries
  return any list for which the predicate holds.
\<close>

definition mem_GetCertificatesForRound ::
  "('c \<Rightarrow> nat) \<Rightarrow> ('c, 'b) memoryBlockStore \<Rightarrow> nat \<Rightarrow> 'c list \<Rightarrow> bool" where
  "mem_GetCertificatesForRound Author m rnd certs \<longleftrightarrow>
     mset certs = mset (mem_certs_of m (fmlookup (mb_certsByRound m) rnd)) \<and>
     sorted (map Author certs)"

definition mem_GetCertificatesForHeight ::
  "('c \<Rightarrow> nat) \<Rightarrow> ('c, 'b) memoryBlockStore \<Rightarrow> int \<Rightarrow> 'c list \<Rightarrow> bool" where
  "mem_GetCertificatesForHeight Author m height certs \<longleftrightarrow>
     mset certs = mset (mem_certs_of m (fmlookup (mb_certsByHeight m) height)) \<and>
     sorted (map Author certs)"

definition mem_SetCertificateBlockHeight ::
  "('c, 'b) memoryBlockStore \<Rightarrow> bytes \<Rightarrow> int \<Rightarrow> error option \<times> ('c, 'b) memoryBlockStore" where
  "mem_SetCertificateBlockHeight m digest height =
     (if fmlookup (mb_certs m) digest = None then (Some ErrCertificateNotFound, m)
      else (None, m\<lparr>mb_certsByHeight := fmupd height
              ((case fmlookup (mb_certsByHeight m) height of Some ds \<Rightarrow> ds | None \<Rightarrow> []) @ [digest])
              (mb_certsByHeight m)\<rparr>))"

definition mem_SaveBatch ::
  "('b \<Rightarrow> bytes) \<Rightarrow> ('c, 'b) memoryBlockStore \<Rightarrow> 'b option \<Rightarrow> error option \<times> ('c, 'b) memoryBlockStore" where
  "mem_SaveBatch Digest m b =
     (case b of
        None \<Rightarrow> (Some (ErrOther ''cannot save nil batch''), m)
      | Some batch \<Rightarrow>
          if fmlookup (mb_batches m) (Digest batch) \<noteq> None then (Some ErrBatchAlreadyExists, m)
          else (None, m\<lparr>mb_batches := fmupd (Digest batch) batch (mb_batches m)\<rparr>))"

definition mem_GetBatch :: "('c, 'b) memoryBlockStore \<Rightarrow> bytes \<Rightarrow> error + 'b" where
  "mem_GetBatch m digest =
     (case fmlookup (mb_batches m) digest of None \<Rightarrow> Inl ErrBatchNotFound | Some batch \<Rightarrow> Inr batch)"

text \<open>The round index lists each stored certificate once, under its own round.\<close>

definition certs_inv :: "('c \<Rightarrow> bytes) \<Rightarrow> ('c \<Rightarrow> nat) \<Rightarrow> ('c, 'b) memoryBlockStore \<Rightarrow> bool" where
  "certs_inv Digest Round m \<longleftrightarrow>
     (\<forall>d c. fmlookup (mb_certs m) d = Some c \<longrightarrow> d = Digest c) \<and>
     (\<forall>r ds. fmlookup (mb_certsByRound m) r = Some ds \<longrightarrow> distinct ds) \<and>
     (\<forall>r d. (\<exists>ds. fmlookup (mb_certsByRound m) r = Some ds \<and> d \<in> set ds) \<longleftrightarrow>
        (\<exists>c. fmlookup (mb_certs m) d = Some c \<and> Round c = r))"

lemma certs_inv_new: "certs_inv Digest Round NewMemoryBlockStore"
  by (simp add: certs_inv_def NewMemoryBlockStore_def)

lemma certs_inv_SaveCertificate:
  assumes m: "certs_inv Digest Round m" and r: "mem_SaveCertificate Digest Round m c = (e, m')"
  shows "certs_inv Digest Round m'"
proof (cases "\<exists>cert. c = Some cert \<and> fmlookup (mb_certs m) (Digest cert) = None")
  case False
  then have "m' = m" using r by (auto simp: mem_SaveCertificate_def Let_def split: option.splits if_splits)
  then show ?thesis using m by simp
next
  case True
  then obtain cert where c: "c = Some cert" and new: "fmlookup (mb_certs m) (Digest cert) = None" by blast
  let ?old = "case fmlookup (mb_certsByRound m) (Round cert) of Some ds \<Rightarrow> ds | None \<Rightarrow> []"
  have m': "m' = m\<lparr>mb_certs := fmupd (Digest cert) cert (mb_certs m),
      mb_certsByRound := fmupd (Round cert) (?old @ [Digest cert]) (mb_certsByRound m)\<rparr>"
    using r c new by (simp add: mem_SaveCertificate_def Let_def)
  have idx: "(\<exists>ds. fmlookup (mb_certsByRound m) r = Some ds \<and> d \<in> set ds) \<longleftrightarrow>
      (\<exists>c. fmlookup (mb_certs m) d = Some c \<and> Round c = r)" for r d
    using m by (simp add: certs_inv_def)
  have old: "d \<in> set ?old \<longleftrightarrow> (\<exists>c. fmlookup (mb_certs m) d = Some c \<and> Round c = Round cert)" for d
    using idx [of "Round cert" d] by (auto split: option.splits)
  have "Digest cert \<notin> set ?old" using old [of "Digest cert"] new by simp
  moreover have "distinct ?old" using m by (auto simp: certs_inv_def split: option.splits)
  ultimately have dist: "distinct (?old @ [Digest cert])" by simp
  have "(\<exists>ds. fmlookup (mb_certsByRound m') r = Some ds \<and> d \<in> set ds) \<longleftrightarrow>
      (\<exists>c. fmlookup (mb_certs m') d = Some c \<and> Round c = r)" for r d
    using idx [of r d] old [of d] new by (cases "r = Round cert"; cases "d = Digest cert") (auto simp: m')
  moreover have "\<forall>r ds. fmlookup (mb_certsByRound m') r = Some ds \<longrightarrow> distinct ds"
    using m dist by (simp add: m' certs_inv_def)
  moreover have "\<forall>d c. fmlookup (mb_certs m') d = Some c \<longrightarrow> d = Digest c"
    using m by (simp add: m' certs_inv_def)
  ultimately show ?thesis unfolding certs_inv_def by blast
qed

lemma map_filter_all:
  "\<forall>x \<in> set xs. f x \<noteq> None \<Longrightarrow> List.map_filter f xs = map (\<lambda>x. the (f x)) xs"
  by (induction xs) (auto simp: List.map_filter_def)

lemma certs_of_round:
  assumes m: "certs_inv Digest Round m"
  shows "distinct (mem_certs_of m (fmlookup (mb_certsByRound m) r)) \<and>
    set (mem_certs_of m (fmlookup (mb_certsByRound m) r)) =
      {c. fmlookup (mb_certs m) (Digest c) = Some c \<and> Round c = r}"
proof -
  have dg: "d = Digest c" if "fmlookup (mb_certs m) d = Some c" for d c
    using m that by (simp add: certs_inv_def)
  have idx: "(\<exists>ds. fmlookup (mb_certsByRound m) r = Some ds \<and> d \<in> set ds) \<longleftrightarrow>
      (\<exists>c. fmlookup (mb_certs m) d = Some c \<and> Round c = r)" for d
    using m by (simp add: certs_inv_def)
  show ?thesis
  proof (cases "fmlookup (mb_certsByRound m) r")
    case None
    then show ?thesis using idx by (auto simp: mem_certs_of_def)
  next
    case (Some ds)
    have all: "\<exists>c. fmlookup (mb_certs m) d = Some c \<and> Round c = r" if "d \<in> set ds" for d
      using idx [of d] Some that by simp
    then have mf: "List.map_filter (\<lambda>d. fmlookup (mb_certs m) d) ds
        = map (\<lambda>d. the (fmlookup (mb_certs m) d)) ds"
      by (intro map_filter_all) auto
    have "distinct ds" using m Some by (simp add: certs_inv_def)
    moreover have "inj_on (\<lambda>d. the (fmlookup (mb_certs m) d)) (set ds)"
    proof (rule inj_onI)
      fix x y
      assume "x \<in> set ds" "y \<in> set ds" "the (fmlookup (mb_certs m) x) = the (fmlookup (mb_certs m) y)"
      moreover from this obtain c c' where "fmlookup (mb_certs m) x = Some c" "fmlookup (mb_certs m) y = Some c'"
        using all [of x] all [of y] by blast
      ultimately show "x = y" using dg [of x c] dg [of y c'] by simp
    qed
    moreover have "set ds = {d. \<exists>c. fmlookup (mb_certs m) d = Some c \<and> Round c = r}"
      using idx Some by auto
    then have "(\<lambda>d. the (fmlookup (mb_certs m) d)) ` set ds
        = {c. fmlookup (mb_certs m) (Digest c) = Some c \<and> Round c = r}"
      using dg by (auto simp: image_iff) (metis option.sel)+
    ultimately show ?thesis using Some mf by (simp add: mem_certs_of_def distinct_map)
  qed
qed

section \<open>Properties\<close>

text \<open>
  C26: \<open>Prune\<close> to a height within the chain succeeds and removes exactly the blocks below it
  that the configuration does not keep; the others load as before, the result counts the
  blocks and bytes removed, and the base stays a lower bound of what is stored.
\<close>

theorem memory_prune_exact:
  assumes m: "mem_inv m" and b: "0 < before" "before \<le> mem_Height m"
  shows "\<exists>r m'. mem_Prune m before = (Inr r, m') \<and> mem_inv m' \<and> mem_Height m' = mem_Height m \<and>
    (\<forall>h. mem_LoadBlock m' h =
       (if before \<le> h \<or> mem_retains m h then mem_LoadBlock m h else Inl ErrBlockNotFound)) \<and>
    NewBase r = mem_Base m' \<and> mem_Base m \<le> mem_Base m' \<and>
    PrunedCount r = int (map_len (mb_blocks m)) - int (map_len (mb_blocks m')) \<and>
    BytesFreed r = map_weight entry_size (mb_blocks m) - map_weight entry_size (mb_blocks m')"
proof -
  obtain r m' where r: "mem_Prune m before = (Inr r, m')"
    "mb_blocks m' = fmfilter (\<lambda>h. before \<le> h \<or> mem_retains m h) (mb_blocks m)" "mem_inv m'"
    "mb_height m' = mb_height m" "NewBase r = mb_base m'" "mb_base m \<le> mb_base m'"
    "PrunedCount r = int (map_len (mb_blocks m)) - int (map_len (mb_blocks m'))"
    "BytesFreed r = map_weight entry_size (mb_blocks m) - map_weight entry_size (mb_blocks m')"
    using mem_Prune_ok [OF m b(1)] b(2) unfolding mem_Height_def by blast
  have "mem_LoadBlock m' h =
      (if before \<le> h \<or> mem_retains m h then mem_LoadBlock m h else Inl ErrBlockNotFound)" for h
    by (simp add: mem_LoadBlock_def r(2))
  then show ?thesis using r by (auto simp: mem_Height_def mem_Base_def)
qed

text \<open>
  C27: A block that was saved can be loaded by its height and by its hash, with the data that was
  saved, and no later \<open>SaveBlock\<close> at positive heights, whether it succeeds or not, changes that.
\<close>

theorem memory_blocks_immutable:
  assumes m: "mem_inv m" and h: "0 < h" and ok: "mem_SaveBlock m h hash data = (None, m')"
    and bs: "\<forall>(k, x) \<in> set bs. 0 < k"
  shows "mem_LoadBlock (save_all memory_store m' bs) h = Inr (hash, data) \<and>
    mem_LoadBlockByHash (save_all memory_store m' bs) hash = Inr (h, data)"
proof -
  have s: "SaveBlock memory_store m h hash data = (None, m')" using ok by (simp add: memory_store_def)
  have m': "mem_inv m'" by (rule mem_inv_SaveBlock [OF m h ok])
  have "fmlookup (mem_view m') h = Some (hash, data)" using mem.save_ok [OF m h s] by simp
  with mem.save_all_keeps [OF m' bs] have "mem_inv (save_all memory_store m' bs)"
    "fmlookup (mem_view (save_all memory_store m' bs)) h = Some (hash, data)" by blast+
  with mem.load [of "save_all memory_store m' bs" h]
    mem.load_by_hash [of "save_all memory_store m' bs" hash h data]
  show ?thesis by (simp add: memory_store_def)
qed

text \<open>
  C28: \<open>SaveBlock\<close> succeeds exactly when neither the height nor the hash is taken, and when it
  fails the store is unchanged.
\<close>

theorem memory_save_iff_new:
  assumes m: "mem_inv m" and h: "0 < h"
  shows "(fst (mem_SaveBlock m h hash data) = None \<longleftrightarrow>
      \<not> mem_HasBlock m h \<and> mem_LoadBlockByHash m hash = Inl ErrBlockNotFound) \<and>
    (fst (mem_SaveBlock m h hash data) \<noteq> None \<longrightarrow> snd (mem_SaveBlock m h hash data) = m)"
proof -
  have iff: "fst (mem_SaveBlock m h hash data) = None \<longleftrightarrow>
      fmlookup (mem_view m) h = None \<and> (\<forall>k d. fmlookup (mem_view m) k \<noteq> Some (hash, d))"
    using mem.save_iff [OF m h, of hash data] by (simp add: memory_store_def)
  have by_hash: "(\<forall>k d. fmlookup (mem_view m) k \<noteq> Some (hash, d)) \<longleftrightarrow>
      mem_LoadBlockByHash m hash = Inl ErrBlockNotFound"
    using mem.load_by_hash [OF m, of hash] mem.load_by_hash_error [OF m, of hash]
    by (cases "mem_LoadBlockByHash m hash") (auto simp: memory_store_def)
  have has: "fmlookup (mem_view m) h = None \<longleftrightarrow> \<not> mem_HasBlock m h"
    by (simp add: mem_HasBlock_def mem_view_lookup)
  have "fst (mem_SaveBlock m h hash data) \<noteq> None \<longrightarrow> snd (mem_SaveBlock m h hash data) = m"
    using mem_SaveBlock_error [of m h hash data]
    by (cases "mem_SaveBlock m h hash data") auto
  with iff [unfolded by_hash has] show ?thesis by (rule conjI)
qed

text \<open>A client that saves certificates one after the other.\<close>

fun save_certs :: "('c \<Rightarrow> bytes) \<Rightarrow> ('c \<Rightarrow> nat) \<Rightarrow> ('c, 'b) memoryBlockStore \<Rightarrow> 'c option list \<Rightarrow>
    ('c, 'b) memoryBlockStore" where
  "save_certs Digest Round m [] = m"
| "save_certs Digest Round m (c # cs) =
     save_certs Digest Round (snd (mem_SaveCertificate Digest Round m c)) cs"

lemma save_certs_inv: "certs_inv Digest Round m \<Longrightarrow> certs_inv Digest Round (save_certs Digest Round m cs)"
proof (induction cs arbitrary: m)
  case (Cons c cs)
  then show ?case using certs_inv_SaveCertificate [OF Cons.prems, of c] by (simp add: prod_eq_iff)
qed simp

text \<open>
  After any certificates have been saved in a new store, \<open>GetCertificatesForRound\<close> returns
  exactly the stored certificates of that round, each once, in the order of their authors.
\<close>

theorem memory_certs_by_round:
  assumes m: "m = save_certs Digest Round NewMemoryBlockStore cs"
    and q: "mem_GetCertificatesForRound Author m r result"
  shows "distinct result \<and> sorted (map Author result) \<and>
    set result = {c. mem_GetCertificate m (Digest c) = Inr c \<and> Round c = r}"
proof -
  have inv: "certs_inv Digest Round m" unfolding m by (rule save_certs_inv [OF certs_inv_new])
  let ?found = "mem_certs_of m (fmlookup (mb_certsByRound m) r)"
  have ms: "mset result = mset ?found" and so: "sorted (map Author result)"
    using q by (simp_all add: mem_GetCertificatesForRound_def)
  have "{c. mem_GetCertificate m (Digest c) = Inr c \<and> Round c = r}
      = {c. fmlookup (mb_certs m) (Digest c) = Some c \<and> Round c = r}"
    by (auto simp: mem_GetCertificate_def split: option.splits)
  then show ?thesis
    using certs_of_round [OF inv, of r] mset_eq_setD [OF ms] mset_eq_imp_distinct_iff [OF ms] so by simp
qed

text \<open>
  Heights that are not positive break the base: a block saved at height 0 resets it, and the
  next block moves it above blocks that are still stored.
\<close>

theorem memory_height_zero_breaks_base:
  "let m = save_all memory_store NewMemoryBlockStore [(3, [1], []), (0, [2], []), (7, [3], [])]
   in mem_HasBlock m 3 \<and> mem_Base m = 7"
  by (simp add: memory_store_def mem_SaveBlock_def NewMemoryBlockStore_def mem_HasBlock_def
      mem_Base_def Let_def)

section \<open>Witnesses\<close>

definition ex_memory_store :: "(nat, nat) memoryBlockStore" where
  "ex_memory_store =
     (snd (mem_SaveBlock (snd (mem_SaveBlock NewMemoryBlockStore 1 [1] [10])) 2 [2] [20, 21]))"

lemma ex_memory_store_eq:
  "ex_memory_store = NewMemoryBlockStore\<lparr>
     mb_blocks := fmupd 2 \<lparr>be_hash = [2], be_data = [20, 21]\<rparr>
                    (fmupd 1 \<lparr>be_hash = [1], be_data = [10]\<rparr> fmempty),
     mb_byHash := fmupd [2] 2 (fmupd [1] 1 fmempty), mb_base := 1, mb_height := 2\<rparr>"
  by (simp add: ex_memory_store_def mem_SaveBlock_def NewMemoryBlockStore_def)

lemma ex_memory_store_inv: "mem_inv ex_memory_store"
proof -
  have 1: "mem_SaveBlock NewMemoryBlockStore 1 [1] [10]
      = (None, snd (mem_SaveBlock NewMemoryBlockStore 1 [1] [10]))"
    by (simp add: mem_SaveBlock_def NewMemoryBlockStore_def)
  let ?m = "snd (mem_SaveBlock NewMemoryBlockStore 1 [1] [10])"
  have 2: "mem_SaveBlock ?m 2 [2] [20, 21] = (None, snd (mem_SaveBlock ?m 2 [2] [20, 21]))"
    by (simp add: mem_SaveBlock_def NewMemoryBlockStore_def)
  show ?thesis
    unfolding ex_memory_store_def
    using mem_inv_SaveBlock [OF mem_inv_SaveBlock [OF mem_inv_new _ 1] _ 2] by simp
qed

theorem memory_prune_exact_witness:
  "\<exists>r m'. mem_Prune ex_memory_store 2 = (Inr r, m') \<and>
     mem_LoadBlock m' 1 = Inl ErrBlockNotFound \<and> mem_LoadBlock m' 2 = Inr ([2], [20, 21])"
proof -
  have "0 < (2::int)" "2 \<le> mem_Height ex_memory_store"
    by (simp_all add: mem_Height_def ex_memory_store_eq)
  from memory_prune_exact [OF ex_memory_store_inv this] obtain r m' where
    r: "mem_Prune ex_memory_store 2 = (Inr r, m')"
    and l: "\<forall>h. mem_LoadBlock m' h = (if 2 \<le> h \<or> mem_retains ex_memory_store h
      then mem_LoadBlock ex_memory_store h else Inl ErrBlockNotFound)" by blast
  have "\<not> mem_retains ex_memory_store 1"
    by (simp add: mem_retains_def ex_memory_store_eq NewMemoryBlockStore_def)
  moreover have "mem_LoadBlock ex_memory_store 2 = Inr ([2], [20, 21])"
    by (simp add: mem_LoadBlock_def ex_memory_store_eq)
  ultimately show ?thesis using r l by auto
qed

theorem memory_blocks_immutable_witness:
  "mem_LoadBlock (save_all memory_store (snd (mem_SaveBlock ex_memory_store 3 [3] [30])) [(3, [9], [9])]) 3
     = Inr ([3], [30])"
proof -
  have "mem_SaveBlock ex_memory_store 3 [3] [30] = (None, snd (mem_SaveBlock ex_memory_store 3 [3] [30]))"
    by (simp add: mem_SaveBlock_def ex_memory_store_eq)
  from memory_blocks_immutable [OF ex_memory_store_inv _ this, of "[(3, [9], [9])]"]
  show ?thesis by simp
qed

theorem memory_save_iff_new_witness:
  "fst (mem_SaveBlock ex_memory_store 3 [2] []) \<noteq> None \<and>
   snd (mem_SaveBlock ex_memory_store 3 [2] []) = ex_memory_store"
proof -
  have "fst (mem_SaveBlock ex_memory_store 3 [2] []) \<noteq> None"
    by (simp add: mem_SaveBlock_def ex_memory_store_eq)
  moreover have "0 < (3 :: int)" by simp
  ultimately show ?thesis using memory_save_iff_new [OF ex_memory_store_inv, of 3 "[2]" "[]"] by blast
qed

text \<open>Certificates as triples of digest, round and author.\<close>

theorem memory_certs_by_round_witness:
  "let Digest = (\<lambda>(d, r, a). d); Round = (\<lambda>(d, r, a). r); Author = (\<lambda>(d, r, a). a);
       m = (save_certs Digest Round NewMemoryBlockStore
              [Some ([1], 5, 2), Some ([2], 5, 1), None, Some ([3], 6, 0), Some ([1], 5, 2)]
            :: (bytes \<times> nat \<times> nat, nat) memoryBlockStore);
       result = [([2], 5, 1), ([1], 5, 2)]
   in mem_GetCertificatesForRound Author m 5 result \<and>
      set result = {c. mem_GetCertificate m (Digest c) = Inr c \<and> Round c = 5}"
proof -
  define Digest Round Author where d: "Digest = (\<lambda>(d :: bytes, r :: nat, a :: nat). d)"
    "Round = (\<lambda>(d :: bytes, r :: nat, a :: nat). r)" "Author = (\<lambda>(d :: bytes, r :: nat, a :: nat). a)"
  define m where "m = (save_certs Digest Round NewMemoryBlockStore
      [Some ([1], 5, 2), Some ([2], 5, 1), None, Some ([3], 6, 0), Some ([1], 5, 2)]
      :: (bytes \<times> nat \<times> nat, nat) memoryBlockStore)"
  have q: "mem_GetCertificatesForRound Author m 5 [([2], 5, 1), ([1], 5, 2)]"
    by (simp add: mem_GetCertificatesForRound_def m_def mem_SaveCertificate_def NewMemoryBlockStore_def
        mem_certs_of_def List.map_filter_def d Let_def)
  from memory_certs_by_round [OF m_def q] have
    "set [([2], 5, 1), ([1], 5, 2)] = {c. mem_GetCertificate m (Digest c) = Inr c \<and> Round c = 5}" by blast
  with q show ?thesis unfolding Let_def m_def d by blast
qed

end
