(* ===== verification/HeaderStore.thy ===== *)
theory HeaderStore
  imports MemoryStore
begin

text \<open>
  \<open>pkg/blockstore/header_only.go\<close> and \<open>noop.go\<close>. The header-only store is shown to be the memory
  store with the data of the blocks erased. Where the code returns nil data the interface
  record has the empty list.
\<close>

section \<open>HeaderOnlyBlockStore\<close>

record headerOnlyBlockStore =
  hb_headers :: "(int, bytes) fmap"
  hb_byHash :: "(bytes, int) fmap"
  hb_height :: int
  hb_base :: int

definition NewHeaderOnlyBlockStore :: headerOnlyBlockStore where
  "NewHeaderOnlyBlockStore = \<lparr>hb_headers = fmempty, hb_byHash = fmempty, hb_height = 0, hb_base = 0\<rparr>"

definition header_SaveBlock ::
  "headerOnlyBlockStore \<Rightarrow> int \<Rightarrow> bytes \<Rightarrow> bytes \<Rightarrow> error option \<times> headerOnlyBlockStore" where
  "header_SaveBlock s height hash data =
     (if fmlookup (hb_headers s) height \<noteq> None then (Some ErrBlockAlreadyExists, s)
      else if (case fmlookup (hb_byHash s) hash of
                 Some existingHeight \<Rightarrow> existingHeight \<noteq> height | None \<Rightarrow> False)
      then (Some ErrBlockAlreadyExists, s)
      else
        (None, s\<lparr>hb_headers := fmupd height hash (hb_headers s),
                 hb_byHash := fmupd hash height (hb_byHash s),
                 hb_height := (if height > hb_height s then height else hb_height s),
                 hb_base := (if hb_base s = 0 \<or> height < hb_base s then height else hb_base s)\<rparr>))"

definition header_LoadBlock :: "headerOnlyBlockStore \<Rightarrow> int \<Rightarrow> error + (bytes \<times> bytes)" where
  "header_LoadBlock s height =
     (case fmlookup (hb_headers s) height of
        None \<Rightarrow> Inl ErrBlockNotFound
      | Some hash \<Rightarrow> Inr (hash, []))"

definition header_LoadBlockByHash :: "headerOnlyBlockStore \<Rightarrow> bytes \<Rightarrow> error + (int \<times> bytes)" where
  "header_LoadBlockByHash s hash =
     (case fmlookup (hb_byHash s) hash of
        None \<Rightarrow> Inl ErrBlockNotFound
      | Some height \<Rightarrow> Inr (height, []))"

definition header_HasBlock :: "headerOnlyBlockStore \<Rightarrow> int \<Rightarrow> bool" where
  "header_HasBlock s height \<longleftrightarrow> fmlookup (hb_headers s) height \<noteq> None"

definition header_Height :: "headerOnlyBlockStore \<Rightarrow> int" where
  "header_Height s = hb_height s"

definition header_Base :: "headerOnlyBlockStore \<Rightarrow> int" where
  "header_Base s = hb_base s"

definition header_Close :: "headerOnlyBlockStore \<Rightarrow> headerOnlyBlockStore" where
  "header_Close s = s\<lparr>hb_headers := fmempty, hb_byHash := fmempty, hb_height := 0, hb_base := 0\<rparr>"

definition header_GetHash :: "headerOnlyBlockStore \<Rightarrow> int \<Rightarrow> error + bytes" where
  "header_GetHash s height =
     (case fmlookup (hb_headers s) height of None \<Rightarrow> Inl ErrBlockNotFound | Some hash \<Rightarrow> Inr hash)"

definition header_store :: "headerOnlyBlockStore blockstore" where
  "header_store = \<lparr>SaveBlock = header_SaveBlock, LoadBlock = header_LoadBlock,
     LoadBlockByHash = header_LoadBlockByHash, HasBlock = header_HasBlock, Height = header_Height,
     Base = header_Base\<rparr>"

section \<open>Erasure of the data\<close>

text \<open>The header-only store a memory store stands for.\<close>

definition erase :: "('c, 'b) memoryBlockStore \<Rightarrow> headerOnlyBlockStore" where
  "erase m = \<lparr>hb_headers = fmmap be_hash (mb_blocks m), hb_byHash = mb_byHash m,
     hb_height = mb_height m, hb_base = mb_base m\<rparr>"

lemma erase_new: "erase NewMemoryBlockStore = NewHeaderOnlyBlockStore"
  by (simp add: erase_def NewMemoryBlockStore_def NewHeaderOnlyBlockStore_def)

lemma fmmap_fmupd: "fmmap f (fmupd k v m) = fmupd k (f v) (fmmap f m)"
  by (rule fmap_ext) simp

lemma erase_SaveBlock:
  "header_SaveBlock (erase m) h hash data =
     (case mem_SaveBlock m h hash data of (e, m') \<Rightarrow> (e, erase m'))"
  by (simp add: header_SaveBlock_def mem_SaveBlock_def erase_def fmmap_fmupd split: option.split)

definition header_inv :: "headerOnlyBlockStore \<Rightarrow> bool" where
  "header_inv s \<longleftrightarrow> (\<exists>m :: (unit, unit) memoryBlockStore. mem_inv m \<and> s = erase m)"

definition header_view :: "headerOnlyBlockStore \<Rightarrow> (int, bytes \<times> bytes) fmap" where
  "header_view s = fmmap (\<lambda>hash. (hash, [])) (hb_headers s)"

lemma erase_view: "fmlookup (header_view (erase m)) h = map_option (\<lambda>(hash, d). (hash, [])) (fmlookup (mem_view m) h)"
  by (simp add: header_view_def erase_def mem_view_lookup option.map_comp comp_def)

lemma header_store_by_hash: "LoadBlockByHash header_store = header_LoadBlockByHash"
  by (simp add: header_store_def)

lemma erase_by_hash:
  "header_LoadBlockByHash (erase m) hash = Inr (h, d) \<longleftrightarrow> fmlookup (mb_byHash m) hash = Some h \<and> d = []"
  by (auto simp: header_LoadBlockByHash_def erase_def split: option.splits)

lemma header_inv_new: "header_inv NewHeaderOnlyBlockStore"
  unfolding header_inv_def by (metis erase_new mem_inv_new)

text \<open>The laws of the header-only store follow from those of the memory store.\<close>

interpretation hdr: complete_store header_store header_inv header_view "\<lambda>d. []"
proof (unfold_locales, goal_cases)
  case (1 s h hash data)
  then obtain m :: "(unit, unit) memoryBlockStore" where m: "mem_inv m" "s = erase m"
    by (auto simp: header_inv_def)
  have "mem_inv (snd (mem_SaveBlock m h hash data))"
    using mem.save_inv [OF m(1) 1(2), of hash data] by (simp add: memory_store_def)
  then show ?case
    unfolding header_inv_def m(2) by (auto simp: header_store_def erase_SaveBlock split: prod.split)
next
  case (2 s h hash data s')
  then obtain m :: "(unit, unit) memoryBlockStore" where m: "mem_inv m" "s = erase m"
    by (auto simp: header_inv_def)
  obtain m' where m': "mem_SaveBlock m h hash data = (None, m')" "s' = erase m'"
    using 2(3) m(2) by (auto simp: header_store_def erase_SaveBlock split: prod.splits)
  show ?case
    using mem_SaveBlock_ok [OF m(1) m'(1)]
    by (simp add: m(2) m'(2) header_store_def header_Height_def erase_def header_view_def fmmap_fmupd max_def)
next
  case (3 s h hash data e s')
  then show ?case by (simp add: header_store_def header_SaveBlock_def split: if_splits)
next
  case (4 s h)
  then show ?case by (simp add: header_store_def header_HasBlock_def header_view_def)
next
  case (5 s h)
  then show ?case
    by (simp add: header_store_def header_LoadBlock_def header_view_def split: option.split)
next
  case (6 s hash h d)
  then obtain m :: "(unit, unit) memoryBlockStore" where m: "mem_inv m" "s = erase m"
    by (auto simp: header_inv_def)
  show ?case
    unfolding m(2) header_store_by_hash erase_by_hash mem_inv_hash [OF m(1)]
    by (auto simp: header_view_def erase_def)
next
  case (7 s hash e)
  then show ?case by (simp add: header_store_def header_LoadBlockByHash_def split: option.splits)
next
  case (8 s h)
  then obtain m :: "(unit, unit) memoryBlockStore" where m: "mem_inv m" "s = erase m"
    by (auto simp: header_inv_def)
  then show ?case
    using mem_inv_bounds [OF m(1), of h] 8(2)
    by (auto simp: header_store_def header_Base_def header_Height_def header_view_def erase_def)
next
  case (9 s h hash data)
  then obtain m :: "(unit, unit) memoryBlockStore" where m: "mem_inv m" "s = erase m"
    by (auto simp: header_inv_def)
  have "fmlookup (mem_view m) h = None" using 9(3) by (simp add: m(2) erase_view)
  moreover have "fmlookup (mem_view m) k \<noteq> Some (hash, d)" for k d
    using 9(4) [of k "[]"] by (auto simp: m(2) erase_view)
  ultimately have "fst (mem_SaveBlock m h hash data) = None"
    using mem.save_accepts [OF m(1) 9(2), of hash data] by (simp add: memory_store_def)
  then show ?case by (simp add: m(2) header_store_def erase_SaveBlock case_prod_beta)
qed

fun save_errors :: "('s, 'z) blockstore_scheme \<Rightarrow> 's \<Rightarrow> (int \<times> bytes \<times> bytes) list \<Rightarrow> error option list" where
  "save_errors S s [] = []"
| "save_errors S s ((height, hash, data) # bs) =
     fst (SaveBlock S s height hash data) # save_errors S (snd (SaveBlock S s height hash data)) bs"

lemma header_store_save: "SaveBlock header_store = header_SaveBlock"
  by (simp add: header_store_def)

lemma memory_store_save: "SaveBlock memory_store = mem_SaveBlock"
  by (simp add: memory_store_def)

lemma erase_save_all:
  "save_all header_store (erase m) bs = erase (save_all memory_store m bs) \<and>
   save_errors header_store (erase m) bs = save_errors memory_store m bs"
proof (induction bs arbitrary: m)
  case (Cons x bs)
  obtain h hash data where x: "x = (h, hash, data)" by (cases x)
  show ?case
    using Cons.IH [of "snd (mem_SaveBlock m h hash data)"]
    by (simp add: x header_store_save memory_store_save erase_SaveBlock case_prod_beta)
qed simp

section \<open>NoOpBlockStore\<close>

definition noop_store :: "unit blockstore" where
  "noop_store = \<lparr>SaveBlock = (\<lambda>s height hash data. (Some ErrStoreClosed, s)),
     LoadBlock = (\<lambda>s height. Inl ErrBlockNotFound),
     LoadBlockByHash = (\<lambda>s hash. Inl ErrBlockNotFound),
     HasBlock = (\<lambda>s height. False), Height = (\<lambda>s. 0), Base = (\<lambda>s. 0)\<rparr>"

text \<open>It keeps the contract of a store, though not that of a store which accepts new blocks.\<close>

interpretation nop: block_store noop_store "\<lambda>s. True" "\<lambda>s. fmempty" id
  by unfold_locales (simp_all add: noop_store_def)

section \<open>Properties\<close>


end
