(* ===== verification/ProposerSelection.thy ===== *)
theory ProposerSelection
  imports ValidatorSet
begin

text \<open>
  The rest of \<open>pkg/consensus/validators.go\<close>: \<open>WeightedProposerSelection\<close>, with the fairness of
  its choice, and \<open>InMemoryValidatorSetStore\<close>, whose binary search is shown to find the set
  that is active at a height. \<open>slices.BinarySearch\<close> and \<open>slices.Insert\<close> are those of Go's library.
\<close>

section \<open>WeightedProposerSelection\<close>

record weightedProposerSelection =
  wps_validators :: "validator list"
  wps_totalPower :: int
  wps_priorities :: "int list"
  wps_lastProposer :: int

definition NewWeightedProposerSelection :: "validator list \<Rightarrow> weightedProposerSelection" where
  "NewWeightedProposerSelection validators =
     \<lparr>wps_validators = validators,
      wps_totalPower = fold (\<lambda>v total. i64 (total + v_VotingPower v)) validators 0,
      wps_priorities = replicate (length validators) 0, wps_lastProposer = -1\<rparr>"

text \<open>The loop both methods share: the first index of the highest priority.\<close>

fun max_loop :: "int list \<Rightarrow> nat \<Rightarrow> int \<Rightarrow> nat \<Rightarrow> nat" where
  "max_loop [] i maxPriority maxIdx = maxIdx"
| "max_loop (p # ps) i maxPriority maxIdx =
     (if p > maxPriority then max_loop ps (i + 1) p i else max_loop ps (i + 1) maxPriority maxIdx)"

definition wps_GetProposer :: "weightedProposerSelection \<Rightarrow> validator option" where
  "wps_GetProposer w =
     (if wps_validators w = [] then None
      else Some (wps_validators w ! max_loop (wps_priorities w) 0 (wps_priorities w ! 0) 0))"

definition IncrementProposerPriority :: "weightedProposerSelection \<Rightarrow> weightedProposerSelection" where
  "IncrementProposerPriority w =
     (if wps_validators w = [] then w
      else
        let proposerIdx = max_loop (wps_priorities w) 0 (wps_priorities w ! 0) 0;
            ps = map (\<lambda>(v, p). i64 (p + v_VotingPower v)) (zip (wps_validators w) (wps_priorities w))
        in w\<lparr>wps_priorities := ps[proposerIdx := i64 (ps ! proposerIdx - wps_totalPower w)],
             wps_lastProposer := int proposerIdx\<rparr>)"

section \<open>Fairness\<close>

lemma max_loop_spec:
  assumes "i \<le> length all" "ps = drop i all" "m < length all" "all ! m = best" "\<forall>j < i. all ! j \<le> best"
  shows "max_loop ps i best m < length all \<and> (\<forall>j < length all. all ! j \<le> all ! max_loop ps i best m)"
  using assms
proof (induction ps i best m rule: max_loop.induct)
  case (1 i best m)
  then show ?case by auto
next
  case (2 p ps i best m)
  have i: "i < length all" using "2.prems"(2) by (metis drop_all linorder_not_less list.discI)
  have p: "p = all ! i" "ps = drop (i + 1) all"
    using "2.prems"(2) i by (simp_all add: Cons_nth_drop_Suc [symmetric])
  show ?case
  proof (cases "p > best")
    case True
    have "\<forall>j < i + 1. all ! j \<le> p" using True "2.prems"(5) p(1) less_Suc_eq by fastforce
    then have "max_loop ps (i + 1) p i < length all \<and>
        (\<forall>j < length all. all ! j \<le> all ! max_loop ps (i + 1) p i)"
      using "2.IH"(1) [OF True _ p(2) i] p(1) i by simp
    then show ?thesis using True by simp
  next
    case False
    have "\<forall>j < i + 1. all ! j \<le> best" using False "2.prems"(5) p(1) less_Suc_eq by fastforce
    then have "max_loop ps (i + 1) best m < length all \<and>
        (\<forall>j < length all. all ! j \<le> all ! max_loop ps (i + 1) best m)"
      using "2.IH"(2) [OF False _ p(2) "2.prems"(3,4)] i by simp
    then show ?thesis using False by simp
  qed
qed

lemma max_loop_max:
  "ps \<noteq> [] \<Longrightarrow> max_loop ps 0 (ps ! 0) 0 < length ps \<and> (\<forall>j < length ps. ps ! j \<le> ps ! max_loop ps 0 (ps ! 0) 0)"
  by (rule max_loop_spec) auto

text \<open>The index chosen in the next round.\<close>

definition next_proposer :: "weightedProposerSelection \<Rightarrow> nat" where
  "next_proposer w = max_loop (wps_priorities w) 0 (wps_priorities w ! 0) 0"

definition wps_after :: "validator list \<Rightarrow> nat \<Rightarrow> weightedProposerSelection" where
  "wps_after vals n = (IncrementProposerPriority ^^ n) (NewWeightedProposerSelection vals)"

text \<open>How often the validator at position \<open>i\<close> is the proposer in the first \<open>n\<close> rounds.\<close>

definition times_proposed :: "validator list \<Rightarrow> nat \<Rightarrow> nat \<Rightarrow> nat" where
  "times_proposed vals n i = length (filter (\<lambda>k. next_proposer (wps_after vals k) = i) [0..<n])"

text \<open>Validators with positive power whose priorities cannot overflow.\<close>

definition power_ok :: "validator list \<Rightarrow> bool" where
  "power_ok vals \<longleftrightarrow> vals \<noteq> [] \<and> (\<forall>v \<in> set vals. 0 < v_VotingPower v) \<and>
     (int (length vals) + 1) * sum_list (map v_VotingPower vals) \<le> MaxInt64"

abbreviation weight :: "validator list \<Rightarrow> nat \<Rightarrow> int" where
  "weight vals i \<equiv> v_VotingPower (vals ! i)"

definition fair_state :: "validator list \<Rightarrow> nat \<Rightarrow> bool" where
  "fair_state vals n \<longleftrightarrow>
     (let w = wps_after vals n; T = sum_list (map v_VotingPower vals) in
      wps_validators w = vals \<and> wps_totalPower w = T \<and> length (wps_priorities w) = length vals \<and>
      (\<forall>i < length vals. wps_priorities w ! i = int n * weight vals i - int (times_proposed vals n i) * T) \<and>
      (\<forall>i < length vals. weight vals i - T \<le> wps_priorities w ! i) \<and> sum_list (wps_priorities w) = 0)"

lemma fold_power:
  "\<forall>v \<in> set vals. 0 < v_VotingPower v \<Longrightarrow> 0 \<le> t \<Longrightarrow> t + sum_list (map v_VotingPower vals) \<le> MaxInt64 \<Longrightarrow>
   fold (\<lambda>v total. i64 (total + v_VotingPower v)) vals t = t + sum_list (map v_VotingPower vals)"
proof (induction vals arbitrary: t)
  case (Cons v vals)
  have "0 \<le> sum_list (map v_VotingPower vals)" using sum_powers_pos [of vals] Cons.prems(1) by simp
  then have "i64 (t + v_VotingPower v) = t + v_VotingPower v"
    using Cons.prems by (intro i64_id) (auto simp: in_i64_def)
  then show ?case using Cons by simp
qed simp

lemma power_ok_total:
  assumes "power_ok vals"
  shows "0 < sum_list (map v_VotingPower vals)"
    "int (length vals) * sum_list (map v_VotingPower vals) + sum_list (map v_VotingPower vals) \<le> MaxInt64"
    "i < length vals \<Longrightarrow> 0 < weight vals i \<and> weight vals i \<le> sum_list (map v_VotingPower vals)"
proof -
  show "0 < sum_list (map v_VotingPower vals)"
    using sum_powers_pos [of vals] assms by (simp add: power_ok_def)
  show "int (length vals) * sum_list (map v_VotingPower vals) + sum_list (map v_VotingPower vals) \<le> MaxInt64"
    using assms by (simp add: power_ok_def algebra_simps)
  assume i: "i < length vals"
  have "weight vals i \<le> sum_list (map v_VotingPower vals)"
    unfolding power_at_all [symmetric] power_at_def
    using assms i by (intro member_le_sum) (auto simp: power_ok_def intro: less_imp_le)
  then show "0 < weight vals i \<and> weight vals i \<le> sum_list (map v_VotingPower vals)"
    using assms i by (simp add: power_ok_def)
qed

lemma priorities_bounds:
  fixes ps :: "int list"
  assumes sum: "sum_list ps = 0" and low: "\<forall>k < length ps. - T \<le> ps ! k" and i: "i < length ps"
  shows "ps ! i \<le> int (length ps - 1) * T"
proof -
  let ?K = "{..<length ps} - {i}"
  have "(\<Sum>k\<in>?K. - T) \<le> (\<Sum>k\<in>?K. ps ! k)" using low by (intro sum_mono) simp
  moreover have "sum_list ps = ps ! i + (\<Sum>k\<in>?K. ps ! k)"
    using i by (simp add: sum_list_sum_nth atLeast0LessThan sum.remove)
  moreover have "card ?K = length ps - 1" using i by simp
  ultimately show ?thesis using sum by simp
qed

lemma max_nonneg:
  fixes ps :: "int list"
  assumes "sum_list ps = 0" "ps \<noteq> []" "\<forall>j < length ps. ps ! j \<le> m"
  shows "0 \<le> m"
proof (rule ccontr)
  assume "\<not> 0 \<le> m"
  then have neg: "\<forall>x \<in> set ps. x < 0" using assms(3) by (metis in_set_conv_nth linorder_not_le order_le_less_trans)
  have "xs \<noteq> [] \<Longrightarrow> \<forall>x \<in> set xs. x < (0 :: int) \<Longrightarrow> sum_list xs < 0" for xs
    by (induction xs rule: induct_list012) auto
  then show False using neg assms(1,2) by fastforce
qed

lemma fair_state_0:
  assumes "power_ok vals"
  shows "fair_state vals 0"
proof -
  let ?T = "sum_list (map v_VotingPower vals)"
  have n: "1 \<le> int (length vals)" using assms by (cases vals) (auto simp: power_ok_def)
  have "?T \<le> MaxInt64"
    using power_ok_total(1,2) [OF assms] mult_nonneg_nonneg [of "int (length vals)" ?T] by linarith
  then have "fold (\<lambda>v total. i64 (total + v_VotingPower v)) vals 0 = ?T"
    using fold_power [of vals 0] assms by (simp add: power_ok_def)
  moreover have "weight vals i \<le> ?T" if "i < length vals" for i using power_ok_total(3) [OF assms that] by simp
  ultimately show ?thesis
    by (simp add: fair_state_def wps_after_def NewWeightedProposerSelection_def times_proposed_def
        sum_list_replicate)
qed

lemma times_proposed_Suc:
  "times_proposed vals (Suc n) i = times_proposed vals n i + (if next_proposer (wps_after vals n) = i then 1 else 0)"
  by (simp add: times_proposed_def)

text \<open>One round without overflow.\<close>

lemma increment_priorities:
  assumes ok: "power_ok vals" and fair: "fair_state vals n"
  defines "w \<equiv> wps_after vals n"
  shows "wps_priorities (wps_after vals (Suc n)) = map (\<lambda>i. wps_priorities w ! i + weight vals i -
      (if i = next_proposer w then sum_list (map v_VotingPower vals) else 0)) [0..<length vals]"
    and "next_proposer w < length vals" "0 \<le> wps_priorities w ! next_proposer w"
    and "wps_validators (wps_after vals (Suc n)) = vals"
    and "wps_totalPower (wps_after vals (Suc n)) = sum_list (map v_VotingPower vals)"
proof -
  let ?T = "sum_list (map v_VotingPower vals)" and ?ps = "wps_priorities w"
  have w: "wps_validators w = vals" "wps_totalPower w = ?T" "length ?ps = length vals"
    "\<forall>i < length vals. weight vals i - ?T \<le> ?ps ! i" "sum_list ?ps = 0"
    using fair unfolding fair_state_def w_def Let_def by auto
  have ne: "vals \<noteq> []" "?ps \<noteq> []" using ok w(3) by (auto simp: power_ok_def)
  have mx: "next_proposer w < length vals" "\<forall>j < length ?ps. ?ps ! j \<le> ?ps ! next_proposer w"
    using max_loop_max [OF ne(2)] w(3) by (simp_all add: next_proposer_def)
  show "next_proposer w < length vals" by (rule mx(1))
  show "0 \<le> ?ps ! next_proposer w" by (rule max_nonneg [OF w(5) ne(2) mx(2)])
  have low: "- ?T \<le> ?ps ! i" "0 < weight vals i" "weight vals i \<le> ?T" if "i < length vals" for i
    using w(4) power_ok_total(3) [OF ok that] that by fastforce+
  have high: "?ps ! i \<le> int (length vals) * ?T" if "i < length vals" for i
  proof -
    have "?ps ! i \<le> int (length ?ps - 1) * ?T" using w(3,5) low(1) that by (intro priorities_bounds) auto
    also have "\<dots> \<le> int (length vals) * ?T" using power_ok_total(1) [OF ok] w(3) by (intro mult_right_mono) auto
    finally show ?thesis .
  qed
  have n1: "?T \<le> int (length vals) * ?T" using mult_right_mono [of 1 "int (length vals)" ?T] ne(1) power_ok_total(1) [OF ok] by (cases vals) auto
  have in_range: "in_i64 (?ps ! i + weight vals i)" "in_i64 (?ps ! i + weight vals i - ?T)" if "i < length vals" for i
    using low [OF that] high [OF that] power_ok_total(1,2) [OF ok] n1 unfolding in_i64_def by linarith+
  have inc: "wps_after vals (Suc n) = IncrementProposerPriority w" by (simp add: wps_after_def w_def)
  show "wps_validators (wps_after vals (Suc n)) = vals" "wps_totalPower (wps_after vals (Suc n)) = ?T"
    using ne(1) w(1,2) by (simp_all add: inc IncrementProposerPriority_def Let_def)
  show "wps_priorities (wps_after vals (Suc n)) = map (\<lambda>i. ?ps ! i + weight vals i -
      (if i = next_proposer w then ?T else 0)) [0..<length vals]"
    using ne(1) w mx(1) in_range
    by (intro nth_equalityI)
      (auto simp: inc IncrementProposerPriority_def Let_def next_proposer_def [symmetric] nth_list_update)
qed

lemma fair_state_Suc:
  assumes ok: "power_ok vals" and fair: "fair_state vals n"
  shows "fair_state vals (Suc n)"
proof -
  let ?w = "wps_after vals n" and ?T = "sum_list (map v_VotingPower vals)"
  let ?ps = "wps_priorities ?w" and ?ps' = "wps_priorities (wps_after vals (Suc n))"
  note inc = increment_priorities [OF ok fair]
  have w: "length ?ps = length vals" "sum_list ?ps = 0"
    "\<And>i. i < length vals \<Longrightarrow> weight vals i - ?T \<le> ?ps ! i"
    "\<And>i. i < length vals \<Longrightarrow> ?ps ! i = int n * weight vals i - int (times_proposed vals n i) * ?T"
    using fair unfolding fair_state_def Let_def by auto
  have nth: "?ps' ! i = ?ps ! i + weight vals i - (if i = next_proposer ?w then ?T else 0)" if "i < length vals" for i
    using that by (simp add: inc(1))
  have "sum_list ?ps' = (\<Sum>i<length vals. ?ps ! i + weight vals i - (if i = next_proposer ?w then ?T else 0))"
    unfolding inc(1) by (simp add: interv_sum_list_conv_sum_set_nat atLeast0LessThan)
  also have "\<dots> = sum_list ?ps + ?T - ?T"
    using inc(2) w(1)
    by (simp add: sum.distrib sum_subtractf sum_list_sum_nth atLeast0LessThan)
  finally have "sum_list ?ps' = 0" using w(2) by simp
  moreover have "weight vals i - ?T \<le> ?ps' ! i" if "i < length vals" for i
    using nth [OF that] w(3) [OF that] inc(3) power_ok_total(3) [OF ok that] by auto
  moreover have "?ps' ! i = int (Suc n) * weight vals i - int (times_proposed vals (Suc n) i) * ?T"
    if "i < length vals" for i
    using nth [OF that] w(4) [OF that] by (auto simp: times_proposed_Suc algebra_simps)
  moreover have "length ?ps' = length vals" by (simp add: inc(1))
  ultimately show ?thesis using inc(4,5) unfolding fair_state_def Let_def by auto
qed

lemma fair_state_all: "power_ok vals \<Longrightarrow> fair_state vals n"
  by (induction n) (simp_all add: fair_state_0 fair_state_Suc)

lemma fair_bounds:
  fixes n :: nat
  assumes ok: "power_ok vals" and i: "i < length vals"
  defines "T \<equiv> sum_list (map v_VotingPower vals)" and "ps \<equiv> wps_priorities (wps_after vals n)"
  shows "ps ! i = int n * weight vals i - int (times_proposed vals n i) * T"
    "ps ! i \<le> int (length vals - 1) * T" "- T < ps ! i"
proof -
  have f: "length ps = length vals" "sum_list ps = 0" "\<forall>k < length vals. weight vals k - T \<le> ps ! k"
    using fair_state_all [OF ok, of n] unfolding fair_state_def Let_def ps_def T_def by auto
  have low: "\<forall>k < length ps. - T < ps ! k"
    using f(1,3) power_ok_total(3) [OF ok] unfolding T_def by fastforce
  show "ps ! i = int n * weight vals i - int (times_proposed vals n i) * T"
    using fair_state_all [OF ok, of n] i unfolding fair_state_def Let_def ps_def T_def by auto
  show "ps ! i \<le> int (length vals - 1) * T"
    using priorities_bounds [OF f(2), of T i] low i f(1) by (simp add: less_imp_le)
  show "- T < ps ! i" using low i f(1) by simp
qed

section \<open>InMemoryValidatorSetStore\<close>

record 'v valSetStore =
  ms_sets :: "(int, 'v) fmap"
  ms_sortedHeights :: "int list"
  ms_latest :: int

definition NewInMemoryValidatorSetStore :: "'v valSetStore" where
  "NewInMemoryValidatorSetStore = \<lparr>ms_sets = fmempty, ms_sortedHeights = [], ms_latest = 0\<rparr>"

text \<open>The loop of \<open>slices.BinarySearch\<close>: the first position in \<open>i..<j\<close> that is not below the target.\<close>

function bsearch :: "int list \<Rightarrow> int \<Rightarrow> nat \<Rightarrow> nat \<Rightarrow> nat" where
  "bsearch xs target i j =
     (if i < j
      then let h = (i + j) div 2 in if xs ! h < target then bsearch xs target (h + 1) j else bsearch xs target i h
      else i)"
  by pat_completeness auto
termination by (relation "measure (\<lambda>(xs, target, i, j). j - i)") auto

declare bsearch.simps [simp del]

definition BinarySearch :: "int list \<Rightarrow> int \<Rightarrow> nat \<times> bool" where
  "BinarySearch xs target =
     (let i = bsearch xs target 0 (length xs) in (i, i < length xs \<and> xs ! i = target))"

definition slices_Insert :: "'a list \<Rightarrow> nat \<Rightarrow> 'a \<Rightarrow> 'a list" where
  "slices_Insert xs i v = take i xs @ v # drop i xs"

definition SaveValidatorSet :: "'v valSetStore \<Rightarrow> int \<Rightarrow> 'v \<Rightarrow> 'v valSetStore" where
  "SaveValidatorSet s height valSet =
     s\<lparr>ms_sortedHeights :=
         (if fmlookup (ms_sets s) height = None
          then slices_Insert (ms_sortedHeights s) (fst (BinarySearch (ms_sortedHeights s) height)) height
          else ms_sortedHeights s),
       ms_sets := fmupd height valSet (ms_sets s),
       ms_latest := (if height > ms_latest s then height else ms_latest s)\<rparr>"

definition LoadValidatorSet :: "'v valSetStore \<Rightarrow> int \<Rightarrow> error + 'v" where
  "LoadValidatorSet s height =
     (case fmlookup (ms_sets s) height of None \<Rightarrow> Inl ErrValidatorSetNotFound | Some v \<Rightarrow> Inr v)"

text \<open>The map is read without a check: \<open>Inr None\<close> is the nil interface value.\<close>

definition LatestValidatorSet :: "'v valSetStore \<Rightarrow> error + 'v option" where
  "LatestValidatorSet s =
     (if ms_latest s = 0 then Inl ErrValidatorSetNotFound else Inr (fmlookup (ms_sets s) (ms_latest s)))"

definition ValidatorSetAtHeight :: "'v valSetStore \<Rightarrow> int \<Rightarrow> error + 'v option" where
  "ValidatorSetAtHeight s height =
     (if ms_sortedHeights s = [] then Inl ErrValidatorSetNotFound
      else
        (case BinarySearch (ms_sortedHeights s) height of
           (idx, found) \<Rightarrow>
             if found then Inr (fmlookup (ms_sets s) (ms_sortedHeights s ! idx))
             else if idx > 0 then Inr (fmlookup (ms_sets s) (ms_sortedHeights s ! (idx - 1)))
             else Inl ErrValidatorSetNotFound))"

fun save_sets :: "'v valSetStore \<Rightarrow> (int \<times> 'v) list \<Rightarrow> 'v valSetStore" where
  "save_sets s [] = s"
| "save_sets s ((height, valSet) # xs) = save_sets (SaveValidatorSet s height valSet) xs"

lemma bsearch_spec:
  assumes "sorted xs" "j \<le> length xs" "i \<le> j" "\<forall>k < i. xs ! k < t" "\<forall>k. j \<le> k \<and> k < length xs \<longrightarrow> t \<le> xs ! k"
  shows "bsearch xs t i j \<le> length xs \<and> (\<forall>k < bsearch xs t i j. xs ! k < t) \<and>
    (\<forall>k. bsearch xs t i j \<le> k \<and> k < length xs \<longrightarrow> t \<le> xs ! k)"
  using assms
proof (induction xs t i j rule: bsearch.induct)
  case (1 xs t i j)
  let ?h = "(i + j) div 2"
  show ?case
  proof (cases "i < j")
    case True
    have h: "i \<le> ?h" "?h < j" using True by auto
    show ?thesis
    proof (cases "xs ! ?h < t")
      case lt: True
      have "xs ! k < t" if "k < ?h + 1" for k
        using sorted_nth_mono [OF "1.prems"(1), of k ?h] that h(2) "1.prems"(2) lt by auto
      then have "bsearch xs t (?h + 1) j \<le> length xs \<and> (\<forall>k < bsearch xs t (?h + 1) j. xs ! k < t) \<and>
          (\<forall>k. bsearch xs t (?h + 1) j \<le> k \<and> k < length xs \<longrightarrow> t \<le> xs ! k)"
        using "1.IH"(1) [OF True refl lt "1.prems"(1,2) _ _ "1.prems"(5)] h(2) by simp
      then show ?thesis using True lt by (subst (1 2 3) bsearch.simps) (simp add: Let_def)
    next
      case ge: False
      have "t \<le> xs ! k" if "?h \<le> k \<and> k < length xs" for k
        using sorted_nth_mono [OF "1.prems"(1), of ?h k] that ge by auto
      then have "bsearch xs t i ?h \<le> length xs \<and> (\<forall>k < bsearch xs t i ?h. xs ! k < t) \<and>
          (\<forall>k. bsearch xs t i ?h \<le> k \<and> k < length xs \<longrightarrow> t \<le> xs ! k)"
        using "1.IH"(2) [OF True refl ge "1.prems"(1) _ h(1) "1.prems"(4)] h(2) "1.prems"(2) by simp
      then show ?thesis using True ge by (subst (1 2 3) bsearch.simps) (simp add: Let_def)
    qed
  next
    case False
    then show ?thesis using "1.prems" by (subst (1 2 3) bsearch.simps) simp
  qed
qed

lemma BinarySearch_spec:
  assumes "sorted xs" "BinarySearch xs t = (idx, found)"
  shows "idx \<le> length xs" "k < idx \<Longrightarrow> xs ! k < t" "idx \<le> k \<Longrightarrow> k < length xs \<Longrightarrow> t \<le> xs ! k"
    "found \<longleftrightarrow> idx < length xs \<and> xs ! idx = t"
  using bsearch_spec [OF assms(1), of "length xs" 0 t] assms(2) by (auto simp: BinarySearch_def Let_def)

definition store_inv :: "'v valSetStore \<Rightarrow> bool" where
  "store_inv s \<longleftrightarrow> sorted (ms_sortedHeights s) \<and> distinct (ms_sortedHeights s) \<and>
     set (ms_sortedHeights s) = fmdom' (ms_sets s)"

lemma Insert_sorted:
  assumes "sorted xs" "\<forall>k < i. xs ! k \<le> t" "\<forall>k. i \<le> k \<and> k < length xs \<longrightarrow> t \<le> xs ! k" "i \<le> length xs"
  shows "sorted (slices_Insert xs i t)"
proof -
  have "sorted (take i xs @ drop i xs)" using assms(1) by simp
  moreover have "\<forall>x \<in> set (take i xs). x \<le> t" using assms(2,4) by (auto simp: in_set_conv_nth)
  moreover have "\<forall>x \<in> set (drop i xs). t \<le> x" using assms(3,4) by (auto simp: in_set_conv_nth)
  ultimately show ?thesis unfolding slices_Insert_def sorted_append by auto
qed

lemma set_Insert: "set (slices_Insert xs i t) = insert t (set xs)"
  by (metis append_take_drop_id list.simps(15) set_append Un_insert_right slices_Insert_def)

lemma distinct_Insert: "distinct (slices_Insert xs i t) \<longleftrightarrow> distinct xs \<and> t \<notin> set xs"
proof -
  have "mset (slices_Insert xs i t) = mset (t # xs)"
    by (simp add: slices_Insert_def) (metis append_take_drop_id mset_append union_mset_add_mset_right)
  then show ?thesis by (metis distinct.simps(2) mset_eq_imp_distinct_iff)
qed

lemma store_inv_save: "store_inv s \<Longrightarrow> store_inv (SaveValidatorSet s h v)"
proof -
  assume s: "store_inv s"
  obtain idx found where b: "BinarySearch (ms_sortedHeights s) h = (idx, found)" by fastforce
  have so: "sorted (ms_sortedHeights s)" using s by (simp add: store_inv_def)
  have "sorted (slices_Insert (ms_sortedHeights s) idx h)"
    using BinarySearch_spec [OF so b] by (intro Insert_sorted [OF so]) (auto intro: less_imp_le)
  then show ?thesis
    using s by (auto simp: store_inv_def SaveValidatorSet_def b set_Insert distinct_Insert fmdom'_notI
        intro: fmdom'I)
qed

lemma save_sets_inv: "store_inv s \<Longrightarrow> store_inv (save_sets s xs)"
  by (induction s xs rule: save_sets.induct) (simp_all add: store_inv_save)

lemma store_inv_new: "store_inv NewInMemoryValidatorSetStore"
  by (simp add: store_inv_def NewInMemoryValidatorSetStore_def)

text \<open>The specification: the set saved at the greatest height that is not above \<open>h\<close>.\<close>

lemma at_height_found:
  assumes s: "store_inv s" and k: "fmlookup (ms_sets s) k = Some v" "k \<le> h"
    and greatest: "\<And>k'. fmlookup (ms_sets s) k' \<noteq> None \<Longrightarrow> k' \<le> h \<Longrightarrow> k' \<le> k"
  shows "ValidatorSetAtHeight s h = Inr (Some v)"
proof -
  let ?hs = "ms_sortedHeights s"
  have so: "sorted ?hs" and dom: "set ?hs = fmdom' (ms_sets s)" using s by (simp_all add: store_inv_def)
  obtain idx found where b: "BinarySearch ?hs h = (idx, found)" by fastforce
  note spec = BinarySearch_spec [OF so b]
  have "k \<in> set ?hs" using k(1) dom by (simp add: fmdom'I)
  then obtain p where p: "p < length ?hs" "?hs ! p = k" by (metis in_set_conv_nth)
  have in_dom: "fmlookup (ms_sets s) (?hs ! q) \<noteq> None" if "q < length ?hs" for q
    using that dom by (metis fmdom'_notI nth_mem)
  show ?thesis
  proof (cases found)
    case True
    then have "?hs ! idx = h" "idx < length ?hs" using spec(4) by simp_all
    then have "?hs ! idx = k" using greatest [OF in_dom [of idx]] k(2) by simp
    then show ?thesis using True b k(1) p by (auto simp: ValidatorSetAtHeight_def)
  next
    case False
    have "p < idx"
    proof (rule ccontr)
      assume "\<not> p < idx"
      then have le: "idx \<le> p" by simp
      then have "h \<le> ?hs ! idx" "idx < length ?hs" using spec(3) [of idx] p(1) by simp_all
      moreover have "?hs ! idx \<le> ?hs ! p" using sorted_nth_mono [OF so le p(1)] .
      ultimately show False using spec(4) False p(2) k(2) by simp
    qed
    then have i: "idx - 1 < length ?hs" "?hs ! (idx - 1) < h" "p \<le> idx - 1"
      using spec(1) spec(2) [of "idx - 1"] by auto
    have "?hs ! (idx - 1) = k"
      using greatest [OF in_dom [OF i(1)]] i(2) sorted_nth_mono [OF so i(3,1)] p(2) by simp
    then show ?thesis using False b k(1) p \<open>p < idx\<close> by (auto simp: ValidatorSetAtHeight_def)
  qed
qed

lemma at_height_not_found:
  assumes s: "store_inv s" and none: "\<And>k. fmlookup (ms_sets s) k \<noteq> None \<Longrightarrow> h < k"
  shows "ValidatorSetAtHeight s h = Inl ErrValidatorSetNotFound"
proof -
  let ?hs = "ms_sortedHeights s"
  have so: "sorted ?hs" and dom: "set ?hs = fmdom' (ms_sets s)" using s by (simp_all add: store_inv_def)
  obtain idx found where b: "BinarySearch ?hs h = (idx, found)" by fastforce
  note spec = BinarySearch_spec [OF so b]
  have above: "h < ?hs ! q" if "q < length ?hs" for q
    using that dom none by (metis fmdom'_notI nth_mem)
  have "\<not> found" using spec(4) above by fastforce
  moreover have "idx = 0"
  proof (rule ccontr)
    assume "idx \<noteq> 0"
    then show False using spec(1) spec(2) [of 0] above [of 0] by (cases ?hs) auto
  qed
  ultimately show ?thesis using b by (simp add: ValidatorSetAtHeight_def)
qed

section \<open>Properties\<close>

text \<open>
  C4: Weighted selection is fair: after \<open>n\<close> rounds the number of rounds in which a validator has
  proposed, times the total power, differs from \<open>n\<close> times its own power by less than the total
  above and by at most \<open>N - 1\<close> totals below, \<open>N\<close> the number of validators; no priority overflows.
\<close>

theorem weighted_selection_fair:
  assumes ok: "power_ok vals" and i: "i < length vals"
  shows "let T = sum_list (map v_VotingPower vals); c = int (times_proposed vals n i) in
    c * T < int n * weight vals i + T \<and> int n * weight vals i \<le> c * T + int (length vals - 1) * T \<and>
    wps_priorities (wps_after vals n) ! i = int n * weight vals i - c * T"
  unfolding Let_def using fair_bounds [OF ok i, of n] by linarith

text \<open>
  C5: Weighted selection is live: every validator proposes within the first \<open>n\<close> rounds as soon as
  \<open>n\<close> times its power exceeds \<open>N - 1\<close> times the total power.
\<close>

theorem weighted_selection_live:
  assumes ok: "power_ok vals" and i: "i < length vals"
    and n: "int (length vals - 1) * sum_list (map v_VotingPower vals) < int n * weight vals i"
  shows "\<exists>k < n. wps_GetProposer (wps_after vals k) = Some (vals ! i)"
proof -
  have "times_proposed vals n i \<noteq> 0"
    using n fair_bounds(1,2) [OF ok i, of n] by (intro notI) simp
  then obtain k where k: "k < n" "next_proposer (wps_after vals k) = i"
    by (auto simp: times_proposed_def filter_empty_conv)
  have "wps_validators (wps_after vals k) = vals"
    using fair_state_all [OF ok, of k] unfolding fair_state_def Let_def by auto
  then have "wps_GetProposer (wps_after vals k) = Some (vals ! i)"
    using k(2) ok by (simp add: wps_GetProposer_def next_proposer_def power_ok_def)
  with k(1) show ?thesis by blast
qed

text \<open>
  C6: The binary search of \<open>ValidatorSetAtHeight\<close> returns the set saved last for the greatest
  height not above the one asked for, in whatever order the sets were saved, and an error when
  there is none.
\<close>

theorem set_store_active_at_height:
  fixes xs :: "(int \<times> 'v) list"
  defines "s \<equiv> save_sets NewInMemoryValidatorSetStore xs"
  shows "(\<forall>k v. LoadValidatorSet s k = Inr v \<and> k \<le> h \<and> (\<forall>k' v'. LoadValidatorSet s k' = Inr v' \<and> k' \<le> h \<longrightarrow> k' \<le> k)
      \<longrightarrow> ValidatorSetAtHeight s h = Inr (Some v)) \<and>
    ((\<forall>k v. LoadValidatorSet s k = Inr v \<longrightarrow> h < k) \<longrightarrow> ValidatorSetAtHeight s h = Inl ErrValidatorSetNotFound)"
proof -
  have inv: "store_inv s" unfolding s_def by (rule save_sets_inv [OF store_inv_new])
  have load: "LoadValidatorSet s k = Inr v \<longleftrightarrow> fmlookup (ms_sets s) k = Some v" for k v
    by (simp add: LoadValidatorSet_def split: option.split)
  show ?thesis
    unfolding load using at_height_found [OF inv] at_height_not_found [OF inv] by blast
qed

section \<open>Witnesses\<close>

definition ex_weighted :: "validator list" where
  "ex_weighted = [(the (ex_validator 1))\<lparr>v_VotingPower := 3\<rparr>, (the (ex_validator 2))\<lparr>v_VotingPower := 1\<rparr>]"

lemma ex_weighted_ok: "power_ok ex_weighted"
  by (simp add: power_ok_def ex_weighted_def ex_validator_def)

theorem weighted_selection_fair_witness:
  "int (times_proposed ex_weighted 8 0) * 4 < 28 \<and> 20 \<le> int (times_proposed ex_weighted 8 0) * 4"
  using weighted_selection_fair [OF ex_weighted_ok, of 0 8]
  by (simp add: Let_def ex_weighted_def ex_validator_def)

theorem weighted_selection_live_witness:
  "\<exists>k < 5. wps_GetProposer (wps_after ex_weighted k) = Some (ex_weighted ! 1)"
  by (rule weighted_selection_live [OF ex_weighted_ok]) (simp_all add: ex_weighted_def ex_validator_def)

theorem set_store_active_at_height_witness:
  "ValidatorSetAtHeight (save_sets NewInMemoryValidatorSetStore [(20, ''b''), (10, ''a''), (30, ''c'')]) 25 = Inr (Some ''b'')"
proof -
  let ?s = "save_sets NewInMemoryValidatorSetStore [(20, ''b''), (10, ''a''), (30, ''c'')]"
  have l: "LoadValidatorSet ?s k = (if k = 30 then Inr ''c'' else if k = 10 then Inr ''a''
      else if k = 20 then Inr ''b'' else Inl ErrValidatorSetNotFound)" for k
    by (simp add: LoadValidatorSet_def SaveValidatorSet_def NewInMemoryValidatorSetStore_def)
  show ?thesis
    using set_store_active_at_height [of "[(20, ''b''), (10, ''a''), (30, ''c'')]" 25] unfolding l
    by (auto split: if_splits)
qed

end
