(* ===== verification/Pruner.thy ===== *)
theory Pruner
  imports MemoryStore
begin

text \<open>
  \<open>BackgroundPruner\<close> of \<open>pkg/blockstore/pruning.go\<close> over the interface \<open>PrunableBlockStore\<close>. The
  goroutine of the pruner, the callers of \<open>Start\<close> and \<open>Stop\<close> and the clients that save blocks
  interleave as steps of a relation; a channel is a number and \<open>bp_closed\<close> lists the closed ones.
  The ticker fires at any time. \<open>Duration\<close> of a result is not modelled.
\<close>

section \<open>PrunableBlockStore\<close>

record 's prunableStore = "'s blockstore" +
  Prune :: "'s \<Rightarrow> int \<Rightarrow> (error + pruneResult) \<times> 's"
  PruneConfigOf :: "'s \<Rightarrow> pruneConfig option"
  SetPruneConfig :: "'s \<Rightarrow> pruneConfig option \<Rightarrow> 's"

locale prunable_store = complete_store P inv blocks keep
  for P :: "('s, 'z) prunableStore_scheme"
    and inv :: "'s \<Rightarrow> bool"
    and blocks :: "'s \<Rightarrow> (int, bytes \<times> bytes) fmap"
    and keep :: "bytes \<Rightarrow> bytes" +
  assumes prune_ok: "inv s \<Longrightarrow> Prune P s b = (Inr r, s') \<Longrightarrow>
      inv s' \<and> Height P s' = Height P s \<and> PruneConfigOf P s' = PruneConfigOf P s \<and>
      blocks s' = fmfilter (\<lambda>h. b \<le> h \<or> PruneConfigOf P s \<noteq> None \<and>
        ShouldKeep (PruneConfigOf P s) h (Height P s)) (blocks s)"
    and prune_error: "inv s \<Longrightarrow> Prune P s b = (Inl e, s') \<Longrightarrow> s' = s"
    and prune_in_range: "inv s \<Longrightarrow> 0 < b \<Longrightarrow> b \<le> Height P s \<Longrightarrow> \<exists>r s'. Prune P s b = (Inr r, s')"
    and save_config: "inv s \<Longrightarrow> PruneConfigOf P (snd (SaveBlock P s h hash data)) = PruneConfigOf P s"
    and set_config: "inv s \<Longrightarrow> inv (SetPruneConfig P s c) \<and> blocks (SetPruneConfig P s c) = blocks s \<and>
      Height P (SetPruneConfig P s c) = Height P s \<and> PruneConfigOf P (SetPruneConfig P s c) = c"

section \<open>BackgroundPruner\<close>

record 's pruner =
  bp_store :: 's
  bp_cfg :: "pruneConfig option"
  bp_running :: bool
  bp_stopCh :: nat
  bp_doneCh :: nat
  bp_closed :: "nat list"
  bp_fresh :: nat
  bp_loops :: "nat list"
  bp_onPrune :: bool
  bp_onError :: bool
  bp_pruned :: "pruneResult list"
  bp_failed :: "error list"

text \<open>
  \<open>bp_loops\<close> has the done channel of every goroutine in \<open>pruneLoop\<close>; \<open>bp_pruned\<close> and \<open>bp_failed\<close>
  are the calls the callbacks have received, latest first.
\<close>

definition NewBackgroundPruner :: "'s \<Rightarrow> pruneConfig option \<Rightarrow> 's pruner" where
  "NewBackgroundPruner s cfg =
     \<lparr>bp_store = s, bp_cfg = cfg, bp_running = False, bp_stopCh = 0, bp_doneCh = 1, bp_closed = [],
      bp_fresh = 2, bp_loops = [], bp_onPrune = False, bp_onError = False, bp_pruned = [],
      bp_failed = []\<rparr>"

definition SetOnPrune :: "'s pruner \<Rightarrow> bool \<Rightarrow> 's pruner" where
  "SetOnPrune p fn = p\<lparr>bp_onPrune := fn\<rparr>"

definition SetOnError :: "'s pruner \<Rightarrow> bool \<Rightarrow> 's pruner" where
  "SetOnError p fn = p\<lparr>bp_onError := fn\<rparr>"

definition pruner_Start :: "'s pruner \<Rightarrow> error option \<times> 's pruner" where
  "pruner_Start p =
     (if bp_running p then (Some ErrPrunerAlreadyActive, p)
      else if (case bp_cfg p of None \<Rightarrow> True
               | Some cfg \<Rightarrow> Strategy cfg = PruneNothing \<or> Interval cfg \<le> 0)
      then (Some ErrPruningDisabled, p)
      else (None, p\<lparr>bp_running := True, bp_stopCh := bp_fresh p, bp_doneCh := bp_fresh p + 1,
                    bp_fresh := bp_fresh p + 2, bp_loops := (bp_fresh p + 1) # bp_loops p\<rparr>))"

text \<open>\<open>Stop\<close> up to the point where it waits for the done channel.\<close>

definition pruner_Stop :: "'s pruner \<Rightarrow> error option \<times> 's pruner" where
  "pruner_Stop p =
     (if \<not> bp_running p then (Some ErrPrunerNotActive, p)
      else (None, p\<lparr>bp_running := False, bp_closed := bp_stopCh p # bp_closed p\<rparr>))"

definition pruner_IsRunning :: "'s pruner \<Rightarrow> bool" where
  "pruner_IsRunning p = bp_running p"

definition emptyResult :: pruneResult where
  "emptyResult = \<lparr>PrunedCount = 0, NewBase = 0, BytesFreed = 0\<rparr>"

definition doPrune :: "('s, 'z) prunableStore_scheme \<Rightarrow> 's pruner \<Rightarrow> (error + pruneResult) \<times> 's pruner" where
  "doPrune P p =
     (let currentHeight = Height P (bp_store p) in
      if currentHeight = 0 then (Inr emptyResult, p)
      else
        let target = CalculatePruneTarget (bp_cfg p) currentHeight in
        if target \<le> 0 then (Inr emptyResult, p)
        else (case Prune P (bp_store p) target of (r, s') \<Rightarrow> (r, p\<lparr>bp_store := s'\<rparr>)))"

definition PruneNow :: "('s, 'z) prunableStore_scheme \<Rightarrow> 's pruner \<Rightarrow> (error + pruneResult) \<times> 's pruner" where
  "PruneNow P p = doPrune P p"

text \<open>One iteration of \<open>pruneLoop\<close> that receives a tick.\<close>

definition pruneLoop_tick :: "('s, 'z) prunableStore_scheme \<Rightarrow> 's pruner \<Rightarrow> 's pruner" where
  "pruneLoop_tick P p =
     (case doPrune P p of
        (Inl err, p1) \<Rightarrow> if bp_onError p1 then p1\<lparr>bp_failed := err # bp_failed p1\<rparr> else p1
      | (Inr result, p1) \<Rightarrow>
          if PrunedCount result > 0 \<and> bp_onPrune p1
          then p1\<lparr>bp_pruned := result # bp_pruned p1\<rparr> else p1)"

text \<open>The iteration that finds \<open>stopCh\<close> closed: the loop returns and closes its done channel.\<close>

definition pruneLoop_exit :: "'s pruner \<Rightarrow> nat \<Rightarrow> 's pruner" where
  "pruneLoop_exit p done = p\<lparr>bp_loops := remove1 done (bp_loops p), bp_closed := done # bp_closed p\<rparr>"

inductive pruner_step :: "('s, 'z) prunableStore_scheme \<Rightarrow> 's pruner \<Rightarrow> 's pruner \<Rightarrow> bool"
  for P :: "('s, 'z) prunableStore_scheme" where
  start: "pruner_step P p (snd (pruner_Start p))"
| stop: "pruner_step P p (snd (pruner_Stop p))"
| tick: "d \<in> set (bp_loops p) \<Longrightarrow> pruner_step P p (pruneLoop_tick P p)"
| finish: "d \<in> set (bp_loops p) \<Longrightarrow> bp_stopCh p \<in> set (bp_closed p) \<Longrightarrow> pruner_step P p (pruneLoop_exit p d)"
| prune_now: "pruner_step P p (snd (PruneNow P p))"
| on_prune: "pruner_step P p (SetOnPrune p fn)"
| on_error: "pruner_step P p (SetOnError p fn)"
| save: "0 < h \<Longrightarrow> pruner_step P p (p\<lparr>bp_store := snd (SaveBlock P (bp_store p) h hash data)\<rparr>)"

abbreviation pruner_steps :: "('s, 'z) prunableStore_scheme \<Rightarrow> 's pruner \<Rightarrow> 's pruner \<Rightarrow> bool" where
  "pruner_steps P \<equiv> (pruner_step P)\<^sup>*\<^sup>*"

section \<open>What pruning keeps\<close>

lemma target_bounds:
  assumes "0 < CalculatePruneTarget c H" "\<And>cfg. c = Some cfg \<Longrightarrow> 0 \<le> KeepRecent cfg"
  shows "CalculatePruneTarget c H \<le> H"
  using assms by (cases c) (auto simp: CalculatePruneTarget_def Let_def split: if_splits)

text \<open>A block that is kept at some height of the chain was kept at every earlier one.\<close>

lemma ShouldKeep_antimono:
  "ShouldKeep c h H' \<Longrightarrow> H \<le> H' \<Longrightarrow> ShouldKeep c h H"
  by (auto simp: ShouldKeep_def split: option.splits if_splits)

lemma ShouldKeep_above_target:
  assumes "ShouldKeep (Some cfg) h H" "\<not> (Strategy cfg = PruneDefault \<and> 0 < KeepEvery cfg)"
    "0 < CalculatePruneTarget (Some cfg) H"
  shows "CalculatePruneTarget (Some cfg) H \<le> h"
  using assms by (auto simp: ShouldKeep_def CalculatePruneTarget_def Let_def split: if_splits)

text \<open>
  What the pruner's owner relies on: the store's configuration is the one of the pruner, or
  there are no checkpoints to keep.
\<close>

definition configs_agree :: "('s, 'z) prunableStore_scheme \<Rightarrow> 's pruner \<Rightarrow> bool" where
  "configs_agree P p \<longleftrightarrow>
     (case bp_cfg p of
        None \<Rightarrow> True
      | Some cfg \<Rightarrow> PruneConfigOf P (bp_store p) = bp_cfg p \<or>
          \<not> (Strategy cfg = PruneDefault \<and> 0 < KeepEvery cfg))"

lemma configs_agree_cong:
  "PruneConfigOf P (bp_store p') = PruneConfigOf P (bp_store p) \<Longrightarrow> bp_cfg p' = bp_cfg p \<Longrightarrow>
   configs_agree P p' \<longleftrightarrow> configs_agree P p"
  by (simp add: configs_agree_def split: option.split)

context prunable_store
begin

definition safe_state :: "'s pruner \<Rightarrow> bool" where
  "safe_state p \<longleftrightarrow> inv (bp_store p) \<and> configs_agree P p"

definition keeps :: "'s pruner \<Rightarrow> 's pruner \<Rightarrow> bool" where
  "keeps p p' \<longleftrightarrow> safe_state p' \<and> bp_cfg p' = bp_cfg p \<and> Height P (bp_store p) \<le> Height P (bp_store p') \<and>
     (\<forall>h b. fmlookup (blocks (bp_store p)) h = Some b \<and> ShouldKeep (bp_cfg p) h (Height P (bp_store p')) \<longrightarrow>
        fmlookup (blocks (bp_store p')) h = Some b)"

lemma keeps_same_store:
  "safe_state p \<Longrightarrow> bp_store p' = bp_store p \<Longrightarrow> bp_cfg p' = bp_cfg p \<Longrightarrow> keeps p p'"
  using configs_agree_cong [of P p' p] by (simp add: keeps_def safe_state_def)

lemma keeps_doPrune:
  assumes p: "safe_state p"
  shows "keeps p (snd (doPrune P p))"
proof -
  let ?s = "bp_store p" and ?t = "CalculatePruneTarget (bp_cfg p) (Height P (bp_store p))"
  have inv: "inv ?s" using p by (simp add: safe_state_def)
  show ?thesis
  proof (cases "Height P ?s = 0 \<or> ?t \<le> 0")
    case True
    then show ?thesis using p by (auto simp: doPrune_def Let_def intro: keeps_same_store)
  next
    case False
    obtain r s' where r: "Prune P ?s ?t = (r, s')" by (cases "Prune P ?s ?t")
    have eq: "snd (doPrune P p) = p\<lparr>bp_store := s'\<rparr>" using False r by (simp add: doPrune_def Let_def)
    show ?thesis
    proof (cases r)
      case (Inl e)
      then show ?thesis using prune_error [OF inv, of ?t e s'] r p eq by (intro keeps_same_store) simp_all
    next
      case (Inr res)
      then have s': "inv s'" "Height P s' = Height P ?s" "PruneConfigOf P s' = PruneConfigOf P ?s"
        "blocks s' = fmfilter (\<lambda>h. ?t \<le> h \<or> PruneConfigOf P ?s \<noteq> None \<and>
          ShouldKeep (PruneConfigOf P ?s) h (Height P ?s)) (blocks ?s)"
        using prune_ok [OF inv, of ?t res s'] r by simp_all
      obtain cfg where cfg: "bp_cfg p = Some cfg" using False by (cases "bp_cfg p") (auto simp: CalculatePruneTarget_def)
      have "?t \<le> h \<or> PruneConfigOf P ?s \<noteq> None \<and> ShouldKeep (PruneConfigOf P ?s) h (Height P ?s)"
        if "ShouldKeep (bp_cfg p) h (Height P ?s)" for h
        using p that ShouldKeep_above_target [of cfg h "Height P ?s"] False cfg
        by (auto simp: safe_state_def configs_agree_def)
      then show ?thesis using p s' configs_agree_cong [of P "p\<lparr>bp_store := s'\<rparr>" p] unfolding eq
        by (simp add: keeps_def safe_state_def)
    qed
  qed
qed

lemma keeps_trans:
  assumes pq: "keeps p q" and qr: "keeps q r"
  shows "keeps p r"
proof -
  have "fmlookup (blocks (bp_store r)) h = Some b"
    if h: "fmlookup (blocks (bp_store p)) h = Some b" "ShouldKeep (bp_cfg p) h (Height P (bp_store r))" for h b
  proof -
    have "ShouldKeep (bp_cfg p) h (Height P (bp_store q))"
      using ShouldKeep_antimono [OF h(2)] qr by (simp add: keeps_def)
    then have "fmlookup (blocks (bp_store q)) h = Some b" using pq h(1) unfolding keeps_def by blast
    moreover have "ShouldKeep (bp_cfg q) h (Height P (bp_store r))" using pq h(2) by (simp add: keeps_def)
    ultimately show ?thesis using qr unfolding keeps_def by blast
  qed
  moreover have "safe_state r \<and> bp_cfg r = bp_cfg p \<and> Height P (bp_store p) \<le> Height P (bp_store r)"
    using pq qr unfolding keeps_def by auto
  ultimately show ?thesis unfolding keeps_def by blast
qed

lemma keeps_save:
  assumes p: "safe_state p" and h: "0 < h"
  shows "keeps p (p\<lparr>bp_store := snd (SaveBlock P (bp_store p) h hash data)\<rparr>)"
proof -
  have inv: "inv (bp_store p)" using p by (simp add: safe_state_def)
  from inv h show ?thesis
  proof (cases rule: save_cases [of "bp_store p" h hash data])
    case (ok s')
    have "Height P s' = max (Height P (bp_store p)) h" using save_ok [OF inv h ok(1)] by simp
    moreover have "PruneConfigOf P s' = PruneConfigOf P (bp_store p)"
      using save_config [OF inv, of h hash data] ok(1) by simp
    ultimately show ?thesis using p ok configs_agree_cong [of P "p\<lparr>bp_store := s'\<rparr>" p]
      by (auto simp: keeps_def safe_state_def)
  next
    case (error e)
    then show ?thesis using p by (intro keeps_same_store) simp_all
  qed
qed

lemma keeps_step:
  assumes "pruner_step P p p'" "safe_state p"
  shows "keeps p p'"
  using assms
proof (cases rule: pruner_step.cases)
  case (tick d)
  obtain r p1 where r: "doPrune P p = (r, p1)" by (cases "doPrune P p")
  have k: "keeps p p1" using keeps_doPrune [OF assms(2)] r by simp
  then have "keeps p1 p'"
    using r tick by (intro keeps_same_store) (auto simp: keeps_def pruneLoop_tick_def split: sum.splits)
  then show ?thesis by (rule keeps_trans [OF k])
next
  case prune_now
  then show ?thesis using keeps_doPrune [OF assms(2)] by (simp add: PruneNow_def)
next
  case (save h hash data)
  then show ?thesis using keeps_save [OF assms(2)] by simp
qed (use assms(2) in \<open>auto intro!: keeps_same_store simp: pruner_Start_def pruner_Stop_def pruneLoop_exit_def
      SetOnPrune_def SetOnError_def\<close>)

lemma keeps_steps: "pruner_steps P p p' \<Longrightarrow> safe_state p \<Longrightarrow> keeps p p'"
proof (induction rule: rtranclp_induct)
  case base
  then show ?case by (intro keeps_same_store) simp_all
next
  case (step q r)
  then have "keeps p q" by blast
  moreover have "safe_state q" using \<open>keeps p q\<close> by (simp add: keeps_def)
  ultimately show ?case using keeps_step [OF step(2)] keeps_trans by blast
qed

end

section \<open>The memory store as a prunable store\<close>

definition memory_prunable :: "('c, 'b) memoryBlockStore prunableStore" where
  "memory_prunable = blockstore.extend memory_store
     \<lparr>Prune = mem_Prune, PruneConfigOf = mem_PruneConfig, SetPruneConfig = mem_SetPruneConfig\<rparr>"

lemma memory_prunable_simps [simp]:
  "SaveBlock memory_prunable = mem_SaveBlock" "LoadBlock memory_prunable = mem_LoadBlock"
  "LoadBlockByHash memory_prunable = mem_LoadBlockByHash" "HasBlock memory_prunable = mem_HasBlock"
  "Height memory_prunable = mem_Height" "Base memory_prunable = mem_Base"
  "Prune memory_prunable = mem_Prune" "PruneConfigOf memory_prunable = mem_PruneConfig"
  "SetPruneConfig memory_prunable = mem_SetPruneConfig"
  by (simp_all add: memory_prunable_def memory_store_def blockstore.extend_def)

text \<open>The laws of \<open>complete_store\<close> are those of \<open>memory_store\<close>, whose methods these are.\<close>

interpretation mp: prunable_store memory_prunable mem_inv mem_view id
proof (unfold_locales, goal_cases)
  case (1 s h hash data)
  then show ?case using mem.save_inv [of s h hash data] by (simp add: memory_store_def)
next
  case (2 s h hash data s')
  then show ?case using mem.save_ok [of s h hash data s'] by (simp add: memory_store_def)
next
  case (3 s h hash data e s')
  then show ?case using mem.save_error [of s h hash data e s'] by (simp add: memory_store_def)
next
  case (4 s h)
  then show ?case using mem.has [of s h] by (simp add: memory_store_def)
next
  case (5 s h)
  then show ?case using mem.load [of s h] by (simp add: memory_store_def)
next
  case (6 s hash h d)
  then show ?case using mem.load_by_hash [of s hash h d] by (simp add: memory_store_def)
next
  case (7 s hash e)
  then show ?case using mem.load_by_hash_error [of s hash e] by (simp add: memory_store_def)
next
  case (8 s h)
  then show ?case using mem.bounds [of s h] by (simp add: memory_store_def)
next
  case (9 s h hash data)
  then show ?case using mem.save_accepts [of s h hash data] by (simp add: memory_store_def)
next
  case (10 s b r s')
  then have b: "0 < b" "b \<le> mb_height s" by (auto simp: mem_Prune_def split: if_splits)
  have "mem_view s' = fmfilter (\<lambda>h. b \<le> h \<or> mem_retains s h) (mem_view s)"
    if "mb_blocks s' = fmfilter (\<lambda>h. b \<le> h \<or> mem_retains s h) (mb_blocks s)"
    by (rule fmap_ext) (simp add: mem_view_lookup that)
  then show ?case
    using mem_Prune_ok [OF 10(1) b] 10(2)
    by (auto simp: mem_Height_def mem_PruneConfig_def mem_retains_def)
next
  case (11 s b e s')
  then show ?case by (auto simp: mem_Prune_def Let_def split: if_splits prod.splits)
next
  case (12 s b)
  then show ?case using mem_Prune_ok [OF 12(1), of b] by (auto simp: mem_Height_def)
next
  case (13 s h hash data)
  then show ?case by (simp add: mem_SaveBlock_def mem_PruneConfig_def split: option.split)
next
  case (14 s c)
  then show ?case
    by (auto simp: mem_SetPruneConfig_def mem_inv_def mem_view_def mem_Height_def mem_PruneConfig_def)
qed

section \<open>Properties\<close>


definition ex_chain :: "(unit, unit) memoryBlockStore" where
  "ex_chain = save_all memory_store NewMemoryBlockStore
     [(1, [1], [10]), (2, [2], [20]), (3, [3], [30]), (4, [4], [40]), (5, [5], [50])]"

definition ex_prune_cfg :: pruneConfig where
  "ex_prune_cfg = \<lparr>Strategy = PruneDefault, KeepRecent = 2, KeepEvery = 2, Interval = 1\<rparr>"


definition ex_pruner :: "(unit, unit) memoryBlockStore pruner" where
  "ex_pruner = NewBackgroundPruner (mem_SetPruneConfig ex_chain (Some ex_prune_cfg)) (Some ex_prune_cfg)"

lemma ex_chain_inv: "mem_inv (mem_SetPruneConfig ex_chain (Some ex_prune_cfg))"
proof -
  have "mem_inv ex_chain"
    unfolding ex_chain_def by (rule conjunct1 [OF mem.save_all_keeps [OF mem_inv_new]]) simp
  then show ?thesis using mp.set_config [of ex_chain "Some ex_prune_cfg"] by simp
qed


end
