(* ===== verification/RateLimit.thy ===== *)
theory RateLimit
  imports Prelude
begin

text \<open>
  \<open>internal/security/ratelimit.go\<close>: \<open>SlidingWindowLimiter\<close> and \<open>ConnectionTracker\<close>. The clock is the
  argument \<open>now\<close>, in nanoseconds; the cleanup goroutine is the operation \<open>sw_cleanupStale\<close>, which may
  run at any time. The token bucket of the same file computes in floating point and is not
  modelled.
\<close>

section \<open>ConnectionTracker\<close>

record resourceLimits =
  lim_MaxPeers :: int
  lim_MaxInboundPeers :: int
  lim_MaxOutboundPeers :: int

record connectionTracker =
  tk_limits :: resourceLimits
  tk_inbound :: "bytes fset"
  tk_outbound :: "bytes fset"

text \<open>The maps to \<open>true\<close> are sets of keys.\<close>

definition NewConnectionTracker :: "resourceLimits \<Rightarrow> connectionTracker" where
  "NewConnectionTracker limits = \<lparr>tk_limits = limits, tk_inbound = {||}, tk_outbound = {||}\<rparr>"

definition InboundCount :: "connectionTracker \<Rightarrow> int" where
  "InboundCount t = int (fcard (tk_inbound t))"

definition OutboundCount :: "connectionTracker \<Rightarrow> int" where
  "OutboundCount t = int (fcard (tk_outbound t))"

definition TotalCount :: "connectionTracker \<Rightarrow> int" where
  "TotalCount t = int (fcard (tk_inbound t)) + int (fcard (tk_outbound t))"

definition CanAcceptInbound :: "connectionTracker \<Rightarrow> bool" where
  "CanAcceptInbound t =
     (if int (fcard (tk_inbound t)) \<ge> lim_MaxInboundPeers (tk_limits t) then False
      else if int (fcard (tk_inbound t)) + int (fcard (tk_outbound t)) \<ge> lim_MaxPeers (tk_limits t) then False
      else True)"

definition CanDialOutbound :: "connectionTracker \<Rightarrow> bool" where
  "CanDialOutbound t =
     (if int (fcard (tk_outbound t)) \<ge> lim_MaxOutboundPeers (tk_limits t) then False
      else if int (fcard (tk_inbound t)) + int (fcard (tk_outbound t)) \<ge> lim_MaxPeers (tk_limits t) then False
      else True)"

definition tk_OnConnect :: "connectionTracker \<Rightarrow> bytes \<Rightarrow> bool \<Rightarrow> connectionTracker" where
  "tk_OnConnect t peerID isInbound =
     (if isInbound then t\<lparr>tk_inbound := finsert peerID (tk_inbound t)\<rparr>
      else t\<lparr>tk_outbound := finsert peerID (tk_outbound t)\<rparr>)"

definition tk_OnDisconnect :: "connectionTracker \<Rightarrow> bytes \<Rightarrow> connectionTracker" where
  "tk_OnDisconnect t peerID =
     t\<lparr>tk_inbound := tk_inbound t |-| {|peerID|}, tk_outbound := tk_outbound t |-| {|peerID|}\<rparr>"

text \<open>A node that asks before it connects.\<close>

inductive tracker_reachable :: "resourceLimits \<Rightarrow> connectionTracker \<Rightarrow> bool"
  for limits :: resourceLimits where
  new: "tracker_reachable limits (NewConnectionTracker limits)"
| accept: "tracker_reachable limits t \<Longrightarrow> CanAcceptInbound t \<Longrightarrow> tracker_reachable limits (tk_OnConnect t p True)"
| dial: "tracker_reachable limits t \<Longrightarrow> CanDialOutbound t \<Longrightarrow> tracker_reachable limits (tk_OnConnect t p False)"
| disconnect: "tracker_reachable limits t \<Longrightarrow> tracker_reachable limits (tk_OnDisconnect t p)"

definition within_limits :: "connectionTracker \<Rightarrow> bool" where
  "within_limits t \<longleftrightarrow> InboundCount t \<le> lim_MaxInboundPeers (tk_limits t) \<and>
     OutboundCount t \<le> lim_MaxOutboundPeers (tk_limits t) \<and> TotalCount t \<le> lim_MaxPeers (tk_limits t)"

lemma fcard_finsert_le: "fcard (finsert x A) \<le> Suc (fcard A)"
  by (simp add: fcard_finsert_if)

lemma fcard_minus_le: "fcard (A |-| B) \<le> fcard A"
  by (rule fcard_mono) auto

lemma tracker_within_limits:
  assumes "tracker_reachable limits t" "0 \<le> lim_MaxInboundPeers limits" "0 \<le> lim_MaxOutboundPeers limits" "0 \<le> lim_MaxPeers limits"
  shows "within_limits t \<and> tk_limits t = limits"
  using assms(1)
proof induction
  case new
  then show ?case using assms by (simp add: within_limits_def NewConnectionTracker_def InboundCount_def
      OutboundCount_def TotalCount_def fcard_fempty)
next
  case (accept t p)
  then show ?case using fcard_finsert_le [of p "tk_inbound t"]
    by (auto simp: within_limits_def tk_OnConnect_def CanAcceptInbound_def InboundCount_def OutboundCount_def
        TotalCount_def split: if_splits)
next
  case (dial t p)
  then show ?case using fcard_finsert_le [of p "tk_outbound t"]
    by (auto simp: within_limits_def tk_OnConnect_def CanDialOutbound_def InboundCount_def OutboundCount_def
        TotalCount_def split: if_splits)
next
  case (disconnect t p)
  then show ?case
    using fcard_minus_le [of "tk_inbound t" "{|p|}"] fcard_minus_le [of "tk_outbound t" "{|p|}"]
    by (auto simp: within_limits_def tk_OnDisconnect_def InboundCount_def OutboundCount_def TotalCount_def)
qed

section \<open>SlidingWindowLimiter\<close>

record rateLimiterConfig =
  rl_Rate :: int
  rl_Interval :: int

record slidingWindow =
  sw_counts :: "int list"
  sw_timestamps :: "int list"
  sw_total :: int

record slidingWindowLimiter =
  sl_cfg :: rateLimiterConfig
  sl_windows :: "(string, slidingWindow) fmap"

definition NewSlidingWindowLimiter :: "rateLimiterConfig \<Rightarrow> slidingWindowLimiter" where
  "NewSlidingWindowLimiter cfg = \<lparr>sl_cfg = cfg, sl_windows = fmempty\<rparr>"

text \<open>
  The loop over the timestamps: the index of the first one after the cutoff, 0 when there is
  none, and the total after the counts before it have been subtracted.
\<close>

fun expire_loop :: "int \<Rightarrow> int list \<Rightarrow> int list \<Rightarrow> nat \<Rightarrow> int \<Rightarrow> nat \<times> int" where
  "expire_loop cutoff [] counts i tot = (0, tot)"
| "expire_loop cutoff (ts # tss) counts i tot =
     (if ts > cutoff then (i, tot)
      else expire_loop cutoff tss counts (i + 1) (tot - counts ! i))"

definition sw_AllowN :: "slidingWindowLimiter \<Rightarrow> string \<Rightarrow> int \<Rightarrow> int \<Rightarrow> bool \<times> slidingWindowLimiter" where
  "sw_AllowN l key n now =
     (let w0 = (case fmlookup (sl_windows l) key of
                  Some w \<Rightarrow> w | None \<Rightarrow> \<lparr>sw_counts = [], sw_timestamps = [], sw_total = 0\<rparr>);
          cutoff = now - rl_Interval (sl_cfg l)
      in case expire_loop cutoff (sw_timestamps w0) (sw_counts w0) 0 (sw_total w0) of
           (validIdx, tot) \<Rightarrow>
             let w1 = (if validIdx > 0
                       then \<lparr>sw_counts = drop validIdx (sw_counts w0),
                             sw_timestamps = drop validIdx (sw_timestamps w0), sw_total = tot\<rparr>
                       else w0\<lparr>sw_total := tot\<rparr>)
             in if sw_total w1 + n > rl_Rate (sl_cfg l)
                then (False, l\<lparr>sl_windows := fmupd key w1 (sl_windows l)\<rparr>)
                else (True, l\<lparr>sl_windows := fmupd key
                        \<lparr>sw_counts = sw_counts w1 @ [n], sw_timestamps = sw_timestamps w1 @ [now],
                         sw_total = sw_total w1 + n\<rparr> (sl_windows l)\<rparr>))"

definition sw_Allow :: "slidingWindowLimiter \<Rightarrow> string \<Rightarrow> int \<Rightarrow> bool \<times> slidingWindowLimiter" where
  "sw_Allow l key now = sw_AllowN l key 1 now"

definition sw_Reset :: "slidingWindowLimiter \<Rightarrow> string \<Rightarrow> slidingWindowLimiter" where
  "sw_Reset l key = l\<lparr>sl_windows := fmdrop key (sl_windows l)\<rparr>"

definition sw_cleanupStale :: "slidingWindowLimiter \<Rightarrow> slidingWindowLimiter" where
  "sw_cleanupStale l =
     l\<lparr>sl_windows := fmfilter (\<lambda>key. \<not> (sw_total (the (fmlookup (sl_windows l) key)) = 0 \<and>
        length (sw_counts (the (fmlookup (sl_windows l) key))) = 0)) (sl_windows l)\<rparr>"

definition sw_Size :: "slidingWindowLimiter \<Rightarrow> nat" where
  "sw_Size l = map_len (sl_windows l)"

section \<open>When the limiter is exact\<close>

text \<open>The window of a key, and the requests in it that are not older than the interval.\<close>

definition window_of :: "slidingWindowLimiter \<Rightarrow> string \<Rightarrow> slidingWindow" where
  "window_of l key = (case fmlookup (sl_windows l) key of
     Some w \<Rightarrow> w | None \<Rightarrow> \<lparr>sw_counts = [], sw_timestamps = [], sw_total = 0\<rparr>)"

definition active :: "slidingWindow \<Rightarrow> int \<Rightarrow> int" where
  "active w cutoff = sum_list (map snd (filter (\<lambda>(ts, c). ts > cutoff) (zip (sw_timestamps w) (sw_counts w))))"

definition window_ok :: "slidingWindow \<Rightarrow> bool" where
  "window_ok w \<longleftrightarrow> length (sw_counts w) = length (sw_timestamps w) \<and> sorted (sw_timestamps w) \<and>
     sw_total w = sum_list (sw_counts w)"

lemma expire_loop_found:
  assumes "tss = drop i all" "cs = drop i counts" "length all = length counts" "\<exists>ts \<in> set tss. cutoff < ts"
  shows "\<exists>k. expire_loop cutoff tss counts i tot = (k, tot - sum_list (take (k - i) cs)) \<and> i \<le> k \<and>
    k < length all \<and> cutoff < all ! k \<and> (\<forall>j. i \<le> j \<and> j < k \<longrightarrow> all ! j \<le> cutoff)"
  using assms
proof (induction cutoff tss counts i tot arbitrary: cs rule: expire_loop.induct)
  case (2 cutoff ts tss counts i tot)
  have i: "i < length all" using "2.prems"(1) by (metis drop_all linorder_not_less list.discI)
  have t: "ts = all ! i" "tss = drop (Suc i) all"
    using "2.prems"(1) i by (simp_all add: Cons_nth_drop_Suc [symmetric])
  show ?case
  proof (cases "ts > cutoff")
    case True
    then show ?thesis using t i by auto
  next
    case False
    have c: "cs = counts ! i # drop (Suc i) counts"
      using "2.prems"(2,3) i by (simp add: Cons_nth_drop_Suc)
    have "\<exists>ts \<in> set tss. cutoff < ts" using "2.prems"(4) False by auto
    then obtain k where k: "expire_loop cutoff tss counts (i + 1) (tot - counts ! i) =
        (k, tot - counts ! i - sum_list (take (k - (i + 1)) (drop (Suc i) counts)))" "i + 1 \<le> k" "k < length all"
      "cutoff < all ! k" "\<forall>j. i + 1 \<le> j \<and> j < k \<longrightarrow> all ! j \<le> cutoff"
      using "2.IH" [of "drop (Suc i) counts"] False t(2) "2.prems"(3) by auto
    have "take (k - i) cs = counts ! i # take (k - (i + 1)) (drop (Suc i) counts)"
      using k(2) unfolding c by (metis Suc_diff_le Suc_eq_plus1 diff_Suc_Suc take_Suc_Cons)
    moreover have "all ! j \<le> cutoff" if "i \<le> j \<and> j < k" for j
      using k(5) that False t(1) by (cases "j = i") auto
    ultimately show ?thesis using k False by (intro exI [of _ k]) auto
  qed
qed simp

lemma active_drop:
  fixes w :: slidingWindow
  defines "tss \<equiv> sw_timestamps w" and "cs \<equiv> sw_counts w"
  assumes len: "length cs = length tss" and k: "k < length tss" "cutoff < tss ! k" "\<forall>j < k. tss ! j \<le> cutoff"
    and so: "sorted tss"
  shows "active w cutoff = sum_list (drop k cs)"
proof -
  let ?z = "zip tss cs" and ?P = "\<lambda>(ts, c). ts > cutoff"
  have low: "filter ?P (take k ?z) = []"
    using k(1,3) len by (fastforce simp: filter_empty_conv in_set_conv_nth)
  have high: "filter ?P (drop k ?z) = drop k ?z"
  proof (rule filter_True, rule ballI)
    fix x
    assume "x \<in> set (drop k ?z)"
    then obtain j where j: "j < length tss - k" "x = (tss ! (k + j), cs ! (k + j))"
      using len by (auto simp: in_set_conv_nth)
    then have "k + j < length tss" by linarith
    then show "?P x" using sorted_nth_mono [OF so, of k "k + j"] k(2) j(2) by simp
  qed
  have "filter ?P ?z = filter ?P (take k ?z @ drop k ?z)" by simp
  also have "\<dots> = drop k ?z" unfolding filter_append low high by simp
  finally have "filter ?P ?z = drop k ?z" .
  moreover have "map snd (drop k ?z) = drop k cs" using len by (simp add: drop_map [symmetric])
  ultimately show ?thesis by (simp add: active_def tss_def cs_def)
qed

lemma sum_list_drop: "sum_list (xs :: int list) - sum_list (take k xs) = sum_list (drop k xs)"
  by (metis add_diff_cancel_left' append_take_drop_id sum_list_append)

text \<open>The window after the expired entries have been removed.\<close>

lemma expire_exact:
  assumes ok: "window_ok w" and last: "sw_timestamps w = [] \<or> cutoff < last (sw_timestamps w)"
    and e: "expire_loop cutoff (sw_timestamps w) (sw_counts w) 0 (sw_total w) = (validIdx, tot)"
  shows "tot = active w cutoff \<and> window_ok \<lparr>sw_counts = drop validIdx (sw_counts w),
    sw_timestamps = drop validIdx (sw_timestamps w), sw_total = tot\<rparr>"
proof (cases "sw_timestamps w = []")
  case True
  then show ?thesis using e ok by (auto simp: window_ok_def active_def)
next
  case False
  have len: "length (sw_timestamps w) = length (sw_counts w)" using ok by (simp add: window_ok_def)
  have "\<exists>ts \<in> set (sw_timestamps w). cutoff < ts" using last False by (meson last_in_set)
  then obtain k where k: "validIdx = k" "tot = sw_total w - sum_list (take k (sw_counts w))"
    "k < length (sw_timestamps w)" "cutoff < sw_timestamps w ! k" "\<forall>j < k. sw_timestamps w ! j \<le> cutoff"
    using expire_loop_found [of "sw_timestamps w" 0 "sw_timestamps w" "sw_counts w" "sw_counts w" cutoff "sw_total w"] len e
    by auto
  have tot: "tot = sum_list (drop k (sw_counts w))"
    using k(2) ok by (simp add: window_ok_def sum_list_drop)
  moreover have "active w cutoff = sum_list (drop k (sw_counts w))"
    using active_drop [OF len [symmetric] k(3-5)] ok by (simp add: window_ok_def)
  ultimately show ?thesis using ok k(1) len by (simp add: window_ok_def sorted_wrt_drop)
qed

section \<open>Properties\<close>



definition ex_limiter :: slidingWindowLimiter where
  "ex_limiter = snd (sw_AllowN (NewSlidingWindowLimiter \<lparr>rl_Rate = 2, rl_Interval = 10\<rparr>) ''peer'' 2 0)"


end
