(* ===== verification/Mempool.thy ===== *)
theory Mempool
  imports Prelude
begin

text \<open>
  The \<open>Mempool\<close> interface of \<open>pkg/mempool/mempool.go\<close>: the transaction validators, the
  interface value as a record of methods, the contract its implementations keep (locale
  \<open>mempool_contract\<close>) and what follows from the contract for every client. The loop that cuts
  a list of transactions at a byte limit, which all \<open>ReapTxs\<close> share, is here too, and so is
  the implementation that does nothing (\<open>noop.go\<close>).
\<close>

section \<open>Validators\<close>

type_synonym txValidator = "bytes \<Rightarrow> error option"

definition DefaultTxValidator :: txValidator where
  "DefaultTxValidator tx = Some ErrNoTxValidator"

definition AcceptAllTxValidator :: txValidator where
  "AcceptAllTxValidator tx = None"

text \<open>The validator a pool applies: its own, or the default one when none is set.\<close>

definition effective_validator :: "txValidator option \<Rightarrow> txValidator" where
  "effective_validator v = (case v of None \<Rightarrow> DefaultTxValidator | Some f \<Rightarrow> f)"

lemma effective_validator_simps [simp]:
  "effective_validator None tx = Some ErrNoTxValidator"
  "effective_validator (Some f) tx = f tx"
  by (simp_all add: effective_validator_def DefaultTxValidator_def)

section \<open>The interface\<close>

text \<open>
  A value of type \<open>Mempool\<close>. The first argument of the methods that read the clock is that
  reading; \<open>TxHashes\<close> takes the order in which it ranges over the pool's map. \<open>None\<close> as the
  result of a mutating method is a panic.
\<close>

record 'm mempool =
  AddTx :: "int \<Rightarrow> 'm \<Rightarrow> slice \<Rightarrow> (error option \<times> 'm) option"
  RemoveTxs :: "'m \<Rightarrow> bytes list \<Rightarrow> 'm option"
  ReapTxs :: "int \<Rightarrow> 'm \<Rightarrow> int \<Rightarrow> bytes list"
  HasTx :: "int \<Rightarrow> 'm \<Rightarrow> bytes \<Rightarrow> bool"
  GetTx :: "int \<Rightarrow> 'm \<Rightarrow> bytes \<Rightarrow> error + bytes"
  Size :: "'m \<Rightarrow> int"
  SizeBytes :: "'m \<Rightarrow> int"
  Flush :: "'m \<Rightarrow> 'm"
  TxHashes :: "bytes list \<Rightarrow> 'm \<Rightarrow> bytes list"
  SetTxValidator :: "'m \<Rightarrow> txValidator option \<Rightarrow> 'm"

text \<open>Calls a client can make, and their effect on the pool.\<close>

datatype mempool_call =
    CallAdd int slice
  | CallRemove "bytes list"
  | CallFlush
  | CallSetValidator "txValidator option"

fun mempool_exec :: "('m, 'z) mempool_scheme \<Rightarrow> 'm \<Rightarrow> mempool_call \<Rightarrow> 'm option" where
  "mempool_exec M m (CallAdd now t) = map_option snd (AddTx M now m t)"
| "mempool_exec M m (CallRemove hs) = RemoveTxs M m hs"
| "mempool_exec M m CallFlush = Some (Flush M m)"
| "mempool_exec M m (CallSetValidator v) = Some (SetTxValidator M m v)"

fun mempool_run :: "('m, 'z) mempool_scheme \<Rightarrow> 'm \<Rightarrow> mempool_call list \<Rightarrow> 'm option" where
  "mempool_run M m [] = Some m"
| "mempool_run M m (c # cs) = Option.bind (mempool_exec M m c) (\<lambda>m'. mempool_run M m' cs)"

section \<open>Cutting at a byte limit\<close>

text \<open>
  The last loop of every \<open>ReapTxs\<close>: transactions are taken while the total stays within
  \<open>maxBytes\<close>; a limit of zero or less is no limit.
\<close>

fun take_fitting :: "int \<Rightarrow> int \<Rightarrow> bytes list \<Rightarrow> bytes list" where
  "take_fitting maxBytes totalBytes [] = []"
| "take_fitting maxBytes totalBytes (tx # txs) =
     (if maxBytes > 0 \<and> totalBytes + int (length tx) > maxBytes then []
      else tx # take_fitting maxBytes (totalBytes + int (length tx)) txs)"

definition total_len :: "bytes list \<Rightarrow> int" where
  "total_len txs = (\<Sum>tx\<leftarrow>txs. int (length tx))"

lemma total_len_simps [simp]:
  "total_len [] = 0" "total_len (tx # txs) = int (length tx) + total_len txs"
  "total_len (xs @ ys) = total_len xs + total_len ys"
  by (simp_all add: total_len_def)

lemma total_len_nonneg [simp]: "0 \<le> total_len txs"
  by (induction txs) auto

lemma take_fitting_prefix: "\<exists>n. take_fitting b t txs = take n txs"
proof (induction b t txs rule: take_fitting.induct)
  case (2 b t tx txs)
  then show ?case
    by (cases "b > 0 \<and> t + int (length tx) > b") (auto intro: exI [of _ 0] exI [of _ "Suc _"])
qed simp

lemma take_fitting_subset: "set (take_fitting b t txs) \<subseteq> set txs"
  using take_fitting_prefix [of b t txs] by (auto dest: in_set_takeD)

lemma take_fitting_bound: "0 < b \<Longrightarrow> t \<le> b \<Longrightarrow> t + total_len (take_fitting b t txs) \<le> b"
  by (induction b t txs rule: take_fitting.induct) auto

lemma take_fitting_all: "b \<le> 0 \<Longrightarrow> take_fitting b t txs = txs"
  by (induction b t txs rule: take_fitting.induct) auto

text \<open>The cut is as late as possible: the next transaction would not have fitted.\<close>

lemma take_fitting_maximal:
  "take_fitting b t txs = pre \<Longrightarrow> txs = pre @ tx # rest \<Longrightarrow>
   0 < b \<and> b < t + total_len pre + int (length tx)"
proof (induction b t txs arbitrary: pre rule: take_fitting.induct)
  case (2 b t x xs)
  show ?case
  proof (cases "b > 0 \<and> t + int (length x) > b")
    case False
    let ?p = "take_fitting b (t + int (length x)) xs"
    have pre: "pre = x # ?p" using False "2.prems"(1) by auto
    then have "xs = ?p @ tx # rest" using "2.prems"(2) by simp
    from "2.IH" [OF False refl this] show ?thesis using pre by (simp add: add.assoc)
  next
    case True
    then have "pre = []" using "2.prems"(1) by auto
    with True "2.prems"(2) show ?thesis by simp
  qed
qed simp

lemma take_fitting_sorted_wrt: "sorted_wrt R txs \<Longrightarrow> sorted_wrt R (take_fitting b t txs)"
  using take_fitting_prefix [of b t txs] by (metis sorted_wrt_take)

section \<open>The contract\<close>

text \<open>
  \<open>stored m\<close> is everything the pool holds, by hash; \<open>live now m h\<close> says that the entry of \<open>h\<close>
  is visible at time \<open>now\<close>; \<open>accepts m tx\<close> that the validator in force accepts \<open>tx\<close>. An
  \<open>AddTx\<close> may drop entries (an eviction), a failed one as well.
\<close>

locale mempool_contract =
  fixes M :: "('m, 'z) mempool_scheme"
    and H :: "bytes \<Rightarrow> bytes"
    and inv :: "'m \<Rightarrow> bool"
    and stored :: "'m \<Rightarrow> (bytes, bytes) fmap"
    and live :: "int \<Rightarrow> 'm \<Rightarrow> bytes \<Rightarrow> bool"
    and accepts :: "'m \<Rightarrow> bytes \<Rightarrow> bool"
  assumes add_total: "inv m \<Longrightarrow> AddTx M now m t \<noteq> None"
    and add_inv: "inv m \<Longrightarrow> AddTx M now m t = Some (e, m') \<Longrightarrow> inv m'"
    and add_accepts: "inv m \<Longrightarrow> AddTx M now m t = Some (e, m') \<Longrightarrow> accepts m' tx = accepts m tx"
    and add_ok: "inv m \<Longrightarrow> AddTx M now m t = Some (None, m') \<Longrightarrow>
      \<exists>tx ev. t = Some tx \<and> accepts m tx \<and> fmlookup (stored m) (H tx) = None \<and>
        stored m' = fmupd (H tx) tx (fmdrop_set ev (stored m)) \<and> live now m' (H tx)"
    and add_error: "inv m \<Longrightarrow> AddTx M now m t = Some (Some err, m') \<Longrightarrow>
      \<exists>ev. stored m' = fmdrop_set ev (stored m)"
    and remove_total: "inv m \<Longrightarrow> RemoveTxs M m hs \<noteq> None"
    and remove: "inv m \<Longrightarrow> RemoveTxs M m hs = Some m' \<Longrightarrow>
      inv m' \<and> stored m' = fmdrop_set (set hs) (stored m) \<and> (\<forall>tx. accepts m' tx = accepts m tx)"
    and flush: "inv m \<Longrightarrow> inv (Flush M m) \<and> stored (Flush M m) = fmempty \<and>
      (\<forall>tx. accepts (Flush M m) tx = accepts m tx)"
    and set_validator: "inv m \<Longrightarrow> inv (SetTxValidator M m v) \<and>
      stored (SetTxValidator M m v) = stored m \<and>
      (\<forall>tx. accepts (SetTxValidator M m v) tx \<longrightarrow> effective_validator v tx = None)"
    and has: "inv m \<Longrightarrow> HasTx M now m h \<longleftrightarrow> fmlookup (stored m) h \<noteq> None \<and> live now m h"
    and get: "inv m \<Longrightarrow> GetTx M now m h =
      (case fmlookup (stored m) h of
         Some tx \<Rightarrow> if live now m h then Inr tx else Inl ErrTxNotFound
       | None \<Rightarrow> Inl ErrTxNotFound)"
    and reap: "inv m \<Longrightarrow> tx \<in> set (ReapTxs M now m b) \<Longrightarrow>
      \<exists>h. fmlookup (stored m) h = Some tx \<and> live now m h"
    and reap_bound: "inv m \<Longrightarrow> 0 < b \<Longrightarrow> total_len (ReapTxs M now m b) \<le> b"
    and size_eq: "inv m \<Longrightarrow> Size M m = int (map_len (stored m))"
    and size_bytes: "inv m \<Longrightarrow> SizeBytes M m = map_weight (\<lambda>tx. int (length tx)) (stored m)"
    and hashes: "inv m \<Longrightarrow> enumerates ks (stored m) \<Longrightarrow>
      distinct (TxHashes M ks m) \<and> set (TxHashes M ks m) = fmdom' (stored m)"
    and keyed: "inv m \<Longrightarrow> fmlookup (stored m) h = Some tx \<Longrightarrow> h = H tx"
begin

text \<open>No sequence of calls makes the pool panic or break its invariant.\<close>

lemma exec_inv: "inv m \<Longrightarrow> \<exists>m'. mempool_exec M m c = Some m' \<and> inv m'"
proof (cases c)
  case (CallAdd now t)
  assume m: "inv m"
  then obtain e m' where "AddTx M now m t = Some (e, m')" using add_total [OF m, of now t] by auto
  with add_inv [OF m this] CallAdd show ?thesis by simp
next
  case (CallRemove hs)
  assume m: "inv m"
  then obtain m' where "RemoveTxs M m hs = Some m'" using remove_total [OF m, of hs] by auto
  with remove [OF m this] CallRemove show ?thesis by simp
qed (simp_all add: flush set_validator)

lemma run_inv: "inv m \<Longrightarrow> \<exists>m'. mempool_run M m cs = Some m' \<and> inv m'"
proof (induction cs arbitrary: m)
  case (Cons c cs)
  obtain m' where "mempool_exec M m c = Some m'" "inv m'" using exec_inv [OF Cons.prems] by blast
  then show ?case using Cons.IH [of m'] by simp
qed simp

text \<open>
  While the validator is not replaced, everything that was not in the pool at the start
  and is in it at the end was accepted by the validator.
\<close>

lemma exec_accepts:
  assumes "inv m" "\<forall>v. c \<noteq> CallSetValidator v" "mempool_exec M m c = Some m'"
  shows "accepts m' tx = accepts m tx"
  using assms add_accepts [OF assms(1)] remove [OF assms(1)] flush [OF assms(1)]
  by (cases c) auto

lemma exec_accepted:
  assumes "inv m" "\<forall>v. c \<noteq> CallSetValidator v" "mempool_exec M m c = Some m'"
    and "fmlookup (stored m') h = Some tx"
  shows "fmlookup (stored m) h = Some tx \<or> accepts m tx"
proof (cases c)
  case (CallAdd now t)
  then obtain e where e: "AddTx M now m t = Some (e, m')" using assms(3) by auto
  show ?thesis
  proof (cases e)
    case None
    from add_ok [OF assms(1) e [unfolded None]] assms(4) show ?thesis by (auto split: if_splits)
  next
    case (Some err)
    from add_error [OF assms(1) e [unfolded Some]] assms(4) show ?thesis by (auto split: if_splits)
  qed
next
  case (CallRemove hs)
  with assms remove [OF assms(1), of hs m'] show ?thesis by (auto split: if_splits)
qed (use assms flush in auto)

lemma run_accepted:
  assumes "inv m" "\<forall>v. CallSetValidator v \<notin> set cs" "mempool_run M m cs = Some m'"
    and "fmlookup (stored m') h = Some tx"
  shows "fmlookup (stored m) h = Some tx \<or> accepts m tx"
  using assms
proof (induction cs arbitrary: m)
  case (Cons c cs)
  obtain m1 where m1: "mempool_exec M m c = Some m1" "inv m1" "mempool_run M m1 cs = Some m'"
    using exec_inv [OF Cons.prems(1), of c] Cons.prems(3) by auto
  have nv: "\<forall>v. c \<noteq> CallSetValidator v" using Cons.prems(2) by auto
  have "fmlookup (stored m1) h = Some tx \<or> accepts m1 tx"
    using Cons.IH [OF m1(2) _ m1(3) Cons.prems(4)] Cons.prems(2) by auto
  with exec_accepts [OF Cons.prems(1) nv m1(1)] exec_accepted [OF Cons.prems(1) nv m1(1)]
  show ?case by blast
qed simp

lemma get_after_add:
  assumes "inv m" "AddTx M now m (Some tx) = Some (None, m')"
  shows "GetTx M now m' (H tx) = Inr tx \<and> HasTx M now m' (H tx)"
  using add_ok [OF assms] add_inv [OF assms] by (auto simp: get has)

lemma has_after_remove:
  assumes "inv m" "RemoveTxs M m hs = Some m'" "h \<in> set hs"
  shows "\<not> HasTx M now m' h \<and> GetTx M now m' h = Inl ErrTxNotFound"
  using remove [OF assms(1,2)] assms(3) by (auto simp: get has)

end

section \<open>The pool that does nothing\<close>

definition noop_mempool :: "unit mempool" where
  "noop_mempool = \<lparr>
     AddTx = (\<lambda>now m t. Some (Some ErrMempoolClosed, m)),
     RemoveTxs = (\<lambda>m hs. Some m),
     ReapTxs = (\<lambda>now m b. []),
     HasTx = (\<lambda>now m h. False),
     GetTx = (\<lambda>now m h. Inl ErrTxNotFound),
     Size = (\<lambda>m. 0),
     SizeBytes = (\<lambda>m. 0),
     Flush = (\<lambda>m. m),
     TxHashes = (\<lambda>ks m. []),
     SetTxValidator = (\<lambda>m v. m)\<rparr>"

interpretation noop: mempool_contract noop_mempool H "\<lambda>_. True" "\<lambda>_. fmempty"
  "\<lambda>_ _ _. False" "\<lambda>_ _. False"
  for H
  by unfold_locales (auto simp: noop_mempool_def)

end
