(* ===== verification/SimpleMempool.thy ===== *)
theory SimpleMempool
  imports Mempool
begin

text \<open>
  \<open>pkg/mempool/simple_mempool.go\<close>: the pool in insertion order. The stored value of a
  transaction is the copy the code makes, which is nil for an empty transaction; \<open>ReapTxs\<close>
  tells the two apart.
\<close>

section \<open>State and operations\<close>

record simpleMempool =
  sm_txs :: "(bytes, slice) fmap"
  sm_order :: "bytes list"
  sm_maxTxs :: int
  sm_maxBytes :: int
  sm_maxTxSize :: int
  sm_sizeBytes :: int
  sm_validator :: "txValidator option"

definition NewSimpleMempoolWithLimits :: "int \<Rightarrow> int \<Rightarrow> int \<Rightarrow> simpleMempool" where
  "NewSimpleMempoolWithLimits maxTxs maxBytes maxTxSize =
     \<lparr>sm_txs = fmempty, sm_order = [], sm_maxTxs = maxTxs, sm_maxBytes = maxBytes,
      sm_maxTxSize = maxTxSize, sm_sizeBytes = 0, sm_validator = None\<rparr>"

definition NewSimpleMempool :: "int \<Rightarrow> int \<Rightarrow> simpleMempool" where
  "NewSimpleMempool maxTxs maxBytes = NewSimpleMempoolWithLimits maxTxs maxBytes 0"

definition simple_AddTx ::
  "(bytes \<Rightarrow> bytes) \<Rightarrow> simpleMempool \<Rightarrow> slice \<Rightarrow> error option \<times> simpleMempool" where
  "simple_AddTx HashTx m t =
     (case t of
        None \<Rightarrow> (Some ErrInvalidTx, m)
      | Some tx \<Rightarrow>
          if sm_maxTxSize m > 0 \<and> int (length tx) > sm_maxTxSize m then (Some ErrTxTooLarge, m)
          else
            let hash = HashTx tx in
            if fmlookup (sm_txs m) hash \<noteq> None then (Some ErrTxAlreadyExists, m)
            else
              (case effective_validator (sm_validator m) tx of
                 Some err \<Rightarrow> (Some err, m)
               | None \<Rightarrow>
                   let txSize = int (length tx) in
                   if sm_maxTxs m > 0 \<and> int (map_len (sm_txs m)) \<ge> sm_maxTxs m
                   then (Some ErrMempoolFull, m)
                   else if sm_maxBytes m > 0 \<and> sm_sizeBytes m + txSize > sm_maxBytes m
                   then (Some ErrMempoolFull, m)
                   else (None, m\<lparr>sm_txs := fmupd hash (copy_slice tx) (sm_txs m),
                                 sm_order := sm_order m @ [hash],
                                 sm_sizeBytes := sm_sizeBytes m + txSize\<rparr>)))"

fun simple_remove_loop :: "simpleMempool \<Rightarrow> bytes list \<Rightarrow> simpleMempool" where
  "simple_remove_loop m [] = m"
| "simple_remove_loop m (hash # hashes) =
     simple_remove_loop
       (case fmlookup (sm_txs m) hash of
          Some tx \<Rightarrow> m\<lparr>sm_sizeBytes := sm_sizeBytes m - int (slice_len tx),
                       sm_txs := fmdrop hash (sm_txs m)\<rparr>
        | None \<Rightarrow> m) hashes"

definition simple_RemoveTxs :: "simpleMempool \<Rightarrow> bytes list \<Rightarrow> simpleMempool" where
  "simple_RemoveTxs m hashes =
     (let m' = simple_remove_loop m hashes
      in m'\<lparr>sm_order := filter (\<lambda>hash. fmlookup (sm_txs m') hash \<noteq> None) (sm_order m')\<rparr>)"

fun simple_reap_loop :: "simpleMempool \<Rightarrow> int \<Rightarrow> int \<Rightarrow> bytes list \<Rightarrow> bytes list" where
  "simple_reap_loop m maxBytes totalBytes [] = []"
| "simple_reap_loop m maxBytes totalBytes (hash # hashes) =
     (case fmlookup (sm_txs m) hash of
        None \<Rightarrow> simple_reap_loop m maxBytes totalBytes hashes
      | Some None \<Rightarrow> simple_reap_loop m maxBytes totalBytes hashes
      | Some (Some tx) \<Rightarrow>
          let txSize = int (length tx) in
          if maxBytes > 0 \<and> totalBytes + txSize > maxBytes then []
          else tx # simple_reap_loop m maxBytes (totalBytes + txSize) hashes)"

definition simple_ReapTxs :: "simpleMempool \<Rightarrow> int \<Rightarrow> bytes list" where
  "simple_ReapTxs m maxBytes =
     simple_reap_loop m (if maxBytes \<le> 0 then sm_maxBytes m else maxBytes) 0 (sm_order m)"

definition simple_HasTx :: "simpleMempool \<Rightarrow> bytes \<Rightarrow> bool" where
  "simple_HasTx m hash \<longleftrightarrow> fmlookup (sm_txs m) hash \<noteq> None"

definition simple_GetTx :: "simpleMempool \<Rightarrow> bytes \<Rightarrow> error + bytes" where
  "simple_GetTx m hash =
     (case fmlookup (sm_txs m) hash of
        None \<Rightarrow> Inl ErrTxNotFound
      | Some tx \<Rightarrow> Inr (slice_bytes tx))"

definition simple_Size :: "simpleMempool \<Rightarrow> int" where
  "simple_Size m = int (map_len (sm_txs m))"

definition simple_SizeBytes :: "simpleMempool \<Rightarrow> int" where
  "simple_SizeBytes m = sm_sizeBytes m"

definition simple_Flush :: "simpleMempool \<Rightarrow> simpleMempool" where
  "simple_Flush m = m\<lparr>sm_txs := fmempty, sm_order := [], sm_sizeBytes := 0\<rparr>"

definition simple_TxHashes :: "simpleMempool \<Rightarrow> bytes list" where
  "simple_TxHashes m = sm_order m"

definition simple_SetTxValidator :: "simpleMempool \<Rightarrow> txValidator option \<Rightarrow> simpleMempool" where
  "simple_SetTxValidator m v = m\<lparr>sm_validator := v\<rparr>"

definition simple_mempool :: "(bytes \<Rightarrow> bytes) \<Rightarrow> simpleMempool mempool" where
  "simple_mempool HashTx = \<lparr>
     AddTx = (\<lambda>now m t. Some (simple_AddTx HashTx m t)),
     RemoveTxs = (\<lambda>m hs. Some (simple_RemoveTxs m hs)),
     ReapTxs = (\<lambda>now m b. simple_ReapTxs m b),
     HasTx = (\<lambda>now m h. simple_HasTx m h),
     GetTx = (\<lambda>now m h. simple_GetTx m h),
     Size = simple_Size,
     SizeBytes = simple_SizeBytes,
     Flush = simple_Flush,
     TxHashes = (\<lambda>ks m. simple_TxHashes m),
     SetTxValidator = simple_SetTxValidator\<rparr>"

section \<open>Invariant\<close>

definition simple_inv :: "(bytes \<Rightarrow> bytes) \<Rightarrow> simpleMempool \<Rightarrow> bool" where
  "simple_inv HashTx m \<longleftrightarrow>
     distinct (sm_order m) \<and> set (sm_order m) = fmdom' (sm_txs m) \<and>
     sm_sizeBytes m = map_weight (\<lambda>t. int (slice_len t)) (sm_txs m) \<and>
     (\<forall>h t. fmlookup (sm_txs m) h = Some t \<longrightarrow> h = HashTx (slice_bytes t) \<and> t \<noteq> Some []) \<and>
     (sm_maxTxs m > 0 \<longrightarrow> int (map_len (sm_txs m)) \<le> sm_maxTxs m) \<and>
     (sm_maxBytes m > 0 \<longrightarrow> sm_sizeBytes m \<le> sm_maxBytes m)"

definition simple_stored :: "simpleMempool \<Rightarrow> (bytes, bytes) fmap" where
  "simple_stored m = fmmap slice_bytes (sm_txs m)"

lemma simple_inv_new: "simple_inv HashTx (NewSimpleMempoolWithLimits a b c)"
  by (simp add: simple_inv_def NewSimpleMempoolWithLimits_def)

text \<open>Every early return leaves the pool as it was; the last branch is the only one that adds.\<close>

lemma simple_AddTx_error: "simple_AddTx HashTx m t = (Some e, m') \<Longrightarrow> m' = m"
  by (simp add: simple_AddTx_def Let_def split: option.splits if_splits)

lemma simple_AddTx_ok:
  "simple_AddTx HashTx m t = (None, m') \<Longrightarrow>
   \<exists>tx. t = Some tx \<and> fmlookup (sm_txs m) (HashTx tx) = None \<and>
     effective_validator (sm_validator m) tx = None \<and>
     (sm_maxTxs m > 0 \<longrightarrow> int (map_len (sm_txs m)) < sm_maxTxs m) \<and>
     (sm_maxBytes m > 0 \<longrightarrow> sm_sizeBytes m + int (length tx) \<le> sm_maxBytes m) \<and>
     m' = m\<lparr>sm_txs := fmupd (HashTx tx) (copy_slice tx) (sm_txs m),
            sm_order := sm_order m @ [HashTx tx],
            sm_sizeBytes := sm_sizeBytes m + int (length tx)\<rparr>"
  by (simp add: simple_AddTx_def Let_def split: option.splits if_splits) auto

lemma simple_inv_AddTx:
  assumes "simple_inv HashTx m" "simple_AddTx HashTx m t = (e, m')"
  shows "simple_inv HashTx m'"
proof (cases e)
  case None
  with assms obtain tx where tx: "fmlookup (sm_txs m) (HashTx tx) = None"
    "sm_maxTxs m > 0 \<longrightarrow> int (map_len (sm_txs m)) < sm_maxTxs m"
    "sm_maxBytes m > 0 \<longrightarrow> sm_sizeBytes m + int (length tx) \<le> sm_maxBytes m"
    "m' = m\<lparr>sm_txs := fmupd (HashTx tx) (copy_slice tx) (sm_txs m),
            sm_order := sm_order m @ [HashTx tx],
            sm_sizeBytes := sm_sizeBytes m + int (length tx)\<rparr>"
    using simple_AddTx_ok [of HashTx m t m'] by auto
  have "HashTx tx \<notin> fmdom' (sm_txs m)" using tx(1) by (rule fmdom'_notI)
  moreover have "copy_slice tx \<noteq> Some []" by (simp add: copy_slice_def)
  ultimately show ?thesis
    using assms(1) tx by (simp add: simple_inv_def map_len_simps weight_simps) linarith
next
  case (Some err)
  then show ?thesis using assms simple_AddTx_error by blast
qed

lemma simple_AddTx_stored:
  assumes "simple_AddTx HashTx m t = (None, m')"
  shows "\<exists>tx. t = Some tx \<and> effective_validator (sm_validator m) tx = None \<and>
     fmlookup (simple_stored m) (HashTx tx) = None \<and>
     simple_stored m' = fmupd (HashTx tx) tx (simple_stored m)"
  using simple_AddTx_ok [OF assms] by (auto simp: simple_stored_def intro!: fmap_ext)

lemma simple_AddTx_validator:
  "simple_AddTx HashTx m t = (e, m') \<Longrightarrow> sm_validator m' = sm_validator m"
  using simple_AddTx_ok [of HashTx m t m'] simple_AddTx_error [of HashTx m t _ m']
  by (cases e) auto

lemma simple_remove_loop_txs [simp]:
  "sm_txs (simple_remove_loop m hs) = fmdrop_set (set hs) (sm_txs m)"
  by (induction m hs rule: simple_remove_loop.induct)
    (auto simp: fmdrop_set_insert fmdrop_idle' fmdom'_notI split: option.splits)

lemma simple_remove_loop_other [simp]:
  "sm_order (simple_remove_loop m hs) = sm_order m"
  "sm_maxTxs (simple_remove_loop m hs) = sm_maxTxs m"
  "sm_maxBytes (simple_remove_loop m hs) = sm_maxBytes m"
  "sm_validator (simple_remove_loop m hs) = sm_validator m"
  by (induction m hs rule: simple_remove_loop.induct) (auto split: option.splits)

lemma simple_remove_loop_size:
  "sm_sizeBytes m = map_weight (\<lambda>t. int (slice_len t)) (sm_txs m) \<Longrightarrow>
   sm_sizeBytes (simple_remove_loop m hs) =
     map_weight (\<lambda>t. int (slice_len t)) (sm_txs (simple_remove_loop m hs))"
  by (induction m hs rule: simple_remove_loop.induct)
    (auto simp: weight_simps fmdrop_set_insert fmdrop_idle' fmdom'_notI split: option.splits)

lemma simple_inv_RemoveTxs:
  assumes "simple_inv HashTx m"
  shows "simple_inv HashTx (simple_RemoveTxs m hs)"
proof -
  have "map_len (fmdrop_set (set hs) (sm_txs m)) \<le> map_len (sm_txs m)"
    by (rule fmdrop_set_len_le)
  moreover have "map_weight (\<lambda>t. int (slice_len t)) (fmdrop_set (set hs) (sm_txs m))
      \<le> map_weight (\<lambda>t. int (slice_len t)) (sm_txs m)"
    by (rule fmdrop_set_weight_le) simp
  ultimately show ?thesis
    using assms simple_remove_loop_size [of m hs]
    by (auto simp: simple_inv_def simple_RemoveTxs_def Let_def fmlookup_dom'_iff)
qed

lemma simple_RemoveTxs_stored:
  "simple_stored (simple_RemoveTxs m hs) = fmdrop_set (set hs) (simple_stored m)"
  by (auto simp: simple_stored_def simple_RemoveTxs_def Let_def intro!: fmap_ext)

lemma simple_RemoveTxs_validator [simp]: "sm_validator (simple_RemoveTxs m hs) = sm_validator m"
  by (simp add: simple_RemoveTxs_def Let_def)

section \<open>Reaping\<close>

text \<open>The transactions \<open>ReapTxs\<close> considers: those in order whose stored copy is not nil.\<close>

definition simple_pending :: "simpleMempool \<Rightarrow> bytes list" where
  "simple_pending m =
     concat (map (\<lambda>h. case fmlookup (sm_txs m) h of Some (Some tx) \<Rightarrow> [tx] | _ \<Rightarrow> []) (sm_order m))"

lemma simple_reap_loop_eq:
  "simple_reap_loop m b t hs = take_fitting b t
     (concat (map (\<lambda>h. case fmlookup (sm_txs m) h of Some (Some tx) \<Rightarrow> [tx] | _ \<Rightarrow> []) hs))"
  by (induction m b t hs rule: simple_reap_loop.induct) (auto split: option.splits simp: Let_def)

lemma simple_ReapTxs_eq:
  "simple_ReapTxs m b = take_fitting (if b \<le> 0 then sm_maxBytes m else b) 0 (simple_pending m)"
  by (simp add: simple_ReapTxs_def simple_reap_loop_eq simple_pending_def)

lemma simple_pending_stored:
  "tx \<in> set (simple_pending m) \<Longrightarrow> \<exists>h. fmlookup (simple_stored m) h = Some tx"
  by (auto simp: simple_pending_def simple_stored_def split: option.splits)
    (metis option.simps(9) slice_bytes_Some)

section \<open>The contract\<close>

interpretation simple: mempool_contract "simple_mempool HashTx" HashTx "simple_inv HashTx"
  simple_stored "\<lambda>_ _ _. True" "\<lambda>m tx. effective_validator (sm_validator m) tx = None"
  for HashTx
proof unfold_locales
  fix m m' :: simpleMempool and now t e
  assume "simple_inv HashTx m" "AddTx (simple_mempool HashTx) now m t = Some (e, m')"
  then show "simple_inv HashTx m'"
    using simple_inv_AddTx [of HashTx m t e m'] by (simp add: simple_mempool_def)
next
  fix m m' :: simpleMempool and now t e tx
  assume "AddTx (simple_mempool HashTx) now m t = Some (e, m')"
  then show "(effective_validator (sm_validator m') tx = None)
      = (effective_validator (sm_validator m) tx = None)"
    using simple_AddTx_validator [of HashTx m t e m'] by (simp add: simple_mempool_def)
next
  fix m m' :: simpleMempool and now t
  assume "AddTx (simple_mempool HashTx) now m t = Some (None, m')"
  then have "simple_AddTx HashTx m t = (None, m')" by (simp add: simple_mempool_def)
  from simple_AddTx_stored [OF this]
  show "\<exists>tx ev. t = Some tx \<and> effective_validator (sm_validator m) tx = None \<and>
      fmlookup (simple_stored m) (HashTx tx) = None \<and>
      simple_stored m' = fmupd (HashTx tx) tx (fmdrop_set ev (simple_stored m)) \<and> True"
    by (metis fmdrop_set_null)
next
  fix m m' :: simpleMempool and now t err
  assume "AddTx (simple_mempool HashTx) now m t = Some (Some err, m')"
  then have "simple_AddTx HashTx m t = (Some err, m')" by (simp add: simple_mempool_def)
  from simple_AddTx_error [OF this]
  show "\<exists>ev. simple_stored m' = fmdrop_set ev (simple_stored m)" by (metis fmdrop_set_null)
next
  fix m m' :: simpleMempool and hs
  assume "simple_inv HashTx m" "RemoveTxs (simple_mempool HashTx) m hs = Some m'"
  then show "simple_inv HashTx m' \<and> simple_stored m' = fmdrop_set (set hs) (simple_stored m) \<and>
      (\<forall>tx. (effective_validator (sm_validator m') tx = None)
        = (effective_validator (sm_validator m) tx = None))"
    using simple_inv_RemoveTxs simple_RemoveTxs_stored simple_RemoveTxs_validator
    by (auto simp: simple_mempool_def)
next
  fix m :: simpleMempool and tx now b
  assume "tx \<in> set (ReapTxs (simple_mempool HashTx) now m b)"
  then have "tx \<in> set (simple_pending m)"
    using take_fitting_subset by (fastforce simp: simple_mempool_def simple_ReapTxs_eq)
  then show "\<exists>h. fmlookup (simple_stored m) h = Some tx \<and> True"
    using simple_pending_stored by simp
next
  fix m :: simpleMempool and now and b :: int
  assume "0 < b"
  then show "total_len (ReapTxs (simple_mempool HashTx) now m b) \<le> b"
    using take_fitting_bound [of b 0] by (simp add: simple_mempool_def simple_ReapTxs_eq)
qed (auto simp: simple_mempool_def simple_inv_def simple_Flush_def simple_stored_def
      simple_SetTxValidator_def simple_HasTx_def simple_GetTx_def simple_Size_def
      simple_SizeBytes_def simple_TxHashes_def slice_len_bytes enumerates_def
      split: option.splits intro!: fmap_ext)

lemma simple_exec_limits:
  assumes "mempool_exec (simple_mempool HashTx) m c = Some m'"
  shows "sm_maxTxs m' = sm_maxTxs m \<and> sm_maxBytes m' = sm_maxBytes m"
proof (cases c)
  case (CallAdd now t)
  with assms obtain e where "simple_AddTx HashTx m t = (e, m')"
    by (cases "simple_AddTx HashTx m t") (simp add: simple_mempool_def)
  then show ?thesis
    using simple_AddTx_ok [of HashTx m t m'] simple_AddTx_error [of HashTx m t _ m']
    by (cases e) auto
qed (use assms in \<open>auto simp: simple_mempool_def simple_RemoveTxs_def Let_def simple_Flush_def
      simple_SetTxValidator_def\<close>)

section \<open>Properties\<close>

text \<open>
  C22: \<open>SimpleMempool.ReapTxs\<close> returns an initial segment, in insertion order, of the
  transactions whose stored copy is not nil; the segment respects the byte limit in force
  (the argument, or the pool's own limit when the argument is not positive) and stops only
  where the next transaction would exceed it.
\<close>

theorem simple_reap_longest_prefix:
  assumes "limit = (if b \<le> 0 then sm_maxBytes m else b)"
  shows "\<exists>n. simple_ReapTxs m b = take n (simple_pending m) \<and>
    (0 < limit \<longrightarrow> total_len (simple_ReapTxs m b) \<le> limit) \<and>
    (n < length (simple_pending m) \<longrightarrow>
       0 < limit \<and> limit < total_len (take (Suc n) (simple_pending m)))"
proof -
  let ?p = "simple_pending m"
  have eq: "simple_ReapTxs m b = take_fitting limit 0 ?p" by (simp add: simple_ReapTxs_eq assms)
  obtain n where n: "take_fitting limit 0 ?p = take n ?p" using take_fitting_prefix by blast
  have "0 < limit \<and> limit < total_len (take (Suc n) ?p)" if "n < length ?p"
    using take_fitting_maximal [OF n id_take_nth_drop [OF that]] that
    by (simp add: take_Suc_conv_app_nth)
  then show ?thesis using eq n take_fitting_bound [of limit 0 ?p] by (intro exI [of _ n]) simp
qed

definition ex_simple_pool :: simpleMempool where
  "ex_simple_pool = \<lparr>sm_txs = fmupd [2] (Some [7, 8, 9]) (fmupd [1] (Some [5, 6]) fmempty),
     sm_order = [[1], [2]], sm_maxTxs = 10, sm_maxBytes = 100, sm_maxTxSize = 0,
     sm_sizeBytes = 5, sm_validator = None\<rparr>"

theorem simple_reap_longest_prefix_witness:
  "simple_pending ex_simple_pool = [[5, 6], [7, 8, 9]] \<and> simple_ReapTxs ex_simple_pool 4 = [[5, 6]] \<and>
   (\<exists>n. simple_ReapTxs ex_simple_pool 4 = take n (simple_pending ex_simple_pool) \<and>
      n < 2 \<and> 4 < total_len (take (Suc n) (simple_pending ex_simple_pool)))"
proof -
  have p: "simple_pending ex_simple_pool = [[5, 6], [7, 8, 9]]"
    by (simp add: simple_pending_def ex_simple_pool_def)
  have r: "simple_ReapTxs ex_simple_pool 4 = [[5, 6]]"
    by (simp add: simple_ReapTxs_def ex_simple_pool_def Let_def)
  obtain n where n: "simple_ReapTxs ex_simple_pool 4 = take n (simple_pending ex_simple_pool)"
    "n < length (simple_pending ex_simple_pool) \<longrightarrow>
       (0::int) < 4 \<and> 4 < total_len (take (Suc n) (simple_pending ex_simple_pool))"
    using simple_reap_longest_prefix [of 4 4 ex_simple_pool] by auto
  have "n < 2" using n(1) p r by (cases "n \<ge> 2") auto
  with n p r show ?thesis by auto
qed

text \<open>
  C23: Whatever calls are made on a new \<open>SimpleMempool\<close>, no call panics, \<open>Size\<close> and
  \<open>SizeBytes\<close> are the number and the total length of the stored transactions, and neither
  exceeds its configured limit.
\<close>

theorem simple_run_within_limits:
  "\<exists>m. mempool_run (simple_mempool HashTx) (NewSimpleMempoolWithLimits maxTxs maxBytes maxTxSize) cs
       = Some m \<and>
     simple_Size m = int (map_len (simple_stored m)) \<and>
     simple_SizeBytes m = map_weight (\<lambda>tx. int (length tx)) (simple_stored m) \<and>
     (maxTxs > 0 \<longrightarrow> simple_Size m \<le> maxTxs) \<and>
     (maxBytes > 0 \<longrightarrow> simple_SizeBytes m \<le> maxBytes)"
proof -
  let ?m0 = "NewSimpleMempoolWithLimits maxTxs maxBytes maxTxSize"
  let ?P = "\<lambda>m. simple_inv HashTx m \<and> sm_maxTxs m = maxTxs \<and> sm_maxBytes m = maxBytes"
  have "?P m \<Longrightarrow> \<exists>m'. mempool_run (simple_mempool HashTx) m cs = Some m' \<and> ?P m'" for m
  proof (induction cs arbitrary: m)
    case (Cons c cs)
    obtain m1 where m1: "mempool_exec (simple_mempool HashTx) m c = Some m1" "simple_inv HashTx m1"
      using simple.exec_inv Cons.prems by blast
    then have "?P m1" using simple_exec_limits [OF m1(1)] Cons.prems by simp
    with Cons.IH [of m1] m1(1) show ?case by simp
  qed simp
  from this [of ?m0] obtain m where m: "mempool_run (simple_mempool HashTx) ?m0 cs = Some m" "?P m"
    using simple_inv_new by (auto simp: NewSimpleMempoolWithLimits_def)
  then show ?thesis
    by (intro exI [of _ m])
      (auto simp: simple_inv_def simple_Size_def simple_SizeBytes_def simple_stored_def slice_len_bytes)
qed

theorem simple_run_within_limits_witness:
  "\<exists>m. mempool_run (simple_mempool (\<lambda>tx. tx)) (NewSimpleMempoolWithLimits 1 100 0)
        [CallSetValidator (Some AcceptAllTxValidator), CallAdd 0 (Some [5]), CallAdd 0 (Some [6])]
      = Some m \<and> simple_Size m = 1 \<and> simple_Size m \<le> 1 \<and> simple_SizeBytes m \<le> 100"
  using simple_run_within_limits [of "\<lambda>tx. tx" 1 100 0
      "[CallSetValidator (Some AcceptAllTxValidator), CallAdd 0 (Some [5]), CallAdd 0 (Some [6])]"]
  by (simp add: simple_mempool_def simple_SetTxValidator_def simple_AddTx_def Let_def simple_Size_def
      NewSimpleMempoolWithLimits_def AcceptAllTxValidator_def map_len_simps simple_SizeBytes_def)

text \<open>
  An empty transaction that the validator accepts is counted by \<open>Size\<close> and reported by
  \<open>HasTx\<close>, yet \<open>ReapTxs\<close> never returns it: its copy is nil.
\<close>

theorem simple_empty_tx_never_reaped:
  "let m = snd (simple_AddTx HashTx
              (simple_SetTxValidator (NewSimpleMempool 10 100) (Some AcceptAllTxValidator)) (Some []))
   in simple_Size m = 1 \<and> simple_HasTx m (HashTx []) \<and> simple_ReapTxs m b = []"
  by (simp add: simple_AddTx_def simple_SetTxValidator_def NewSimpleMempool_def
      NewSimpleMempoolWithLimits_def AcceptAllTxValidator_def simple_Size_def simple_HasTx_def
      simple_ReapTxs_def map_len_simps copy_slice_def Let_def)

end
