(* ===== verification/GoHeap.thy ===== *)
theory GoHeap
  imports Prelude
begin

text \<open>
  Go's \<open>container/heap\<close>, as the priority and the TTL mempool use it: \<open>Push\<close> and \<open>Remove\<close>
  over a \<open>heap.Interface\<close>, with the sift loops \<open>up\<close> and \<open>down\<close> of the standard library. The
  locale \<open>heap_order\<close> is the contract an implementation of \<open>heap.Interface\<close> keeps; inside it
  the heap order is shown to be restored by both operations.
\<close>

section \<open>The package\<close>

text \<open>\<open>heap.Interface\<close>: the methods, as functions of the state the receiver points to.\<close>

record ('s, 'x) heap_iface =
  hLen :: "'s \<Rightarrow> nat"
  hLess :: "'s \<Rightarrow> nat \<Rightarrow> nat \<Rightarrow> bool"
  hSwap :: "'s \<Rightarrow> nat \<Rightarrow> nat \<Rightarrow> 's"
  hPush :: "'s \<Rightarrow> 'x \<Rightarrow> 's"
  hPop :: "'s \<Rightarrow> 's"

definition parent :: "nat \<Rightarrow> nat" where
  "parent j = (j - 1) div 2"

lemma parent_le [simp]: "parent j \<le> j"
  by (simp add: parent_def)

lemma parent_less [simp]: "0 < j \<Longrightarrow> parent j < j"
  by (simp add: parent_def)

lemma parent_less_bound [simp]: "j < n \<Longrightarrow> parent j < n"
  by (rule le_less_trans [OF parent_le])

lemma parent_fixed [simp]: "parent j = j \<longleftrightarrow> j = 0"
  by (auto simp: parent_def)

lemma parent_eq: "0 < c \<Longrightarrow> parent c = i \<longleftrightarrow> c = 2 * i + 1 \<or> c = 2 * i + 2"
  by (auto simp: parent_def)

function heap_up :: "('s, 'x) heap_iface \<Rightarrow> 's \<Rightarrow> nat \<Rightarrow> 's" where
  "heap_up I s j =
     (let i = parent j
      in if i = j \<or> \<not> hLess I s j i then s else heap_up I (hSwap I s i j) i)"
  by pat_completeness auto
termination
  by (relation "measure (\<lambda>(I, s, j). j)") (auto intro: parent_less)

text \<open>The child of \<open>i\<close> that \<open>down\<close> compares with: the right one when it is less than the left.\<close>

definition down_child :: "('s, 'x) heap_iface \<Rightarrow> 's \<Rightarrow> nat \<Rightarrow> nat \<Rightarrow> nat" where
  "down_child I s i n =
     (let j1 = 2 * i + 1
      in if j1 + 1 < n \<and> hLess I s (j1 + 1) j1 then j1 + 1 else j1)"

lemma down_child_range:
  "2 * i + 1 < n \<Longrightarrow> i < down_child I s i n \<and> down_child I s i n < n"
  by (simp add: down_child_def Let_def)

text \<open>The loop of \<open>down\<close>; it returns the state and the index where the item came to rest.\<close>

function heap_down_loop :: "('s, 'x) heap_iface \<Rightarrow> 's \<Rightarrow> nat \<Rightarrow> nat \<Rightarrow> 's \<times> nat" where
  "heap_down_loop I s i n =
     (if n \<le> 2 * i + 1 then (s, i)
      else let j = down_child I s i n
           in if \<not> hLess I s j i then (s, i) else heap_down_loop I (hSwap I s i j) j n)"
  by pat_completeness auto
termination
  by (relation "measure (\<lambda>(I, s, i, n). n - i)") (auto simp: down_child_def Let_def)

definition heap_down :: "('s, 'x) heap_iface \<Rightarrow> 's \<Rightarrow> nat \<Rightarrow> nat \<Rightarrow> 's \<times> bool" where
  "heap_down I s i0 n = (case heap_down_loop I s i0 n of (s', i) \<Rightarrow> (s', i0 < i))"

definition heap_Push :: "('s, 'x) heap_iface \<Rightarrow> 's \<Rightarrow> 'x \<Rightarrow> 's" where
  "heap_Push I s x = (let s' = hPush I s x in heap_up I s' (hLen I s' - 1))"

text \<open>
  \<open>heap.Remove(h, i)\<close>: an index outside the slice makes \<open>Swap\<close> (or \<open>Pop\<close>) panic, which is
  \<open>None\<close>.
\<close>

definition heap_Remove :: "('s, 'x) heap_iface \<Rightarrow> 's \<Rightarrow> int \<Rightarrow> 's option" where
  "heap_Remove I s i =
     (if i < 0 \<or> int (hLen I s) \<le> i then None
      else let n = hLen I s - 1; k = nat i
           in Some (hPop I (if n \<noteq> k
                            then (let s1 = hSwap I s k n
                                  in case heap_down I s1 k n of
                                       (s2, moved) \<Rightarrow> if moved then s2 else heap_up I s2 k)
                            else s)))"

declare heap_up.simps [simp del] heap_down_loop.simps [simp del]

section \<open>What every swap keeps is kept\<close>

lemma heap_up_pres:
  "(\<And>s i j. i < n \<Longrightarrow> j < n \<Longrightarrow> P s \<Longrightarrow> P (hSwap I s i j)) \<Longrightarrow> P s \<Longrightarrow> j < n
    \<Longrightarrow> P (heap_up I s j)"
proof (induction I s j rule: heap_up.induct)
  case (1 I s j)
  let ?i = "parent j"
  show ?case
  proof (cases "?i = j \<or> \<not> hLess I s j ?i")
    case True
    with "1.prems" show ?thesis by (simp add: heap_up.simps [of I s j] Let_def)
  next
    case False
    have i: "?i < n" using "1.prems"(3) by simp
    have "P (hSwap I s ?i j)" by (rule "1.prems"(1) [OF i "1.prems"(3,2)])
    with False i show ?thesis
      using "1.IH" [OF refl _ "1.prems"(1)] by (simp add: heap_up.simps [of I s j] Let_def)
  qed
qed

lemma heap_down_loop_pres:
  "(\<And>s i j. i < n \<Longrightarrow> j < n \<Longrightarrow> P s \<Longrightarrow> P (hSwap I s i j)) \<Longrightarrow> P s \<Longrightarrow> i < n
    \<Longrightarrow> P (fst (heap_down_loop I s i n))"
proof (induction I s i n rule: heap_down_loop.induct)
  case (1 I s i n)
  let ?j = "down_child I s i n"
  show ?case
  proof (cases "n \<le> 2 * i + 1 \<or> \<not> hLess I s ?j i")
    case True
    with "1.prems" show ?thesis by (auto simp: heap_down_loop.simps [of I s i n] Let_def)
  next
    case False
    then have j: "?j < n" using down_child_range [of i n I s] by simp
    have "P (hSwap I s i ?j)" by (rule "1.prems"(1) [OF "1.prems"(3) j "1.prems"(2)])
    with False j show ?thesis
      using "1.IH" [OF _ refl _ "1.prems"(1)]
      by (simp add: heap_down_loop.simps [of I s i n] Let_def)
  qed
qed

lemma heap_down_loop_mono: "i \<le> snd (heap_down_loop I s i n)"
proof (induction I s i n rule: heap_down_loop.induct)
  case (1 I s i n)
  then show ?case
    using down_child_range [of i n I s]
    by (cases "n \<le> 2 * i + 1 \<or> \<not> hLess I s (down_child I s i n) i")
      (force simp: heap_down_loop.simps [of I s i n] Let_def)+
qed

section \<open>Heap order on lists of keys\<close>

definition swap_list :: "'a list \<Rightarrow> nat \<Rightarrow> nat \<Rightarrow> 'a list" where
  "swap_list xs i j = xs[i := xs ! j, j := xs ! i]"

lemma length_swap_list [simp]: "length (swap_list xs i j) = length xs"
  by (simp add: swap_list_def)

lemma nth_swap_list:
  "i < length xs \<Longrightarrow> j < length xs \<Longrightarrow> k < length xs \<Longrightarrow>
   swap_list xs i j ! k = (if k = j then xs ! i else if k = i then xs ! j else xs ! k)"
  by (simp add: swap_list_def nth_list_update)

lemma mset_swap_list [simp]:
  "i < length xs \<Longrightarrow> j < length xs \<Longrightarrow> mset (swap_list xs i j) = mset xs"
  by (simp add: swap_list_def mset_swap)

lemma map_swap_list:
  "i < length xs \<Longrightarrow> j < length xs \<Longrightarrow> map f (swap_list xs i j) = swap_list (map f xs) i j"
  by (simp add: swap_list_def map_update)

text \<open>The first \<open>n\<close> keys form a max-heap.\<close>

definition heap_upto :: "int list \<Rightarrow> nat \<Rightarrow> bool" where
  "heap_upto xs n \<longleftrightarrow> (\<forall>k<n. 0 < k \<longrightarrow> xs ! k \<le> xs ! parent k)"

text \<open>
  A heap but for the key at \<open>j\<close>, which may exceed its parent (\<open>up_gap\<close>), or may be in any
  relation to its parent and to its children (\<open>down_gap\<close>).
\<close>

definition up_gap :: "int list \<Rightarrow> nat \<Rightarrow> nat \<Rightarrow> bool" where
  "up_gap xs n j \<longleftrightarrow> (\<forall>k<n. 0 < k \<and> k \<noteq> j \<longrightarrow> xs ! k \<le> xs ! parent k) \<and>
     (\<forall>c<n. 0 < c \<and> parent c = j \<and> 0 < j \<longrightarrow> xs ! c \<le> xs ! parent j)"

definition down_gap :: "int list \<Rightarrow> nat \<Rightarrow> nat \<Rightarrow> bool" where
  "down_gap xs n i \<longleftrightarrow> (\<forall>k<n. 0 < k \<and> k \<noteq> i \<and> parent k \<noteq> i \<longrightarrow> xs ! k \<le> xs ! parent k) \<and>
     (\<forall>c<n. 0 < c \<and> parent c = i \<and> 0 < i \<longrightarrow> xs ! c \<le> xs ! parent i)"

lemma up_gap_step:
  assumes "up_gap xs n j" "j < n" "n \<le> length xs" "parent j \<noteq> j" "xs ! parent j < xs ! j"
  shows "up_gap (swap_list xs (parent j) j) n (parent j)"
proof -
  define i where "i = parent j"
  have j: "0 < j" and i: "i < j" "i < n" using assms(2,4) by (auto simp: i_def)
  have sw: "swap_list xs i j ! k = (if k = j then xs ! i else if k = i then xs ! j else xs ! k)"
    if "k < n" for k using that assms(2,3) i by (intro nth_swap_list) auto
  have h1: "xs ! k \<le> xs ! parent k" if "k < n" "0 < k" "k \<noteq> j" for k
    using assms(1) that by (auto simp: up_gap_def)
  have h2: "xs ! c \<le> xs ! i" if "c < n" "0 < c" "parent c = j" for c
    using assms(1) that j by (auto simp: up_gap_def i_def)
  have "swap_list xs i j ! k \<le> swap_list xs i j ! parent k" if k: "k < n" "0 < k" "k \<noteq> i" for k
  proof -
    have "parent k < n" using k by simp
    then show ?thesis
      using k h1 [of k] h2 [of k] assms(5) i by (auto simp: sw simp flip: i_def)
  qed
  moreover have "swap_list xs i j ! c \<le> swap_list xs i j ! parent i"
    if c: "c < n" "0 < c" "parent c = i" "0 < i" for c
  proof -
    have p: "parent i < i" "parent i < n" using c(4) i by auto
    have "xs ! i \<le> xs ! parent i" using h1 [of i] i c(4) by simp
    then show ?thesis
      using c h1 [of c] p i by (auto simp: sw)
  qed
  ultimately show ?thesis unfolding up_gap_def i_def [symmetric] by blast
qed

lemma up_gap_heap:
  "up_gap xs n j \<Longrightarrow> parent j = j \<or> xs ! j \<le> xs ! parent j \<Longrightarrow> heap_upto xs n"
  by (auto simp: up_gap_def heap_upto_def)

lemma heap_upto_root: "heap_upto xs n \<Longrightarrow> k < n \<Longrightarrow> xs ! k \<le> xs ! 0"
proof (induction k rule: less_induct)
  case (less k)
  show ?case
  proof (cases "k = 0")
    case False
    then have "parent k < k" by auto
    with less have "xs ! parent k \<le> xs ! 0" by auto
    moreover have "xs ! k \<le> xs ! parent k" using less False by (auto simp: heap_upto_def)
    ultimately show ?thesis by simp
  qed simp
qed

text \<open>One round of \<open>down\<close>, and the two ways it stops.\<close>

lemma down_gap_step:
  assumes gap: "down_gap xs n i" and n: "n \<le> length xs"
    and j: "j = 2 * i + 1 \<or> j = 2 * i + 2" "j < n"
    and best: "\<And>c. c < n \<Longrightarrow> 0 < c \<Longrightarrow> parent c = i \<Longrightarrow> xs ! c \<le> xs ! j"
    and less: "xs ! i < xs ! j"
  shows "down_gap (swap_list xs i j) n j"
    and "swap_list xs i j ! j \<le> swap_list xs i j ! parent j"
proof -
  have pj: "parent j = i" and ij: "i < j" "i < n" "0 < j" using j by (auto simp: parent_eq)
  have sw: "swap_list xs i j ! k = (if k = j then xs ! i else if k = i then xs ! j else xs ! k)"
    if "k < n" for k using that n j(2) ij by (intro nth_swap_list) auto
  show "swap_list xs i j ! j \<le> swap_list xs i j ! parent j"
    using less ij j by (simp add: sw pj)
  have h1: "xs ! k \<le> xs ! parent k" if "k < n" "0 < k" "k \<noteq> i" "parent k \<noteq> i" for k
    using gap that by (auto simp: down_gap_def)
  have h2: "xs ! j \<le> xs ! parent i" if "0 < i"
    using gap that j ij pj by (auto simp: down_gap_def)
  have "swap_list xs i j ! k \<le> swap_list xs i j ! parent k"
    if k: "k < n" "0 < k" "k \<noteq> j" "parent k \<noteq> j" for k
  proof -
    have pk: "parent k < n" "parent k < k" using k by auto
    show ?thesis
      using k h1 [of k] h2 best [of k] pk ij by (cases "k = i"; cases "parent k = i") (auto simp: sw)
  qed
  moreover have "swap_list xs i j ! c \<le> swap_list xs i j ! parent j"
    if c: "c < n" "0 < c" "parent c = j" for c
  proof -
    have "j < c" using c by (metis parent_less)
    then show ?thesis using h1 [of c] c ij pj by (auto simp: sw)
  qed
  ultimately show "down_gap (swap_list xs i j) n j" by (auto simp: down_gap_def)
qed

lemma down_gap_stop:
  "down_gap xs n i \<Longrightarrow> (\<And>c. c < n \<Longrightarrow> 0 < c \<Longrightarrow> parent c = i \<Longrightarrow> xs ! c \<le> xs ! i)
    \<Longrightarrow> up_gap xs n i"
  by (force simp: down_gap_def up_gap_def)

lemma heap_upto_swap_last:
  assumes "heap_upto xs (Suc n)" "Suc n \<le> length xs" "k < n"
  shows "down_gap (swap_list xs k n) n k"
proof -
  have sw: "swap_list xs k n ! c = (if c = k then xs ! n else xs ! c)" if "c < n" for c
    using that assms by (simp add: nth_swap_list)
  have h: "xs ! c \<le> xs ! parent c" if "c < n" "0 < c" for c
    using assms(1) that by (auto simp: heap_upto_def)
  have "swap_list xs k n ! c \<le> swap_list xs k n ! parent k"
    if c: "c < n" "0 < c" "parent c = k" "0 < k" for c
  proof -
    have "k < c" "parent k < k" using c by (metis parent_less)+
    then show ?thesis using h [of c] h [of k] c assms(3) by (auto simp: sw)
  qed
  then show ?thesis using h assms(3) by (auto simp: down_gap_def sw)
qed

lemma heap_upto_mono: "heap_upto xs n \<Longrightarrow> m \<le> n \<Longrightarrow> heap_upto xs m"
  by (auto simp: heap_upto_def)

lemma heap_upto_append: "n \<le> length xs \<Longrightarrow> heap_upto (xs @ ys) n = heap_upto xs n"
  by (auto simp: heap_upto_def nth_append intro!: less_le_trans [OF parent_less_bound])

section \<open>The contract of heap.Interface\<close>

text \<open>
  What \<open>container/heap\<close> relies on: \<open>Less\<close> compares the priorities of the two items (greater
  first), \<open>Swap\<close> exchanges them, \<open>Push\<close> appends and \<open>Pop\<close> drops the last item, and all of
  them leave the rest of the state (\<open>frame\<close>) alone and keep the implementation's own
  bookkeeping (\<open>ok\<close>).
\<close>

locale heap_order =
  fixes I :: "('s, 'a) heap_iface"
    and items :: "'s \<Rightarrow> 'a list"
    and frame :: "'s \<Rightarrow> 'f"
    and prio :: "'f \<Rightarrow> 'a \<Rightarrow> int"
    and ok :: "'s \<Rightarrow> bool"
  assumes len: "hLen I s = length (items s)"
    and less_iff: "i < length (items s) \<Longrightarrow> j < length (items s) \<Longrightarrow>
      hLess I s i j \<longleftrightarrow> prio (frame s) (items s ! j) < prio (frame s) (items s ! i)"
    and swap: "ok s \<Longrightarrow> i < length (items s) \<Longrightarrow> j < length (items s) \<Longrightarrow>
      items (hSwap I s i j) = swap_list (items s) i j \<and> frame (hSwap I s i j) = frame s \<and>
      ok (hSwap I s i j)"
    and push: "ok s \<Longrightarrow> x \<notin> set (items s) \<Longrightarrow>
      items (hPush I s x) = items s @ [x] \<and> frame (hPush I s x) = frame s \<and> ok (hPush I s x)"
    and pop: "ok s \<Longrightarrow> items s \<noteq> [] \<Longrightarrow>
      items (hPop I s) = butlast (items s) \<and> frame (hPop I s) = frame s \<and> ok (hPop I s)"
begin

abbreviation keys :: "'s \<Rightarrow> int list" where
  "keys s \<equiv> map (prio (frame s)) (items s)"

abbreviation ordered :: "'s \<Rightarrow> bool" where
  "ordered s \<equiv> heap_upto (keys s) (length (items s))"

text \<open>A state reached from \<open>s\<close> by swaps below \<open>n\<close>.\<close>

definition shuffled :: "nat \<Rightarrow> 's \<Rightarrow> 's \<Rightarrow> bool" where
  "shuffled n s t \<longleftrightarrow> ok t \<and> frame t = frame s \<and> mset (items t) = mset (items s) \<and>
     (\<forall>k. n \<le> k \<and> k < length (items s) \<longrightarrow> items t ! k = items s ! k)"

lemma shuffled_refl: "ok s \<Longrightarrow> shuffled n s s"
  by (simp add: shuffled_def)

lemma shuffled_length: "shuffled n s t \<Longrightarrow> length (items t) = length (items s)"
  by (auto simp: shuffled_def dest: mset_eq_length)

lemma shuffled_swap:
  assumes "n \<le> length (items s)" "i < n" "j < n" "shuffled n s t"
  shows "shuffled n s (hSwap I t i j)"
proof -
  have l: "i < length (items t)" "j < length (items t)" and okt: "ok t"
    using assms shuffled_length [OF assms(4)] by (auto simp: shuffled_def)
  show ?thesis
    using assms swap [OF okt l] l shuffled_length [OF assms(4)]
    by (auto simp: shuffled_def nth_swap_list)
qed

lemma shuffled_up: "n \<le> length (items s) \<Longrightarrow> j < n \<Longrightarrow> shuffled n s t \<Longrightarrow> shuffled n s (heap_up I t j)"
  by (rule heap_up_pres [of n "shuffled n s"]) (auto intro: shuffled_swap)

lemma shuffled_down:
  "n \<le> length (items s) \<Longrightarrow> i < n \<Longrightarrow> shuffled n s t \<Longrightarrow> shuffled n s (fst (heap_down_loop I t i n))"
  by (rule heap_down_loop_pres [of n "shuffled n s"]) (auto intro: shuffled_swap)

lemma swap_keys:
  "ok s \<Longrightarrow> i < length (items s) \<Longrightarrow> j < length (items s) \<Longrightarrow>
   keys (hSwap I s i j) = swap_list (keys s) i j"
  by (simp add: swap map_swap_list)

lemma up_heap:
  "ok s \<Longrightarrow> n \<le> length (items s) \<Longrightarrow> j < n \<Longrightarrow> up_gap (keys s) n j \<Longrightarrow>
   heap_upto (keys (heap_up I s j)) n"
proof (induction j arbitrary: s rule: less_induct)
  case (less j)
  have l: "j < length (items s)" "parent j < length (items s)"
    using less.prems by (auto intro: less_le_trans)
  show ?case
  proof (cases "parent j = j \<or> \<not> hLess I s j (parent j)")
    case True
    then have "heap_up I s j = s" by (subst heap_up.simps) (auto simp: Let_def)
    moreover have "parent j = j \<or> keys s ! j \<le> keys s ! parent j"
      using True l by (auto simp: less_iff)
    ultimately show ?thesis using up_gap_heap [OF less.prems(4)] by simp
  next
    case False
    let ?t = "hSwap I s (parent j) j"
    have "up_gap (keys ?t) n (parent j)"
      unfolding swap_keys [OF less.prems(1) l(2,1)]
      using False less.prems l by (intro up_gap_step) (auto simp: less_iff)
    then have "heap_upto (keys (heap_up I ?t (parent j))) n"
      using False less.prems l swap [OF less.prems(1) l(2,1)] by (intro less.IH) auto
    then show ?thesis
      using False by (subst (1 2) heap_up.simps) (simp add: Let_def)
  qed
qed

lemma down_child_best:
  assumes "n \<le> length (items s)" "c < n" "0 < c" "parent c = i"
  shows "keys s ! c \<le> keys s ! down_child I s i n"
  using assms by (auto simp: parent_eq down_child_def Let_def less_iff)

lemma down_halt:
  assumes "n \<le> length (items s)" "i < n" "down_gap (keys s) n i"
    and stop: "n \<le> 2 * i + 1 \<or> \<not> hLess I s (down_child I s i n) i"
  shows "heap_down_loop I s i n = (s, i) \<and> up_gap (keys s) n i"
proof -
  have "keys s ! c \<le> keys s ! i" if "c < n" "0 < c" "parent c = i" for c
  proof -
    have "\<not> hLess I s (down_child I s i n) i" "down_child I s i n < n"
      using stop that down_child_range [of i n I s] by (auto simp: parent_eq)
    then show ?thesis
      using down_child_best [OF assms(1) that] assms by (auto simp: less_iff)
  qed
  moreover have "heap_down_loop I s i n = (s, i)"
    using stop by (subst heap_down_loop.simps) (auto simp: Let_def)
  ultimately show ?thesis using down_gap_stop [OF assms(3)] by blast
qed

lemma down_move:
  assumes "ok s" "n \<le> length (items s)" "i < n" "down_gap (keys s) n i"
    and go: "\<not> (n \<le> 2 * i + 1 \<or> \<not> hLess I s (down_child I s i n) i)"
    and t: "j = down_child I s i n" "t = hSwap I s i j"
  shows "heap_down_loop I s i n = heap_down_loop I t j n" "i < j" "j < n" "ok t"
    "n \<le> length (items t)" "down_gap (keys t) n j" "keys t ! j \<le> keys t ! parent j"
proof -
  show ij: "i < j" "j < n" using go down_child_range [of i n I s] t by auto
  have l: "i < length (items s)" "j < length (items s)" using assms ij by auto
  show "heap_down_loop I s i n = heap_down_loop I t j n"
    using go t by (subst heap_down_loop.simps) (simp add: Let_def)
  show "ok t" "n \<le> length (items t)" using swap [OF assms(1) l] assms t by auto
  have child: "j = 2 * i + 1 \<or> j = 2 * i + 2" by (auto simp: t down_child_def Let_def)
  have best: "keys s ! c \<le> keys s ! j" if "c < n" "0 < c" "parent c = i" for c
    using down_child_best [OF assms(2) that] t by simp
  have less: "keys s ! i < keys s ! j" using go l t by (simp add: less_iff)
  note step = down_gap_step [OF assms(4) _ child ij(2) best less]
  show "down_gap (keys t) n j" "keys t ! j \<le> keys t ! parent j"
    unfolding t(2) swap_keys [OF assms(1) l] by (rule step; use assms in simp)+
qed

lemma down_heap:
  "ok s \<Longrightarrow> n \<le> length (items s) \<Longrightarrow> i < n \<Longrightarrow> down_gap (keys s) n i \<Longrightarrow>
   i = 0 \<or> keys s ! i \<le> keys s ! parent i \<Longrightarrow>
   heap_upto (keys (fst (heap_down_loop I s i n))) n"
proof (induction "n - i" arbitrary: s i rule: less_induct)
  case less
  show ?case
  proof (cases "n \<le> 2 * i + 1 \<or> \<not> hLess I s (down_child I s i n) i")
    case True
    from down_halt [OF less.prems(2-4) True] show ?thesis
      using up_gap_heap [of "keys s" n i] less.prems(5) by auto
  next
    case False
    note mv = down_move [OF less.prems(1-4) False refl refl]
    show ?thesis unfolding mv(1)
      by (rule less.hyps [OF _ mv(4,5,3,6)]) (use mv less.prems in auto)
  qed
qed

lemma down_rest:
  assumes "ok s" "n \<le> length (items s)" "i < n" "down_gap (keys s) n i"
  shows "case heap_down I s i n of (t, moved) \<Rightarrow>
    if moved then heap_upto (keys t) n else t = s \<and> up_gap (keys s) n i"
proof (cases "n \<le> 2 * i + 1 \<or> \<not> hLess I s (down_child I s i n) i")
  case True
  from down_halt [OF assms(2-4) True] show ?thesis by (simp add: heap_down_def)
next
  case False
  note mv = down_move [OF assms False refl refl]
  let ?r = "heap_down_loop I (hSwap I s i (down_child I s i n)) (down_child I s i n) n"
  have "heap_upto (keys (fst ?r)) n" using down_heap [OF mv(4,5,3,6)] mv(7) by blast
  moreover have "i < snd ?r" by (rule less_le_trans [OF mv(2) heap_down_loop_mono])
  ultimately show ?thesis by (auto simp: heap_down_def mv(1) split: prod.split)
qed

text \<open>The two operations the clients call.\<close>

lemma Push_correct:
  assumes "ok s" "ordered s" "x \<notin> set (items s)"
  shows "ok (heap_Push I s x) \<and> ordered (heap_Push I s x) \<and> frame (heap_Push I s x) = frame s \<and>
    mset (items (heap_Push I s x)) = add_mset x (mset (items s))"
proof -
  define t where "t = hPush I s x"
  have t: "ok t" "items t = items s @ [x]" "frame t = frame s"
    using push [OF assms(1,3)] by (simp_all add: t_def)
  have eq: "heap_Push I s x = heap_up I t (length (items s))"
    by (simp add: heap_Push_def Let_def len t flip: t_def)
  have "up_gap (keys t) (length (items t)) (length (items s))"
    using assms(2) by (auto simp: up_gap_def heap_upto_def t nth_append parent_eq)
  then have "heap_upto (keys (heap_up I t (length (items s)))) (length (items t))"
    using t by (intro up_heap) auto
  moreover have "shuffled (length (items t)) t (heap_up I t (length (items s)))"
    using t by (intro shuffled_up shuffled_refl) auto
  ultimately show ?thesis
    using shuffled_length [of _ t] t by (auto simp: eq shuffled_def)
qed

lemma Remove_body:
  assumes "ok s" "ordered s" "k < n" "length (items s) = Suc n"
    and u: "u = (case heap_down I (hSwap I s k n) k n of
        (s2, moved) \<Rightarrow> if moved then s2 else heap_up I s2 k)"
  shows "ok u \<and> frame u = frame s \<and> mset (items u) = mset (items s) \<and>
    items u ! n = items s ! k \<and> heap_upto (keys u) n"
proof -
  define t where "t = hSwap I s k n"
  have l: "k < length (items s)" "n < length (items s)" using assms by auto
  have t: "ok t" "items t = swap_list (items s) k n" "frame t = frame s"
    using swap [OF assms(1) l] by (simp_all add: t_def)
  have lt: "length (items t) = Suc n" using t assms by simp
  have gap: "down_gap (keys t) n k"
    unfolding t_def swap_keys [OF assms(1) l] using assms by (intro heap_upto_swap_last) auto
  have sh: "shuffled n t (fst (heap_down_loop I t k n))"
    using t lt assms by (intro shuffled_down shuffled_refl) auto
  have rest: "case heap_down I t k n of (t', moved) \<Rightarrow>
    if moved then heap_upto (keys t') n else t' = t \<and> up_gap (keys t) n k"
    using t lt assms gap by (intro down_rest) auto
  have "heap_upto (keys u) n \<and> shuffled n t u"
  proof (cases "snd (heap_down I t k n)")
    case True
    then show ?thesis using rest sh u by (auto simp: heap_down_def t_def split: prod.splits)
  next
    case False
    then have "u = heap_up I t k" "up_gap (keys t) n k"
      using rest u by (auto simp: t_def split: prod.splits)
    then show ?thesis
      using t lt assms by (auto intro!: up_heap shuffled_up shuffled_refl)
  qed
  then show ?thesis
    using t l lt assms by (auto simp: shuffled_def nth_swap_list)
qed

lemma Remove_correct:
  assumes "ok s" "ordered s" "0 \<le> i" "i < int (length (items s))"
  shows "\<exists>t. heap_Remove I s i = Some t \<and> ok t \<and> ordered t \<and> frame t = frame s \<and>
    add_mset (items s ! nat i) (mset (items t)) = mset (items s)"
proof -
  define n where "n = length (items s) - 1"
  have n: "length (items s) = Suc n" "nat i \<le> n" using assms by (auto simp: n_def)
  define u where "u = (if n \<noteq> nat i then (case heap_down I (hSwap I s (nat i) n) (nat i) n of
    (s2, moved) \<Rightarrow> if moved then s2 else heap_up I s2 (nat i)) else s)"
  have u: "ok u \<and> frame u = frame s \<and> mset (items u) = mset (items s) \<and>
    items u ! n = items s ! nat i \<and> heap_upto (keys u) n"
  proof (cases "n = nat i")
    case True
    then show ?thesis using assms n by (auto simp: u_def intro: heap_upto_mono)
  next
    case False
    then show ?thesis
      using assms n by (intro Remove_body) (auto simp: u_def)
  qed
  have lu: "length (items u) = Suc n" using u n by (metis mset_eq_length)
  then have ne: "items u \<noteq> []" by auto
  with u lu have last: "last (items u) = items s ! nat i" by (simp add: last_conv_nth)
  have split: "items u = butlast (items u) @ [items s ! nat i]"
    using append_butlast_last_id [OF ne] last by simp
  have p: "items (hPop I u) = butlast (items u)" "frame (hPop I u) = frame s" "ok (hPop I u)"
    using pop [of u] ne u by auto
  let ?ks = "map (prio (frame s)) (butlast (items u))"
  have "keys u = ?ks @ [prio (frame s) (items s ! nat i)]"
    using u arg_cong [OF split, of "map (prio (frame s))"] by simp
  then have "heap_upto ?ks n" using u lu by (auto simp: heap_upto_append)
  then have "heap_upto (keys (hPop I u)) (length (items (hPop I u)))" using lu p by simp
  moreover have "add_mset (items s ! nat i) (mset (items (hPop I u))) = mset (items s)"
    using u p by (metis (no_types) add_mset_add_single mset.simps mset_append split)
  moreover have "heap_Remove I s i = Some (hPop I u)"
    using assms by (simp add: heap_Remove_def len u_def n_def Let_def)
  ultimately show ?thesis using p by blast
qed

lemma ordered_root: "ordered s \<Longrightarrow> a \<in> set (items s) \<Longrightarrow> prio (frame s) a \<le> prio (frame s) (items s ! 0)"
  by (auto simp: in_set_conv_nth dest!: heap_upto_root)
    (metis gr_implies_not0 gr_zeroI nth_map)

end

end
