(* ===== verification/PriorityMempool.thy ===== *)
theory PriorityMempool
  imports GoHeap Mempool
begin

text \<open>
  \<open>pkg/mempool/priority_mempool.go\<close>. The code keeps \<open>*mempoolTx\<close> pointers both in the map
  \<open>txs\<close> and in the heap, and the heap writes \<open>heapIndex\<close> through them; so the model has a store
  of objects and the map and the heap hold addresses. The definitions are over record schemes:
  the TTL pool, whose transactions and whose pool have further fields, uses the same ones.
\<close>

section \<open>Objects and state\<close>

record mempoolTx =
  mt_hash :: bytes
  mt_tx :: bytes
  mt_priority :: int
  mt_addedAt :: int
  mt_heapIndex :: int

type_synonym priorityFunc = "bytes \<Rightarrow> int"

definition DefaultPriorityFunc :: priorityFunc where
  "DefaultPriorityFunc tx = 0"

definition SizePriorityFunc :: priorityFunc where
  "SizePriorityFunc tx = (if length tx = 0 then 0 else go_div 1000000 (int (length tx)))"

text \<open>\<open>pm_next\<close> is the next free address of the object store.\<close>

record 'o priorityMempool =
  pm_objs :: "nat \<Rightarrow> 'o"
  pm_next :: nat
  pm_txs :: "(bytes, nat) fmap"
  pm_heap :: "nat list"
  pm_maxTxs :: int
  pm_maxBytes :: int
  pm_priorityFunc :: priorityFunc
  pm_validator :: "txValidator option"
  pm_sizeBytes :: int

type_synonym ('z, 'y) pool = "('z mempoolTx_scheme, 'y) priorityMempool_scheme"

section \<open>The heap of pointers\<close>

definition pm_prio :: "('z, 'y) pool \<Rightarrow> nat \<Rightarrow> int" where
  "pm_prio m a = mt_priority (pm_objs m a)"

definition set_heapIndex :: "nat \<Rightarrow> int \<Rightarrow> ('z, 'y) pool \<Rightarrow> ('z, 'y) pool" where
  "set_heapIndex a i m = m\<lparr>pm_objs := (pm_objs m)(a := (pm_objs m a)\<lparr>mt_heapIndex := i\<rparr>)\<rparr>"

definition txHeap_Less :: "('z, 'y) pool \<Rightarrow> nat \<Rightarrow> nat \<Rightarrow> bool" where
  "txHeap_Less m i j \<longleftrightarrow> pm_prio m (pm_heap m ! i) > pm_prio m (pm_heap m ! j)"

definition txHeap_Swap :: "('z, 'y) pool \<Rightarrow> nat \<Rightarrow> nat \<Rightarrow> ('z, 'y) pool" where
  "txHeap_Swap m i j =
     (let h = (pm_heap m)[i := pm_heap m ! j, j := pm_heap m ! i];
          m1 = m\<lparr>pm_heap := h\<rparr>
      in set_heapIndex (h ! j) (int j) (set_heapIndex (h ! i) (int i) m1))"

definition txHeap_Push :: "('z, 'y) pool \<Rightarrow> nat \<Rightarrow> ('z, 'y) pool" where
  "txHeap_Push m x =
     (let n = length (pm_heap m); m1 = set_heapIndex x (int n) m
      in m1\<lparr>pm_heap := pm_heap m1 @ [x]\<rparr>)"

definition txHeap_Pop :: "('z, 'y) pool \<Rightarrow> ('z, 'y) pool" where
  "txHeap_Pop m =
     (let n = length (pm_heap m); m1 = set_heapIndex (pm_heap m ! (n - 1)) (- 1) m
      in m1\<lparr>pm_heap := take (n - 1) (pm_heap m1)\<rparr>)"

definition txHeap :: "(('z, 'y) pool, nat) heap_iface" where
  "txHeap = \<lparr>hLen = (\<lambda>m. length (pm_heap m)), hLess = txHeap_Less, hSwap = txHeap_Swap,
             hPush = txHeap_Push, hPop = txHeap_Pop\<rparr>"

lemma txHeap_simps [simp]:
  "hLen txHeap m = length (pm_heap m)" "hLess txHeap = txHeap_Less" "hSwap txHeap = txHeap_Swap"
  "hPush txHeap = txHeap_Push" "hPop txHeap = txHeap_Pop"
  by (simp_all add: txHeap_def)

text \<open>What the heap does not touch: everything but the order of the heap and the indices.\<close>

definition pm_frame :: "('z, 'y) pool \<Rightarrow> ('z, 'y) pool" where
  "pm_frame m = m\<lparr>pm_heap := [], pm_objs := (\<lambda>a. (pm_objs m a)\<lparr>mt_heapIndex := 0\<rparr>)\<rparr>"

definition heap_ok :: "('z, 'y) pool \<Rightarrow> bool" where
  "heap_ok m \<longleftrightarrow> distinct (pm_heap m) \<and>
     (\<forall>i < length (pm_heap m). mt_heapIndex (pm_objs m (pm_heap m ! i)) = int i)"

lemma pm_prio_frame [simp]: "pm_prio (pm_frame m) = pm_prio m"
  by (simp add: pm_prio_def pm_frame_def fun_eq_iff)

lemma set_heapIndex_heap [simp]: "pm_heap (set_heapIndex a i m) = pm_heap m"
  by (simp add: set_heapIndex_def)

lemma set_heapIndex_frame [simp]: "pm_frame (set_heapIndex a i m) = pm_frame m"
  by (simp add: set_heapIndex_def pm_frame_def fun_eq_iff)

lemma pm_frame_heap [simp]: "pm_frame (m\<lparr>pm_heap := h\<rparr>) = pm_frame m"
  by (simp add: pm_frame_def)

lemma heapIndex_set [simp]:
  "mt_heapIndex (pm_objs (set_heapIndex a i m) b) = (if b = a then i else mt_heapIndex (pm_objs m b))"
  by (simp add: set_heapIndex_def)

lemma heapIndex_pm_heap [simp]: "pm_objs (m\<lparr>pm_heap := h\<rparr>) = pm_objs m"
  by simp

lemma txHeap_Swap_laws:
  assumes "heap_ok m" "i < length (pm_heap m)" "j < length (pm_heap m)"
  shows "pm_heap (txHeap_Swap m i j) = swap_list (pm_heap m) i j"
    and "pm_frame (txHeap_Swap m i j) = pm_frame m"
    and "heap_ok (txHeap_Swap m i j)"
proof -
  let ?h = "swap_list (pm_heap m) i j"
  have h: "(pm_heap m)[i := pm_heap m ! j, j := pm_heap m ! i] = ?h" by (simp add: swap_list_def)
  show 1: "pm_heap (txHeap_Swap m i j) = ?h" by (simp add: txHeap_Swap_def Let_def h)
  show "pm_frame (txHeap_Swap m i j) = pm_frame m" by (simp add: txHeap_Swap_def Let_def)
  have d: "distinct ?h" using assms mset_eq_imp_distinct_iff [OF mset_swap_list [OF assms(2,3)]]
    by (simp add: heap_ok_def)
  have "mt_heapIndex (pm_objs (txHeap_Swap m i j) (?h ! k)) = int k" if k: "k < length ?h" for k
  proof (cases "k = j \<or> k = i")
    case True
    then show ?thesis
      using nth_eq_iff_index_eq [OF d, of i j] assms by (auto simp: txHeap_Swap_def Let_def h)
  next
    case False
    then have "?h ! k \<noteq> ?h ! j" "?h ! k \<noteq> ?h ! i"
      using nth_eq_iff_index_eq [OF d] assms k by auto
    moreover have "?h ! k = pm_heap m ! k" using False assms k by (simp add: nth_swap_list)
    ultimately show ?thesis
      using assms k by (simp add: txHeap_Swap_def Let_def h heap_ok_def)
  qed
  with d 1 show "heap_ok (txHeap_Swap m i j)" by (simp add: heap_ok_def)
qed

lemma txHeap_Push_laws:
  assumes "heap_ok m" "x \<notin> set (pm_heap m)"
  shows "pm_heap (txHeap_Push m x) = pm_heap m @ [x] \<and> pm_frame (txHeap_Push m x) = pm_frame m \<and>
    heap_ok (txHeap_Push m x)"
  using assms by (auto simp: txHeap_Push_def Let_def heap_ok_def nth_append less_Suc_eq
      in_set_conv_nth)

lemma txHeap_Pop_laws:
  assumes "heap_ok m" "pm_heap m \<noteq> []"
  shows "pm_heap (txHeap_Pop m) = butlast (pm_heap m) \<and> pm_frame (txHeap_Pop m) = pm_frame m \<and>
    heap_ok (txHeap_Pop m)"
  using assms by (auto simp: txHeap_Pop_def Let_def heap_ok_def butlast_conv_take
      nth_eq_iff_index_eq)

interpretation txh: heap_order "txHeap :: (('z, 'y) pool, nat) heap_iface" pm_heap pm_frame pm_prio heap_ok
  by unfold_locales
    (auto simp: txHeap_Less_def txHeap_Swap_laws txHeap_Push_laws txHeap_Pop_laws)

section \<open>Operations\<close>

definition empty_tx :: mempoolTx where
  "empty_tx = \<lparr>mt_hash = [], mt_tx = [], mt_priority = 0, mt_addedAt = 0, mt_heapIndex = 0\<rparr>"

definition NewPriorityMempool ::
  "int \<Rightarrow> int \<Rightarrow> priorityFunc option \<Rightarrow> mempoolTx priorityMempool" where
  "NewPriorityMempool maxTxs maxBytes pf =
     \<lparr>pm_objs = (\<lambda>_. empty_tx), pm_next = 0, pm_txs = fmempty, pm_heap = [], pm_maxTxs = maxTxs,
      pm_maxBytes = maxBytes,
      pm_priorityFunc = (case pf of None \<Rightarrow> DefaultPriorityFunc | Some f \<Rightarrow> f),
      pm_validator = None, pm_sizeBytes = 0\<rparr>"

text \<open>The scan for the lowest priority: the first index that attains the minimum.\<close>

fun lowest_scan :: "nat \<Rightarrow> nat \<Rightarrow> int \<Rightarrow> int list \<Rightarrow> nat \<times> int" where
  "lowest_scan i lowestIdx lowestPriority [] = (lowestIdx, lowestPriority)"
| "lowest_scan i lowestIdx lowestPriority (p # ps) =
     (if p < lowestPriority then lowest_scan (Suc i) i p ps
      else lowest_scan (Suc i) lowestIdx lowestPriority ps)"

definition evictLowestLocked :: "('z, 'y) pool \<Rightarrow> int \<Rightarrow> (bool \<times> ('z, 'y) pool) option" where
  "evictLowestLocked m newPriority =
     (case map (pm_prio m) (pm_heap m) of
        [] \<Rightarrow> Some (False, m)
      | p0 # ps \<Rightarrow>
          let (lowestIdx, lowestPriority) = lowest_scan 1 0 p0 ps in
          if newPriority \<le> lowestPriority then Some (False, m)
          else
            let evicted = pm_heap m ! lowestIdx in
            (case heap_Remove txHeap m (int lowestIdx) of
               None \<Rightarrow> None
             | Some m1 \<Rightarrow>
                 let m2 = m1\<lparr>pm_txs := fmdrop (mt_hash (pm_objs m1 evicted)) (pm_txs m1)\<rparr> in
                 Some (True, m2\<lparr>pm_sizeBytes :=
                   pm_sizeBytes m2 - int (length (mt_tx (pm_objs m2 evicted)))\<rparr>)))"

lemma heap_Remove_length:
  assumes "heap_Remove txHeap m i = Some m'"
  shows "length (pm_heap m') < length (pm_heap m)"
proof -
  define n where "n = length (pm_heap m) - 1"
  have i: "0 \<le> i" "i < int (length (pm_heap m))"
    using assms by (auto simp: heap_Remove_def split: if_splits)
  let ?P = "\<lambda>s. length (pm_heap s) = length (pm_heap m)"
  have sw: "?P (txHeap_Swap s j k)" if "?P s" for s :: "('a, 'b) pool" and j k
    using that by (simp add: txHeap_Swap_def Let_def)
  let ?s = "txHeap_Swap m (nat i) n"
  have down: "?P (fst (heap_down_loop txHeap ?s (nat i) n))" if "nat i < n"
    using that by (intro heap_down_loop_pres [of n ?P]) (auto intro: sw)
  have up: "?P (heap_up txHeap (fst (heap_down_loop txHeap ?s (nat i) n)) (nat i))" if "nat i < n"
    using that down by (intro heap_up_pres [of n ?P]) (auto intro: sw)
  define u where "u = (if n \<noteq> nat i then (case heap_down txHeap ?s (nat i) n of
      (s2, moved) \<Rightarrow> if moved then s2 else heap_up txHeap s2 (nat i)) else m)"
  have "?P u" using i down up by (auto simp: u_def heap_down_def n_def split: prod.splits)
  moreover have "m' = txHeap_Pop u"
    using assms i by (auto simp: heap_Remove_def Let_def u_def n_def split: if_splits)
  ultimately show ?thesis using i by (simp add: txHeap_Pop_def Let_def)
qed

lemma evictLowestLocked_length:
  "evictLowestLocked m p = Some (True, m') \<Longrightarrow> length (pm_heap m') < length (pm_heap m)"
  by (auto simp: evictLowestLocked_def Let_def split: list.splits prod.splits if_splits option.splits
      dest: heap_Remove_length)

text \<open>The loop that evicts until the new transaction fits; the flag says whether it does.\<close>

function evict_for_bytes :: "('z, 'y) pool \<Rightarrow> int \<Rightarrow> int \<Rightarrow> (bool \<times> ('z, 'y) pool) option" where
  "evict_for_bytes m priority txSize =
     (if pm_maxBytes m > 0 \<and> pm_sizeBytes m + txSize > pm_maxBytes m then
        (case evictLowestLocked m priority of
           None \<Rightarrow> None
         | Some (b, m') \<Rightarrow> if b then evict_for_bytes m' priority txSize else Some (False, m'))
      else Some (True, m))"
  by pat_completeness auto
termination
  by (relation "measure (\<lambda>(m, p, t). length (pm_heap m))") (auto dest: evictLowestLocked_length)

declare evict_for_bytes.simps [simp del]

text \<open>\<open>mk hash tx priority\<close> is the new object; the pool with a TTL has further fields in it.\<close>

definition pool_insert ::
  "(bytes \<Rightarrow> bytes \<Rightarrow> int \<Rightarrow> 'z mempoolTx_scheme) \<Rightarrow> ('z, 'y) pool \<Rightarrow> bytes \<Rightarrow> bytes \<Rightarrow> int \<Rightarrow> ('z, 'y) pool" where
  "pool_insert mk m hash tx priority =
     (let a = pm_next m;
          m1 = m\<lparr>pm_objs := (pm_objs m)(a := mk hash tx priority), pm_next := Suc a,
                 pm_txs := fmupd hash a (pm_txs m)\<rparr>;
          m2 = heap_Push txHeap m1 a
      in m2\<lparr>pm_sizeBytes := pm_sizeBytes m2 + int (length tx)\<rparr>)"

definition pool_AddTx ::
  "(bytes \<Rightarrow> bytes) \<Rightarrow> (bytes \<Rightarrow> bytes \<Rightarrow> int \<Rightarrow> 'z mempoolTx_scheme) \<Rightarrow> ('z, 'y) pool \<Rightarrow> bytes \<Rightarrow>
   (error option \<times> ('z, 'y) pool) option" where
  "pool_AddTx HashTx mk m tx =
     (let hash = HashTx tx; txSize = int (length tx) in
      if fmlookup (pm_txs m) hash \<noteq> None then Some (Some ErrTxAlreadyExists, m)
      else
        (case effective_validator (pm_validator m) tx of
           Some err \<Rightarrow> Some (Some err, m)
         | None \<Rightarrow>
             let priority = pm_priorityFunc m tx in
             (case (if pm_maxTxs m > 0 \<and> int (map_len (pm_txs m)) \<ge> pm_maxTxs m
                    then evictLowestLocked m priority else Some (True, m)) of
                None \<Rightarrow> None
              | Some (room, m1) \<Rightarrow>
                  if \<not> room then Some (Some ErrMempoolFull, m1)
                  else
                    (case evict_for_bytes m1 priority txSize of
                       None \<Rightarrow> None
                     | Some (fits, m2) \<Rightarrow>
                         if \<not> fits then Some (Some ErrMempoolFull, m2)
                         else Some (None, pool_insert mk m2 hash tx priority)))))"

definition priority_AddTx ::
  "(bytes \<Rightarrow> bytes) \<Rightarrow> int \<Rightarrow> mempoolTx priorityMempool \<Rightarrow> slice \<Rightarrow>
   (error option \<times> mempoolTx priorityMempool) option" where
  "priority_AddTx HashTx now m t =
     (case t of
        None \<Rightarrow> Some (Some ErrInvalidTx, m)
      | Some tx \<Rightarrow>
          pool_AddTx HashTx
            (\<lambda>hash tx priority. \<lparr>mt_hash = hash, mt_tx = tx, mt_priority = priority,
               mt_addedAt = now, mt_heapIndex = 0\<rparr>) m tx)"

fun pool_RemoveTxs :: "('z, 'y) pool \<Rightarrow> bytes list \<Rightarrow> ('z, 'y) pool option" where
  "pool_RemoveTxs m [] = Some m"
| "pool_RemoveTxs m (hash # hashes) =
     (case fmlookup (pm_txs m) hash of
        None \<Rightarrow> pool_RemoveTxs m hashes
      | Some a \<Rightarrow>
          let m1 = m\<lparr>pm_sizeBytes := pm_sizeBytes m - int (length (mt_tx (pm_objs m a)))\<rparr> in
          (case heap_Remove txHeap m1 (mt_heapIndex (pm_objs m1 a)) of
             None \<Rightarrow> None
           | Some m2 \<Rightarrow> pool_RemoveTxs (m2\<lparr>pm_txs := fmdrop hash (pm_txs m2)\<rparr>) hashes))"

text \<open>The exchange sort of \<open>ReapTxs\<close>, by index as the code has it.\<close>

function sort_inner :: "(nat \<Rightarrow> int) \<Rightarrow> nat list \<Rightarrow> nat \<Rightarrow> nat \<Rightarrow> nat list" where
  "sort_inner key xs i j =
     (if j < length xs
      then sort_inner key (if key (xs ! j) > key (xs ! i) then swap_list xs i j else xs) i (Suc j)
      else xs)"
  by pat_completeness auto
termination
  by (relation "measure (\<lambda>(key, xs, i, j). length xs - j)") auto

declare sort_inner.simps [simp del]

lemma length_sort_inner [simp]: "length (sort_inner key xs i j) = length xs"
proof (induction key xs i j rule: sort_inner.induct)
  case (1 key xs i j)
  then show ?case by (subst sort_inner.simps) simp
qed

function sort_outer :: "(nat \<Rightarrow> int) \<Rightarrow> nat list \<Rightarrow> nat \<Rightarrow> nat list" where
  "sort_outer key xs i =
     (if i < length xs then sort_outer key (sort_inner key xs i (Suc i)) (Suc i) else xs)"
  by pat_completeness auto
termination
  by (relation "measure (\<lambda>(key, xs, i). length xs - i)") auto

declare sort_outer.simps [simp del]

definition priority_ReapTxs :: "('z, 'y) pool \<Rightarrow> int \<Rightarrow> bytes list" where
  "priority_ReapTxs m maxBytes =
     (let limit = (if maxBytes \<le> 0 then pm_maxBytes m else maxBytes) in
      if pm_heap m = [] then []
      else let sorted = sort_outer (pm_prio m) (pm_heap m) 0
           in take_fitting limit 0 (map (\<lambda>a. mt_tx (pm_objs m a)) sorted))"

definition priority_HasTx :: "('z, 'y) pool \<Rightarrow> bytes \<Rightarrow> bool" where
  "priority_HasTx m hash \<longleftrightarrow> fmlookup (pm_txs m) hash \<noteq> None"

definition priority_GetTx :: "('z, 'y) pool \<Rightarrow> bytes \<Rightarrow> error + bytes" where
  "priority_GetTx m hash =
     (case fmlookup (pm_txs m) hash of
        None \<Rightarrow> Inl ErrTxNotFound
      | Some a \<Rightarrow> Inr (mt_tx (pm_objs m a)))"

definition priority_Size :: "('z, 'y) pool \<Rightarrow> int" where
  "priority_Size m = int (map_len (pm_txs m))"

definition priority_SizeBytes :: "('z, 'y) pool \<Rightarrow> int" where
  "priority_SizeBytes m = pm_sizeBytes m"

definition priority_Flush :: "('z, 'y) pool \<Rightarrow> ('z, 'y) pool" where
  "priority_Flush m = m\<lparr>pm_txs := fmempty, pm_heap := [], pm_sizeBytes := 0\<rparr>"

text \<open>\<open>ks\<close> is the order in which the range over \<open>txs\<close> visits the keys.\<close>

definition priority_TxHashes :: "bytes list \<Rightarrow> ('z, 'y) pool \<Rightarrow> bytes list" where
  "priority_TxHashes ks m = map (\<lambda>k. mt_hash (pm_objs m (the (fmlookup (pm_txs m) k)))) ks"

definition priority_GetPriority :: "('z, 'y) pool \<Rightarrow> bytes \<Rightarrow> int" where
  "priority_GetPriority m hash =
     (case fmlookup (pm_txs m) hash of None \<Rightarrow> 0 | Some a \<Rightarrow> pm_prio m a)"

definition priority_HighestPriority :: "('z, 'y) pool \<Rightarrow> int" where
  "priority_HighestPriority m = (if length (pm_heap m) = 0 then 0 else pm_prio m (pm_heap m ! 0))"

definition priority_SetPriorityFunc :: "('z, 'y) pool \<Rightarrow> priorityFunc option \<Rightarrow> ('z, 'y) pool" where
  "priority_SetPriorityFunc m fn =
     m\<lparr>pm_priorityFunc := (case fn of None \<Rightarrow> DefaultPriorityFunc | Some f \<Rightarrow> f)\<rparr>"

definition priority_SetTxValidator :: "('z, 'y) pool \<Rightarrow> txValidator option \<Rightarrow> ('z, 'y) pool" where
  "priority_SetTxValidator m v = m\<lparr>pm_validator := v\<rparr>"

definition priority_mempool :: "(bytes \<Rightarrow> bytes) \<Rightarrow> mempoolTx priorityMempool mempool" where
  "priority_mempool HashTx = \<lparr>
     AddTx = priority_AddTx HashTx,
     RemoveTxs = pool_RemoveTxs,
     ReapTxs = (\<lambda>now m b. priority_ReapTxs m b),
     HasTx = (\<lambda>now m h. priority_HasTx m h),
     GetTx = (\<lambda>now m h. priority_GetTx m h),
     Size = priority_Size,
     SizeBytes = priority_SizeBytes,
     Flush = priority_Flush,
     TxHashes = priority_TxHashes,
     SetTxValidator = priority_SetTxValidator\<rparr>"

section \<open>Invariant\<close>

text \<open>
  The map and the heap hold the same addresses, every entry is under the hash of its
  transaction, and addresses in use are allocated.
\<close>

definition linked :: "(bytes \<Rightarrow> bytes) \<Rightarrow> ('z, 'y) pool \<Rightarrow> bool" where
  "linked HashTx m \<longleftrightarrow>
     (\<forall>h a. fmlookup (pm_txs m) h = Some a \<longrightarrow> a \<in> set (pm_heap m) \<and> mt_hash (pm_objs m a) = h) \<and>
     (\<forall>a \<in> set (pm_heap m). fmlookup (pm_txs m) (HashTx (mt_tx (pm_objs m a))) = Some a \<and>
        mt_hash (pm_objs m a) = HashTx (mt_tx (pm_objs m a)) \<and> a < pm_next m)"

lemma linkedI [intro]:
  assumes "\<And>h a. fmlookup (pm_txs m) h = Some a \<Longrightarrow> a \<in> set (pm_heap m) \<and> mt_hash (pm_objs m a) = h"
    and "\<And>a. a \<in> set (pm_heap m) \<Longrightarrow> fmlookup (pm_txs m) (HashTx (mt_tx (pm_objs m a))) = Some a \<and>
        mt_hash (pm_objs m a) = HashTx (mt_tx (pm_objs m a)) \<and> a < pm_next m"
  shows "linked HashTx m"
  using assms by (simp add: linked_def)

lemma linked_lookup:
  "linked HashTx m \<Longrightarrow> fmlookup (pm_txs m) h = Some a \<Longrightarrow>
   a \<in> set (pm_heap m) \<and> mt_hash (pm_objs m a) = h"
  unfolding linked_def by blast

lemma linked_heap:
  "linked HashTx m \<Longrightarrow> a \<in> set (pm_heap m) \<Longrightarrow>
   fmlookup (pm_txs m) (HashTx (mt_tx (pm_objs m a))) = Some a \<and>
   mt_hash (pm_objs m a) = HashTx (mt_tx (pm_objs m a)) \<and> a < pm_next m"
  unfolding linked_def by blast

definition pool_stored :: "('z, 'y) pool \<Rightarrow> (bytes, bytes) fmap" where
  "pool_stored m = fmmap (\<lambda>a. mt_tx (pm_objs m a)) (pm_txs m)"

definition pool_weight :: "('z, 'y) pool \<Rightarrow> int" where
  "pool_weight m = map_weight (\<lambda>tx. int (length tx)) (pool_stored m)"

definition heap_ordered :: "('z, 'y) pool \<Rightarrow> bool" where
  "heap_ordered m \<longleftrightarrow> heap_upto (map (pm_prio m) (pm_heap m)) (length (pm_heap m))"

text \<open>The contract's facts, in terms of \<open>heap_ordered\<close>.\<close>

lemma heap_Push_pool:
  assumes "heap_ok m" "heap_ordered m" "x \<notin> set (pm_heap m)"
  shows "heap_ok (heap_Push txHeap m x) \<and> heap_ordered (heap_Push txHeap m x) \<and>
    pm_frame (heap_Push txHeap m x) = pm_frame m \<and>
    mset (pm_heap (heap_Push txHeap m x)) = add_mset x (mset (pm_heap m))"
  using txh.Push_correct [of m x] assms unfolding heap_ordered_def pm_prio_frame by blast

lemma heap_Remove_pool:
  assumes "heap_ok m" "heap_ordered m" "i < length (pm_heap m)"
  shows "\<exists>t. heap_Remove txHeap m (int i) = Some t \<and> heap_ok t \<and> heap_ordered t \<and>
    pm_frame t = pm_frame m \<and> add_mset (pm_heap m ! i) (mset (pm_heap t)) = mset (pm_heap m)"
  using txh.Remove_correct [of m "int i"] assms unfolding heap_ordered_def pm_prio_frame by simp

definition shape_inv :: "(bytes \<Rightarrow> bytes) \<Rightarrow> ('z, 'y) pool \<Rightarrow> bool" where
  "shape_inv HashTx m \<longleftrightarrow> heap_ok m \<and> heap_ordered m \<and> linked HashTx m"

definition pool_inv :: "(bytes \<Rightarrow> bytes) \<Rightarrow> ('z, 'y) pool \<Rightarrow> bool" where
  "pool_inv HashTx m \<longleftrightarrow> shape_inv HashTx m \<and> pm_sizeBytes m = pool_weight m \<and>
     (pm_maxTxs m > 0 \<longrightarrow> int (map_len (pm_txs m)) \<le> pm_maxTxs m) \<and>
     (pm_maxBytes m > 0 \<longrightarrow> pm_sizeBytes m \<le> pm_maxBytes m)"

text \<open>Two pools with the same frame agree on everything but the heap.\<close>

lemma frame_agree:
  assumes "pm_frame t = pm_frame m"
  shows "pm_txs t = pm_txs m" "pm_next t = pm_next m" "pm_maxTxs t = pm_maxTxs m"
    "pm_maxBytes t = pm_maxBytes m" "pm_priorityFunc t = pm_priorityFunc m"
    "pm_validator t = pm_validator m" "pm_sizeBytes t = pm_sizeBytes m"
    "mt_hash (pm_objs t a) = mt_hash (pm_objs m a)" "mt_tx (pm_objs t a) = mt_tx (pm_objs m a)"
    "mt_priority (pm_objs t a) = mt_priority (pm_objs m a)"
    "pool_stored t = pool_stored m" "pm_prio t = pm_prio m"
proof -
  have o: "(pm_objs t a)\<lparr>mt_heapIndex := 0\<rparr> = (pm_objs m a)\<lparr>mt_heapIndex := 0\<rparr>" for a
    using arg_cong [OF assms, of pm_objs] by (simp add: pm_frame_def fun_eq_iff)
  show "mt_hash (pm_objs t a) = mt_hash (pm_objs m a)"
    using arg_cong [OF o [of a], of mt_hash] by simp
  show tx: "mt_tx (pm_objs t a) = mt_tx (pm_objs m a)" for a
    using arg_cong [OF o [of a], of mt_tx] by simp
  show p: "mt_priority (pm_objs t a) = mt_priority (pm_objs m a)" for a
    using arg_cong [OF o [of a], of mt_priority] by simp
  show "pm_prio t = pm_prio m" by (simp add: pm_prio_def p fun_eq_iff)
  show t: "pm_txs t = pm_txs m" using arg_cong [OF assms, of pm_txs] by (simp add: pm_frame_def)
  show "pm_next t = pm_next m" "pm_maxTxs t = pm_maxTxs m" "pm_maxBytes t = pm_maxBytes m"
    "pm_priorityFunc t = pm_priorityFunc m" "pm_validator t = pm_validator m"
    "pm_sizeBytes t = pm_sizeBytes m"
    using arg_cong [OF assms, of pm_next] arg_cong [OF assms, of pm_maxTxs]
      arg_cong [OF assms, of pm_maxBytes] arg_cong [OF assms, of pm_priorityFunc]
      arg_cong [OF assms, of pm_validator] arg_cong [OF assms, of pm_sizeBytes]
    by (simp_all add: pm_frame_def)
  show "pool_stored t = pool_stored m" by (simp add: pool_stored_def t tx)
qed

text \<open>What evictions leave alone: the frame without the map and the byte count.\<close>

definition pm_rest :: "('z, 'y) pool \<Rightarrow> ('z, 'y) pool" where
  "pm_rest m = pm_frame (m\<lparr>pm_txs := fmempty, pm_sizeBytes := 0\<rparr>)"

lemma pm_rest_frame: "pm_rest m = (pm_frame m)\<lparr>pm_txs := fmempty, pm_sizeBytes := 0\<rparr>"
  by (cases m) (simp add: pm_rest_def pm_frame_def)

lemma pm_rest_upd [simp]:
  "pm_rest (m\<lparr>pm_txs := t\<rparr>) = pm_rest m" "pm_rest (m\<lparr>pm_sizeBytes := z\<rparr>) = pm_rest m"
  by (simp_all add: pm_rest_def pm_frame_def)

lemma frame_rest: "pm_frame t = pm_frame m \<Longrightarrow> pm_rest t = pm_rest m"
  by (simp add: pm_rest_frame)

lemma rest_agree:
  assumes "pm_rest t = pm_rest m"
  shows "pm_next t = pm_next m" "pm_maxTxs t = pm_maxTxs m"
    "pm_maxBytes t = pm_maxBytes m" "pm_priorityFunc t = pm_priorityFunc m"
    "pm_validator t = pm_validator m"
    "mt_hash (pm_objs t a) = mt_hash (pm_objs m a)" "mt_tx (pm_objs t a) = mt_tx (pm_objs m a)"
    "pm_prio t = pm_prio m"
proof -
  let ?f = "\<lambda>m. m\<lparr>pm_txs := fmempty, pm_sizeBytes := 0\<rparr>"
  have "pm_frame (?f t) = pm_frame (?f m)"
    using assms by (simp add: pm_rest_def)
  note fr = frame_agree [OF this]
  show "pm_next t = pm_next m" "pm_maxTxs t = pm_maxTxs m"
    "pm_maxBytes t = pm_maxBytes m" "pm_priorityFunc t = pm_priorityFunc m"
    "pm_validator t = pm_validator m"
    "mt_hash (pm_objs t a) = mt_hash (pm_objs m a)" "mt_tx (pm_objs t a) = mt_tx (pm_objs m a)"
    "pm_prio t = pm_prio m"
    using fr by (simp_all add: pm_prio_def fun_eq_iff)
qed

text \<open>Fields outside the heap and the map can change freely.\<close>

lemma pm_prio_upd [simp]:
  "pm_prio (m\<lparr>pm_sizeBytes := z\<rparr>) = pm_prio m" "pm_prio (m\<lparr>pm_txs := t\<rparr>) = pm_prio m"
  "pm_prio (m\<lparr>pm_validator := v\<rparr>) = pm_prio m" "pm_prio (m\<lparr>pm_priorityFunc := f\<rparr>) = pm_prio m"
  by (simp_all add: pm_prio_def fun_eq_iff)

lemma heap_inv_upd [simp]:
  "heap_ok (m\<lparr>pm_sizeBytes := z\<rparr>) = heap_ok m" "heap_ok (m\<lparr>pm_txs := t\<rparr>) = heap_ok m"
  "heap_ordered (m\<lparr>pm_sizeBytes := z\<rparr>) = heap_ordered m"
  "heap_ordered (m\<lparr>pm_txs := t\<rparr>) = heap_ordered m"
  by (simp_all add: heap_ok_def heap_ordered_def)

lemma linked_size [simp]: "linked HashTx (m\<lparr>pm_sizeBytes := z\<rparr>) = linked HashTx m"
  by (simp add: linked_def)

lemma shape_inv_size [simp]: "shape_inv HashTx (m\<lparr>pm_sizeBytes := z\<rparr>) = shape_inv HashTx m"
  by (simp add: shape_inv_def)

lemma pool_stored_size [simp]: "pool_stored (m\<lparr>pm_sizeBytes := z\<rparr>) = pool_stored m"
  by (simp add: pool_stored_def)

text \<open>Taking the entry at a heap position out of the pool.\<close>

lemma remove_entry:
  assumes m: "shape_inv HashTx m" and i: "i < length (pm_heap m)"
    and a: "a = pm_heap m ! i" "h = mt_hash (pm_objs m a)"
  shows "\<exists>t. heap_Remove txHeap m (int i) = Some t \<and> pm_frame t = pm_frame m \<and>
    shape_inv HashTx (t\<lparr>pm_txs := fmdrop h (pm_txs t)\<rparr>) \<and>
    pool_stored (t\<lparr>pm_txs := fmdrop h (pm_txs t)\<rparr>) = fmdrop h (pool_stored m)"
proof -
  obtain t where t: "heap_Remove txHeap m (int i) = Some t" "heap_ok t" "heap_ordered t"
    "pm_frame t = pm_frame m" "add_mset a (mset (pm_heap t)) = mset (pm_heap m)"
    using heap_Remove_pool [of m i] m i a unfolding shape_inv_def by blast
  note fr = frame_agree [OF t(4)]
  have "a \<in> set (pm_heap m)" using i a by simp
  have d: "distinct (pm_heap m)" using m by (simp add: shape_inv_def heap_ok_def)
  have at: "a \<notin> set (pm_heap t)" "set (pm_heap t) = set (pm_heap m) - {a}"
    using d t(5) by (metis distinct.simps(2) mset.simps(2) mset_eq_imp_distinct_iff)
      (metis (no_types) Diff_insert_absorb d distinct.simps(2) list.set(2) mset.simps(2)
        mset_eq_imp_distinct_iff set_mset_mset set_mset_add_mset_insert t(5))
  have l: "linked HashTx m" using m by (simp add: shape_inv_def)
  have "linked HashTx (t\<lparr>pm_txs := fmdrop h (pm_txs t)\<rparr>)"
  proof
    fix k b
    assume "fmlookup (pm_txs (t\<lparr>pm_txs := fmdrop h (pm_txs t)\<rparr>)) k = Some b"
    then have k: "k \<noteq> h" "fmlookup (pm_txs m) k = Some b" by (simp_all add: fr split: if_splits)
    then show "b \<in> set (pm_heap (t\<lparr>pm_txs := fmdrop h (pm_txs t)\<rparr>)) \<and>
        mt_hash (pm_objs (t\<lparr>pm_txs := fmdrop h (pm_txs t)\<rparr>) b) = k"
      using linked_lookup [OF l k(2)] at a by (auto simp: fr)
  next
    fix b
    assume "b \<in> set (pm_heap (t\<lparr>pm_txs := fmdrop h (pm_txs t)\<rparr>))"
    then have b: "b \<in> set (pm_heap m)" "b \<noteq> a" using at by simp_all
    have "HashTx (mt_tx (pm_objs m b)) \<noteq> h"
      using linked_heap [OF l b(1)] linked_heap [OF l \<open>a \<in> set (pm_heap m)\<close>] b(2) a(2) by auto
    then show "fmlookup (pm_txs (t\<lparr>pm_txs := fmdrop h (pm_txs t)\<rparr>))
          (HashTx (mt_tx (pm_objs (t\<lparr>pm_txs := fmdrop h (pm_txs t)\<rparr>) b))) = Some b \<and>
        mt_hash (pm_objs (t\<lparr>pm_txs := fmdrop h (pm_txs t)\<rparr>) b) =
          HashTx (mt_tx (pm_objs (t\<lparr>pm_txs := fmdrop h (pm_txs t)\<rparr>) b)) \<and>
        b < pm_next (t\<lparr>pm_txs := fmdrop h (pm_txs t)\<rparr>)"
      using linked_heap [OF l b(1)] by (simp add: fr)
  qed
  then have "shape_inv HashTx (t\<lparr>pm_txs := fmdrop h (pm_txs t)\<rparr>)"
    using t by (simp add: shape_inv_def)
  moreover have "pool_stored (t\<lparr>pm_txs := fmdrop h (pm_txs t)\<rparr>) = fmdrop h (pool_stored m)"
    by (rule fmap_ext) (simp add: pool_stored_def fr)
  ultimately show ?thesis using t by blast
qed

section \<open>Eviction\<close>

lemma lowest_scan_min:
  assumes "lowest_scan i idx lp ps = (k, p)" "i = length pre" "idx < i" "pre ! idx = lp"
    "\<forall>q \<in> set pre. lp \<le> q"
  shows "k < length (pre @ ps) \<and> (pre @ ps) ! k = p \<and> (\<forall>q \<in> set (pre @ ps). p \<le> q)"
  using assms
proof (induction ps arbitrary: i idx lp pre)
  case (Cons q ps)
  show ?case
  proof (cases "q < lp")
    case True
    then have "lowest_scan (Suc i) i q ps = (k, p)" using Cons.prems by simp
    from Cons.IH [OF this, of "pre @ [q]"] True Cons.prems show ?thesis by fastforce
  next
    case False
    then have "lowest_scan (Suc i) idx lp ps = (k, p)" using Cons.prems by simp
    from Cons.IH [OF this, of "pre @ [q]"] False Cons.prems show ?thesis
      by (auto simp: nth_append)
  qed
qed auto

text \<open>What one call of \<open>evictLowestLocked\<close> does: nothing, or it takes out the entry of least
  priority, which is below the priority of the newcomer.\<close>

lemma evict_cases:
  assumes m: "shape_inv HashTx m"
  obtains (refused) "evictLowestLocked m p = Some (False, m)"
      "\<forall>a \<in> set (pm_heap m). p \<le> pm_prio m a"
  | (evicted) m' a where "evictLowestLocked m p = Some (True, m')" "a \<in> set (pm_heap m)"
    "pm_prio m a < p" "\<forall>b \<in> set (pm_heap m). pm_prio m a \<le> pm_prio m b"
    "shape_inv HashTx m'" "pool_stored m' = fmdrop (mt_hash (pm_objs m a)) (pool_stored m)"
    "pm_sizeBytes m' = pm_sizeBytes m - int (length (mt_tx (pm_objs m a)))"
    "pm_txs m' = fmdrop (mt_hash (pm_objs m a)) (pm_txs m)" "pm_rest m' = pm_rest m"
proof (cases "pm_heap m")
  case Nil
  then have "evictLowestLocked m p = Some (False, m)" by (simp add: evictLowestLocked_def)
  with Nil refused show ?thesis by simp
next
  case (Cons a0 as)
  obtain k lp where k: "lowest_scan 1 0 (pm_prio m a0) (map (pm_prio m) as) = (k, lp)" by fastforce
  have "k < length (pm_heap m) \<and> map (pm_prio m) (pm_heap m) ! k = lp \<and>
      (\<forall>q \<in> set (map (pm_prio m) (pm_heap m)). lp \<le> q)"
    using lowest_scan_min [OF k, of "[pm_prio m a0]"] Cons by simp
  then have lo: "k < length (pm_heap m)" "pm_prio m (pm_heap m ! k) = lp"
    "\<forall>b \<in> set (pm_heap m). lp \<le> pm_prio m b" by auto
  show ?thesis
  proof (cases "p \<le> lp")
    case True
    then have "evictLowestLocked m p = Some (False, m)"
      using k Cons by (simp add: evictLowestLocked_def)
    then show ?thesis using True lo by (intro refused) auto
  next
    case False
    let ?a = "pm_heap m ! k"
    obtain t where t: "heap_Remove txHeap m (int k) = Some t" "pm_frame t = pm_frame m"
      "shape_inv HashTx (t\<lparr>pm_txs := fmdrop (mt_hash (pm_objs m ?a)) (pm_txs t)\<rparr>)"
      "pool_stored (t\<lparr>pm_txs := fmdrop (mt_hash (pm_objs m ?a)) (pm_txs t)\<rparr>)
         = fmdrop (mt_hash (pm_objs m ?a)) (pool_stored m)"
      using remove_entry [OF m lo(1) refl refl] by blast
    note fr = frame_agree [OF t(2)]
    have "evictLowestLocked m p = Some (True,
        t\<lparr>pm_txs := fmdrop (mt_hash (pm_objs m ?a)) (pm_txs t),
          pm_sizeBytes := pm_sizeBytes m - int (length (mt_tx (pm_objs m ?a)))\<rparr>)"
      using k Cons t(1) False by (simp add: evictLowestLocked_def Let_def fr)
    then show ?thesis
      by (rule evicted [of _ ?a]) (use lo False t frame_rest [OF t(2)] in \<open>simp_all add: fr\<close>)
  qed
qed

text \<open>The entries under \<open>ev\<close> are gone, nothing else changed, and the byte count follows.\<close>

definition removal :: "(bytes \<Rightarrow> bytes) \<Rightarrow> bytes set \<Rightarrow> ('z, 'y) pool \<Rightarrow> ('z, 'y) pool \<Rightarrow> bool" where
  "removal HashTx ev m m' \<longleftrightarrow>
     shape_inv HashTx m' \<and> pm_rest m' = pm_rest m \<and> pm_txs m' = fmdrop_set ev (pm_txs m) \<and>
     (pm_sizeBytes m = pool_weight m \<longrightarrow> pm_sizeBytes m' = pool_weight m')"

lemma removal_trans:
  "removal HashTx ev m m' \<Longrightarrow> removal HashTx ev' m' m'' \<Longrightarrow> removal HashTx (ev \<union> ev') m m''"
  by (auto simp: removal_def intro!: fmap_ext)

lemma removal_stored:
  assumes "removal HashTx ev m m'"
  shows "pool_stored m' = fmdrop_set ev (pool_stored m)"
proof -
  have "pm_rest m' = pm_rest m" using assms by (simp add: removal_def)
  note r = rest_agree [OF this]
  show ?thesis using assms by (auto simp: removal_def pool_stored_def r intro!: fmap_ext)
qed

text \<open>
  The effect of any number of evictions for a newcomer of priority \<open>p\<close>: the entries under
  \<open>ev\<close> are gone, all of them of lower priority than \<open>p\<close> and none above what is left.
\<close>

definition evictions :: "(bytes \<Rightarrow> bytes) \<Rightarrow> int \<Rightarrow> bytes set \<Rightarrow> ('z, 'y) pool \<Rightarrow> ('z, 'y) pool \<Rightarrow> bool" where
  "evictions HashTx p ev m m' \<longleftrightarrow> removal HashTx ev m m' \<and>
     (\<forall>h \<in> ev. \<exists>a. fmlookup (pm_txs m) h = Some a \<and> pm_prio m a < p \<and>
        (\<forall>k b. fmlookup (pm_txs m') k = Some b \<longrightarrow> pm_prio m a \<le> pm_prio m b))"

lemma evictions_refl: "shape_inv HashTx m \<Longrightarrow> evictions HashTx p {} m m"
  by (simp add: evictions_def removal_def)

lemma evictions_trans:
  assumes "evictions HashTx p ev m m'" "evictions HashTx p ev' m' m''"
  shows "evictions HashTx p (ev \<union> ev') m m''"
proof -
  have r: "pm_rest m' = pm_rest m" using assms(1) by (simp add: evictions_def removal_def)
  have txs: "pm_txs m' = fmdrop_set ev (pm_txs m)" "pm_txs m'' = fmdrop_set ev' (pm_txs m')"
    using assms by (simp_all add: evictions_def removal_def)
  have "\<exists>a. fmlookup (pm_txs m) h = Some a \<and> pm_prio m a < p \<and>
      (\<forall>k b. fmlookup (pm_txs m'') k = Some b \<longrightarrow> pm_prio m a \<le> pm_prio m b)"
    if h: "h \<in> ev \<union> ev'" for h
  proof (cases "h \<in> ev")
    case True
    then obtain a where a: "fmlookup (pm_txs m) h = Some a" "pm_prio m a < p"
      "\<And>k b. fmlookup (pm_txs m') k = Some b \<Longrightarrow> pm_prio m a \<le> pm_prio m b"
      using assms(1) unfolding evictions_def by blast
    have "pm_prio m a \<le> pm_prio m b" if "fmlookup (pm_txs m'') k = Some b" for k b
      using a(3) [of k b] that by (simp add: txs(2) split: if_splits)
    with a show ?thesis by blast
  next
    case False
    then have "\<exists>a. fmlookup (pm_txs m') h = Some a \<and> pm_prio m' a < p \<and>
        (\<forall>k b. fmlookup (pm_txs m'') k = Some b \<longrightarrow> pm_prio m' a \<le> pm_prio m' b)"
      using h assms(2) unfolding evictions_def by blast
    then show ?thesis using False rest_agree(8) [OF r] by (simp add: txs(1))
  qed
  then show ?thesis using assms removal_trans unfolding evictions_def by blast
qed

lemma linked_txs_heap:
  assumes "linked HashTx m"
  shows "pm_txs m = fmempty \<longleftrightarrow> pm_heap m = []"
proof
  assume "pm_txs m = fmempty"
  then have "a \<notin> set (pm_heap m)" for a using assms by (auto simp: linked_def)
  then show "pm_heap m = []" by (metis list.set_intros(1) neq_Nil_conv)
next
  assume "pm_heap m = []"
  then have "fmlookup (pm_txs m) h = None" for h
    using assms by (cases "fmlookup (pm_txs m) h") (auto simp: linked_def)
  then show "pm_txs m = fmempty" by (intro fmap_ext) simp
qed

lemma evict_evictions:
  assumes m: "shape_inv HashTx m"
  obtains (kept) "evictLowestLocked m p = Some (False, m)" "\<forall>a \<in> set (pm_heap m). p \<le> pm_prio m a"
  | (dropped) m' h where "evictLowestLocked m p = Some (True, m')" "evictions HashTx p {h} m m'"
    "fmlookup (pm_txs m) h \<noteq> None"
  using m
proof (cases rule: evict_cases [of HashTx m p])
  case refused
  then show ?thesis by (rule kept)
next
  case (evicted m' a)
  let ?h = "mt_hash (pm_objs m a)"
  have a: "fmlookup (pm_txs m) ?h = Some a"
    using m linked_heap [of HashTx m a] evicted(2) by (simp add: shape_inv_def)
  then have s: "fmlookup (pool_stored m) ?h = Some (mt_tx (pm_objs m a))"
    by (simp add: pool_stored_def)
  have "pool_weight m' = pool_weight m - int (length (mt_tx (pm_objs m a)))"
    unfolding pool_weight_def evicted(6) using s by (rule map_weight_drop_old)
  then have "removal HashTx {?h} m m'" using evicted a by (simp add: removal_def)
  moreover have "pm_prio m a \<le> pm_prio m b" if "fmlookup (pm_txs m') k = Some b" for k b
    using that evicted(4,8) m linked_lookup [of HashTx m k b]
    by (simp add: shape_inv_def split: if_splits)
  ultimately have "evictions HashTx p {?h} m m'" using evicted(3) a by (auto simp: evictions_def)
  with evicted(1) a show ?thesis by (intro dropped) auto
qed

lemma evict_for_bytes_cases:
  "shape_inv HashTx m \<Longrightarrow> \<exists>b m' ev. evict_for_bytes m p sz = Some (b, m') \<and> evictions HashTx p ev m m' \<and>
     (if b then pm_maxBytes m > 0 \<longrightarrow> pm_sizeBytes m' + sz \<le> pm_maxBytes m
      else pm_maxBytes m > 0 \<and> pm_sizeBytes m' + sz > pm_maxBytes m \<and>
        (\<forall>a \<in> set (pm_heap m'). p \<le> pm_prio m' a))"
proof (induction m p sz rule: evict_for_bytes.induct)
  case (1 m p sz)
  show ?case
  proof (cases "pm_maxBytes m > 0 \<and> pm_sizeBytes m + sz > pm_maxBytes m")
    case False
    then have "evict_for_bytes m p sz = Some (True, m)" by (subst evict_for_bytes.simps) auto
    with False evictions_refl [OF "1.prems"] show ?thesis by fastforce
  next
    case over: True
    show ?thesis
      using "1.prems"
    proof (cases rule: evict_evictions [of HashTx m p])
      case kept
      then have "evict_for_bytes m p sz = Some (False, m)"
        using over by (subst evict_for_bytes.simps) simp
      with over kept evictions_refl [OF "1.prems"] show ?thesis by fastforce
    next
      case (dropped m' h)
      have eq: "evict_for_bytes m p sz = evict_for_bytes m' p sz"
        using over dropped by (subst evict_for_bytes.simps) simp
      have m': "shape_inv HashTx m'" "pm_rest m' = pm_rest m" using dropped by (simp_all add: evictions_def removal_def)
      obtain b m'' ev where "evict_for_bytes m' p sz = Some (b, m'')" "evictions HashTx p ev m' m''"
        and fin: "if b then pm_maxBytes m > 0 \<longrightarrow> pm_sizeBytes m'' + sz \<le> pm_maxBytes m
          else pm_maxBytes m > 0 \<and> pm_sizeBytes m'' + sz > pm_maxBytes m \<and>
            (\<forall>a \<in> set (pm_heap m''). p \<le> pm_prio m'' a)"
        using "1.IH" [OF over dropped(1) refl _ m'(1)] unfolding rest_agree(3) [OF m'(2)] by blast
      with dropped eq evictions_trans show ?thesis by (metis (no_types, lifting))
    qed
  qed
qed

section \<open>Insertion\<close>

definition makes :: "(bytes \<Rightarrow> bytes \<Rightarrow> int \<Rightarrow> 'z mempoolTx_scheme) \<Rightarrow> bool" where
  "makes mk \<longleftrightarrow> (\<forall>h tx p. mt_hash (mk h tx p) = h \<and> mt_tx (mk h tx p) = tx \<and> mt_priority (mk h tx p) = p)"

lemma pm_frame_size: "pm_frame (m\<lparr>pm_sizeBytes := z\<rparr>) = (pm_frame m)\<lparr>pm_sizeBytes := z\<rparr>"
  by (cases m) (simp add: pm_frame_def)

lemma insert_entry:
  assumes m: "shape_inv HashTx m" and mk: "makes mk" and new: "fmlookup (pm_txs m) (HashTx tx) = None"
    and m': "m' = pool_insert mk m (HashTx tx) tx p"
  shows "shape_inv HashTx m' \<and> pm_txs m' = fmupd (HashTx tx) (pm_next m) (pm_txs m) \<and>
    pool_stored m' = fmupd (HashTx tx) tx (pool_stored m) \<and>
    pm_sizeBytes m' = pm_sizeBytes m + int (length tx) \<and>
    pm_prio m' (pm_next m) = p \<and> (\<forall>a \<in> set (pm_heap m). pm_prio m' a = pm_prio m a) \<and>
    mset (pm_heap m') = add_mset (pm_next m) (mset (pm_heap m)) \<and>
    pm_maxTxs m' = pm_maxTxs m \<and> pm_maxBytes m' = pm_maxBytes m \<and> pm_validator m' = pm_validator m \<and>
    pm_frame m' = pm_frame (m\<lparr>pm_objs := (pm_objs m)(pm_next m := mk (HashTx tx) tx p),
      pm_next := Suc (pm_next m), pm_txs := fmupd (HashTx tx) (pm_next m) (pm_txs m),
      pm_sizeBytes := pm_sizeBytes m + int (length tx)\<rparr>)"
proof -
  let ?a = "pm_next m"
  define m1 where "m1 = m\<lparr>pm_objs := (pm_objs m)(?a := mk (HashTx tx) tx p), pm_next := Suc ?a,
      pm_txs := fmupd (HashTx tx) ?a (pm_txs m)\<rparr>"
  have l: "linked HashTx m" and fresh: "?a \<notin> set (pm_heap m)"
    using m by (auto simp: shape_inv_def linked_def)
  have ne: "x \<noteq> ?a" if "x \<in> set (pm_heap m)" for x using that fresh by blast
  have obj: "pm_objs m1 x = pm_objs m x" if "x \<in> set (pm_heap m)" for x
    using ne [OF that] by (simp add: m1_def)
  have h1: "pm_heap m1 = pm_heap m" by (simp add: m1_def)
  have ok1: "heap_ok m1" using m obj by (simp add: heap_ok_def shape_inv_def h1)
  have keys: "map (pm_prio m1) (pm_heap m1) = map (pm_prio m) (pm_heap m)"
    by (simp add: h1 pm_prio_def obj)
  have ord1: "heap_ordered m1" using m unfolding shape_inv_def heap_ordered_def keys by (simp add: h1)
  define m2 where "m2 = heap_Push txHeap m1 ?a"
  have "heap_ok m2 \<and> heap_ordered m2 \<and> pm_frame m2 = pm_frame m1 \<and>
      mset (pm_heap m2) = add_mset ?a (mset (pm_heap m1))"
    unfolding m2_def by (rule heap_Push_pool [OF ok1 ord1]) (simp add: fresh h1)
  then have m2: "heap_ok m2" "heap_ordered m2" "pm_frame m2 = pm_frame m1"
    "mset (pm_heap m2) = add_mset ?a (mset (pm_heap m))"
    unfolding h1 by blast+
  note fr = frame_agree [OF m2(3)]
  have set2: "set (pm_heap m2) = insert ?a (set (pm_heap m))"
    by (metis m2(4) set_mset_add_mset_insert set_mset_mset)
  have eq: "m' = m2\<lparr>pm_sizeBytes := pm_sizeBytes m2 + int (length tx)\<rparr>"
    by (simp add: m' pool_insert_def Let_def m2_def m1_def)
  have txs: "pm_txs m2 = fmupd (HashTx tx) ?a (pm_txs m)" by (simp add: fr m1_def)
  have a: "mt_hash (pm_objs m2 ?a) = HashTx tx" "mt_tx (pm_objs m2 ?a) = tx" "pm_prio m2 ?a = p"
    using mk by (simp_all add: fr) (simp_all add: m1_def makes_def pm_prio_def)
  have nx: "pm_next m2 = Suc ?a" by (simp add: fr m1_def)
  have old: "mt_hash (pm_objs m2 x) = mt_hash (pm_objs m x)" "mt_tx (pm_objs m2 x) = mt_tx (pm_objs m x)"
    if "x \<in> set (pm_heap m)" for x using obj [OF that] by (simp_all add: fr)
  have "linked HashTx m2"
  proof
    fix h b
    assume "fmlookup (pm_txs m2) h = Some b"
    then show "b \<in> set (pm_heap m2) \<and> mt_hash (pm_objs m2 b) = h"
      using linked_lookup [OF l, of h b] a old by (auto simp: txs set2 split: if_splits)
  next
    fix b
    assume "b \<in> set (pm_heap m2)"
    then consider "b = ?a" | "b \<in> set (pm_heap m)" by (auto simp: set2)
    then show "fmlookup (pm_txs m2) (HashTx (mt_tx (pm_objs m2 b))) = Some b \<and>
        mt_hash (pm_objs m2 b) = HashTx (mt_tx (pm_objs m2 b)) \<and> b < pm_next m2"
    proof cases
      case 2
      have "mt_hash (pm_objs m b) \<noteq> HashTx tx" using linked_heap [OF l 2] new by auto
      then show ?thesis using linked_heap [OF l 2] old [OF 2] by (simp add: txs nx)
    qed (simp add: a txs nx)
  qed
  then have "shape_inv HashTx m'" using m2 by (simp add: shape_inv_def eq)
  moreover have "pool_stored m' = fmupd (HashTx tx) tx (pool_stored m)"
  proof (rule fmap_ext)
    fix h
    show "fmlookup (pool_stored m') h = fmlookup (fmupd (HashTx tx) tx (pool_stored m)) h"
      using linked_lookup [OF l, of h] old a(2)
      by (cases "fmlookup (pm_txs m) h") (auto simp: eq pool_stored_def txs)
  qed
  moreover have "pm_prio m2 x = pm_prio m x" if "x \<in> set (pm_heap m)" for x
    using obj [OF that] fr(12) by (simp add: pm_prio_def)
  moreover have "pm_frame m' = pm_frame (m1\<lparr>pm_sizeBytes := pm_sizeBytes m + int (length tx)\<rparr>)"
    by (simp only: eq pm_frame_size m2(3) fr(7)) (simp add: m1_def)
  ultimately show ?thesis
    using a m2(4) txs by (simp add: eq fr) (simp add: m1_def)
qed

section \<open>AddTx and RemoveTxs\<close>

lemma pool_inv_removal:
  assumes "pool_inv HashTx m" "removal HashTx ev m m'"
  shows "pool_inv HashTx m'"
proof -
  have "pm_rest m' = pm_rest m" using assms(2) by (simp add: removal_def)
  note r = rest_agree [OF this]
  have "pool_weight m' \<le> pool_weight m"
    unfolding pool_weight_def removal_stored [OF assms(2)] by (rule fmdrop_set_weight_le) simp
  moreover have "map_len (pm_txs m') \<le> map_len (pm_txs m)"
    using assms(2) fmdrop_set_len_le by (simp add: removal_def)
  ultimately show ?thesis
    using assms by (auto simp: pool_inv_def removal_def r)
qed

lemma pool_inv_insert:
  assumes "pool_inv HashTx m" "makes mk" "fmlookup (pm_txs m) (HashTx tx) = None"
    "pm_maxTxs m > 0 \<longrightarrow> int (map_len (pm_txs m)) < pm_maxTxs m"
    "pm_maxBytes m > 0 \<longrightarrow> pm_sizeBytes m + int (length tx) \<le> pm_maxBytes m"
  shows "pool_inv HashTx (pool_insert mk m (HashTx tx) tx p)"
proof -
  have m: "shape_inv HashTx m" using assms(1) by (simp add: pool_inv_def)
  note i = insert_entry [OF m assms(2,3) refl, of p]
  have "fmlookup (pool_stored m) (HashTx tx) = None" using assms(3) by (simp add: pool_stored_def)
  then have w: "pool_weight (pool_insert mk m (HashTx tx) tx p) = pool_weight m + int (length tx)"
    using i by (simp add: pool_weight_def weight_simps)
  have "map_len (pm_txs (pool_insert mk m (HashTx tx) tx p)) = Suc (map_len (pm_txs m))"
    using i assms(3) by (simp add: map_len_simps)
  then show ?thesis
    using i w assms by (auto simp: pool_inv_def)
qed

text \<open>The two phases of making room: for one more transaction, then for its bytes.\<close>

lemma room_for_tx:
  assumes m: "pool_inv HashTx m"
    and r: "r = (if pm_maxTxs m > 0 \<and> int (map_len (pm_txs m)) \<ge> pm_maxTxs m
                 then evictLowestLocked m p else Some (True, m))"
  obtains (full) "r = Some (False, m)"
  | (room) m1 ev where "r = Some (True, m1)" "evictions HashTx p ev m m1"
      "pm_maxTxs m > 0 \<longrightarrow> int (map_len (pm_txs m1)) < pm_maxTxs m"
proof -
  have sh: "shape_inv HashTx m" using m by (simp add: pool_inv_def)
  show ?thesis
  proof (cases "pm_maxTxs m > 0 \<and> int (map_len (pm_txs m)) \<ge> pm_maxTxs m")
    case True
    have lim: "int (map_len (pm_txs m)) \<le> pm_maxTxs m" using m True by (simp add: pool_inv_def)
    from sh show ?thesis
    proof (cases rule: evict_evictions [of HashTx m p])
      case kept
      then show ?thesis using True r by (intro full) simp
    next
      case (dropped m1 h)
      then obtain a where a: "fmlookup (pm_txs m) h = Some a" by auto
      have "pm_txs m1 = fmdrop h (pm_txs m)" using dropped(2) by (simp add: evictions_def removal_def)
      then have "int (map_len (pm_txs m1)) < pm_maxTxs m"
        using map_len_drop_old [OF a] map_len_pos [OF a] lim by simp
      then show ?thesis using dropped True r by (intro room [of m1 "{h}"]) simp_all
    qed
  next
    case False
    then show ?thesis using evictions_refl [OF sh] r by (intro room [of m "{}"]) auto
  qed
qed

lemma room_for_bytes:
  assumes "evictions HashTx p ev m m1"
  obtains (full) m2 ev' where "evict_for_bytes m1 p sz = Some (False, m2)" "evictions HashTx p ev' m m2"
  | (room) m2 ev' where "evict_for_bytes m1 p sz = Some (True, m2)" "evictions HashTx p ev' m m2"
      "map_len (pm_txs m2) \<le> map_len (pm_txs m1)"
      "pm_maxBytes m > 0 \<longrightarrow> pm_sizeBytes m2 + sz \<le> pm_maxBytes m"
proof -
  have sh: "shape_inv HashTx m1" and re: "pm_rest m1 = pm_rest m"
    using assms by (simp_all add: evictions_def removal_def)
  obtain b m2 ev2 where b: "evict_for_bytes m1 p sz = Some (b, m2)" "evictions HashTx p ev2 m1 m2"
    "if b then pm_maxBytes m > 0 \<longrightarrow> pm_sizeBytes m2 + sz \<le> pm_maxBytes m
     else pm_maxBytes m > 0 \<and> pm_sizeBytes m2 + sz > pm_maxBytes m \<and>
        (\<forall>a \<in> set (pm_heap m2). p \<le> pm_prio m2 a)"
    using evict_for_bytes_cases [OF sh, of p sz] unfolding rest_agree(3) [OF re] by blast
  note ev = evictions_trans [OF assms b(2)]
  show ?thesis
  proof (cases b)
    case True
    moreover have "map_len (pm_txs m2) \<le> map_len (pm_txs m1)"
      using b(2) fmdrop_set_len_le [of ev2 "pm_txs m1"] by (simp add: evictions_def removal_def)
    ultimately show ?thesis using b ev by (intro room) auto
  next
    case False
    then show ?thesis using b ev by (intro full) auto
  qed
qed

lemma pool_AddTx_cases:
  assumes m: "pool_inv HashTx m"
  obtains (failed) e m' ev where "pool_AddTx HashTx mk m tx = Some (Some e, m')"
      "evictions HashTx (pm_priorityFunc m tx) ev m m'"
  | (added) m1 ev where
      "pool_AddTx HashTx mk m tx = Some (None, pool_insert mk m1 (HashTx tx) tx (pm_priorityFunc m tx))"
      "evictions HashTx (pm_priorityFunc m tx) ev m m1"
      "fmlookup (pm_txs m) (HashTx tx) = None" "effective_validator (pm_validator m) tx = None"
      "pm_maxTxs m > 0 \<longrightarrow> int (map_len (pm_txs m1)) < pm_maxTxs m"
      "pm_maxBytes m > 0 \<longrightarrow> pm_sizeBytes m1 + int (length tx) \<le> pm_maxBytes m"
proof (cases "fmlookup (pm_txs m) (HashTx tx) \<noteq> None \<or> effective_validator (pm_validator m) tx \<noteq> None")
  case True
  then obtain e where "pool_AddTx HashTx mk m tx = Some (Some e, m)"
    by (cases "fmlookup (pm_txs m) (HashTx tx)") (auto simp: pool_AddTx_def Let_def)
  then show ?thesis
    by (rule failed) (rule evictions_refl, use m in \<open>simp add: pool_inv_def\<close>)
next
  case False
  then have new: "fmlookup (pm_txs m) (HashTx tx) = None" "effective_validator (pm_validator m) tx = None"
    by auto
  let ?p = "pm_priorityFunc m tx" and ?sz = "int (length tx)"
  define r where "r = (if pm_maxTxs m > 0 \<and> int (map_len (pm_txs m)) \<ge> pm_maxTxs m
    then evictLowestLocked m ?p else Some (True, m))"
  have eq: "pool_AddTx HashTx mk m tx =
    (case r of
       None \<Rightarrow> None
     | Some (room, m1) \<Rightarrow>
         if \<not> room then Some (Some ErrMempoolFull, m1)
         else (case evict_for_bytes m1 ?p ?sz of
                 None \<Rightarrow> None
               | Some (fits, m2) \<Rightarrow>
                   if \<not> fits then Some (Some ErrMempoolFull, m2)
                   else Some (None, pool_insert mk m2 (HashTx tx) tx ?p)))"
    using new by (simp add: pool_AddTx_def Let_def r_def)
  from m r_def show ?thesis
  proof (cases rule: room_for_tx)
    case full
    then have "pool_AddTx HashTx mk m tx = Some (Some ErrMempoolFull, m)" by (simp add: eq)
    then show ?thesis
      by (rule failed) (rule evictions_refl, use m in \<open>simp add: pool_inv_def\<close>)
  next
    case (room m1 ev)
    note r1 = room
    from r1(2) show ?thesis
    proof (cases rule: room_for_bytes [of HashTx ?p ev m m1 ?sz])
      case (full m2 ev')
      then have "pool_AddTx HashTx mk m tx = Some (Some ErrMempoolFull, m2)" using r1 by (simp add: eq)
      then show ?thesis using full(2) by (rule failed)
    next
      case (room m2 ev')
      then have "pool_AddTx HashTx mk m tx = Some (None, pool_insert mk m2 (HashTx tx) tx ?p)"
        using r1 by (simp add: eq)
      then show ?thesis
        by (rule added [OF _ room(2) new]) (use room r1 in linarith)+
    qed
  qed
qed

lemma shape_heapIndex:
  assumes m: "shape_inv HashTx m" and a: "fmlookup (pm_txs m) h = Some a"
  obtains i where "i < length (pm_heap m)" "pm_heap m ! i = a" "mt_heapIndex (pm_objs m a) = int i"
    "mt_hash (pm_objs m a) = h"
proof -
  have "a \<in> set (pm_heap m)" and h: "mt_hash (pm_objs m a) = h"
    using m linked_lookup [of HashTx m h a] a by (simp_all add: shape_inv_def)
  then obtain i where i: "i < length (pm_heap m)" "pm_heap m ! i = a"
    by (auto simp: in_set_conv_nth)
  then have "mt_heapIndex (pm_objs m a) = int i" using m by (auto simp: shape_inv_def heap_ok_def)
  then show ?thesis using i h that by blast
qed

lemma pool_RemoveTxs_removal:
  "shape_inv HashTx m \<Longrightarrow> \<exists>m'. pool_RemoveTxs m hs = Some m' \<and> removal HashTx (set hs) m m'"
proof (induction hs arbitrary: m)
  case Nil
  then show ?case by (simp add: removal_def)
next
  case (Cons h hs)
  show ?case
  proof (cases "fmlookup (pm_txs m) h")
    case None
    then have "fmdrop_set (insert h (set hs)) (pm_txs m) = fmdrop_set (set hs) (pm_txs m)"
      by (intro fmap_ext) auto
    then show ?thesis using None Cons by (auto simp: removal_def)
  next
    case (Some a)
    let ?m1 = "m\<lparr>pm_sizeBytes := pm_sizeBytes m - int (length (mt_tx (pm_objs m a)))\<rparr>"
    from Cons.prems Some obtain i where i: "i < length (pm_heap m)" "pm_heap m ! i = a"
      "mt_heapIndex (pm_objs m a) = int i" "mt_hash (pm_objs m a) = h" by (rule shape_heapIndex)
    have m1: "shape_inv HashTx ?m1" "i < length (pm_heap ?m1)" using Cons.prems i by simp_all
    obtain t where t: "heap_Remove txHeap ?m1 (int i) = Some t" "pm_frame t = pm_frame ?m1"
      "shape_inv HashTx (t\<lparr>pm_txs := fmdrop h (pm_txs t)\<rparr>)"
      "pool_stored (t\<lparr>pm_txs := fmdrop h (pm_txs t)\<rparr>) = fmdrop h (pool_stored ?m1)"
      using remove_entry [OF m1, of a h] i by auto
    let ?t = "t\<lparr>pm_txs := fmdrop h (pm_txs t)\<rparr>"
    have s: "fmlookup (pool_stored m) h = Some (mt_tx (pm_objs m a))"
      using Some by (simp add: pool_stored_def)
    have w: "pool_weight ?t = pool_weight m - int (length (mt_tx (pm_objs m a)))"
      unfolding pool_weight_def t(4) pool_stored_size using s by (rule map_weight_drop_old)
    have "removal HashTx {h} m ?t"
      using t(3) w frame_agree(1,7) [OF t(2)] frame_rest [OF t(2)] by (simp add: removal_def)
    moreover obtain m' where m': "pool_RemoveTxs ?t hs = Some m'" "removal HashTx (set hs) ?t m'"
      using Cons.IH [OF t(3)] by blast
    ultimately have "removal HashTx (set (h # hs)) m m'"
      using removal_trans [of HashTx "{h}" m ?t "set hs" m'] by simp
    moreover have "pool_RemoveTxs m (h # hs) = Some m'" using Some i(3) t(1) m'(1) by (simp add: Let_def)
    ultimately show ?thesis by blast
  qed
qed

section \<open>The exchange sort\<close>

lemma set_drop_nth: "x \<in> set (drop i xs) \<longleftrightarrow> (\<exists>c. i \<le> c \<and> c < length xs \<and> x = xs ! c)"
proof
  assume "x \<in> set (drop i xs)"
  then obtain j where "j < length (drop i xs)" "x = drop i xs ! j" by (auto simp: in_set_conv_nth)
  then show "\<exists>c. i \<le> c \<and> c < length xs \<and> x = xs ! c" by (intro exI [of _ "i + j"]) auto
next
  assume "\<exists>c. i \<le> c \<and> c < length xs \<and> x = xs ! c"
  then obtain c where "i \<le> c" "c < length xs" "x = xs ! c" by blast
  then show "x \<in> set (drop i xs)" unfolding in_set_conv_nth by (intro exI [of _ "c - i"]) auto
qed

lemma sort_inner_spec:
  "i < j \<Longrightarrow> j \<le> length xs \<Longrightarrow> \<forall>k. i < k \<and> k < j \<longrightarrow> key (xs ! k) \<le> key (xs ! i) \<Longrightarrow>
   mset (sort_inner key xs i j) = mset xs \<and> take i (sort_inner key xs i j) = take i xs \<and>
   (\<forall>k. i < k \<and> k < length xs \<longrightarrow> key (sort_inner key xs i j ! k) \<le> key (sort_inner key xs i j ! i))"
proof (induction key xs i j rule: sort_inner.induct)
  case (1 key xs i j)
  show ?case
  proof (cases "j < length xs")
    case False
    then show ?thesis using "1.prems" by (subst (1 2 3 4) sort_inner.simps) auto
  next
    case True
    let ?ys = "if key (xs ! j) > key (xs ! i) then swap_list xs i j else xs"
    have ij: "i < length xs" using "1.prems" True by simp
    have "\<forall>k. i < k \<and> k < Suc j \<longrightarrow> key (?ys ! k) \<le> key (?ys ! i)"
    proof (intro allI impI)
      fix k
      assume k: "i < k \<and> k < Suc j"
      then have "k = j \<or> key (xs ! k) \<le> key (xs ! i)" using "1.prems"(3) less_Suc_eq by blast
      with k show "key (?ys ! k) \<le> key (?ys ! i)"
        using True ij by (auto simp: nth_swap_list)
    qed
    then have IH: "mset (sort_inner key ?ys i (Suc j)) = mset ?ys \<and>
        take i (sort_inner key ?ys i (Suc j)) = take i ?ys \<and>
        (\<forall>k. i < k \<and> k < length ?ys \<longrightarrow>
          key (sort_inner key ?ys i (Suc j) ! k) \<le> key (sort_inner key ?ys i (Suc j) ! i))"
      using "1.prems" True by (intro "1.IH") auto
    have "sort_inner key xs i j = sort_inner key ?ys i (Suc j)"
      using True by (subst sort_inner.simps) simp
    moreover have "mset ?ys = mset xs" "length ?ys = length xs" using True ij by simp_all
    moreover have "take i ?ys = take i xs" using "1.prems" by (simp add: swap_list_def)
    ultimately show ?thesis using IH by simp
  qed
qed

lemma sort_outer_spec:
  "i \<le> length xs \<Longrightarrow> \<forall>a b. a < i \<and> a < b \<and> b < length xs \<longrightarrow> key (xs ! b) \<le> key (xs ! a) \<Longrightarrow>
   mset (sort_outer key xs i) = mset xs \<and> sorted_wrt (\<lambda>x y. key y \<le> key x) (sort_outer key xs i)"
proof (induction key xs i rule: sort_outer.induct)
  case (1 key xs i)
  show ?case
  proof (cases "i < length xs")
    case False
    then show ?thesis using "1.prems" by (subst (1 2) sort_outer.simps) (auto simp: sorted_wrt_iff_nth_less)
  next
    case True
    define ys where "ys = sort_inner key xs i (Suc i)"
    have ys: "mset ys = mset xs" "take i ys = take i xs"
      "\<forall>k. i < k \<and> k < length xs \<longrightarrow> key (ys ! k) \<le> key (ys ! i)"
      using sort_inner_spec [of i "Suc i" xs key] True by (simp_all add: ys_def)
    have len: "length ys = length xs" by (simp add: ys_def)
    have "mset (drop i ys) = mset (drop i xs)"
      using ys(1,2) by (metis add_left_cancel append_take_drop_id mset_append)
    then have dr: "set (drop i ys) = set (drop i xs)" by (metis set_mset_mset)
    have "key (ys ! b) \<le> key (ys ! a)" if ab: "a < Suc i" "a < b" "b < length ys" for a b
    proof (cases "a = i")
      case False
      then have a: "a < i" using ab by simp
      then have ya: "ys ! a = xs ! a" using ys(2) by (metis nth_take)
      show ?thesis
      proof (cases "b < i")
        case True
        then have "ys ! b = xs ! b" using ys(2) by (metis nth_take)
        then show ?thesis using "1.prems"(2) ab a ya len by auto
      next
        case False
        then have "ys ! b \<in> set (drop i ys)" using ab len by (auto simp: set_drop_nth intro!: exI [of _ b])
        then obtain c where "i \<le> c" "c < length xs" "ys ! b = xs ! c"
          unfolding dr by (auto simp: set_drop_nth)
        then show ?thesis using "1.prems"(2) a ya by auto
      qed
    qed (use ys(3) ab len in auto)
    then have "mset (sort_outer key ys (Suc i)) = mset ys \<and>
        sorted_wrt (\<lambda>x y. key y \<le> key x) (sort_outer key ys (Suc i))"
      using True len by (intro "1.IH" [folded ys_def]) auto
    moreover have "sort_outer key xs i = sort_outer key ys (Suc i)"
      using True by (subst sort_outer.simps) (simp add: ys_def)
    ultimately show ?thesis using ys(1) by simp
  qed
qed

lemma sort_outer_correct:
  "mset (sort_outer key xs 0) = mset xs" "sorted_wrt (\<lambda>x y. key y \<le> key x) (sort_outer key xs 0)"
  using sort_outer_spec [of 0 xs key] by simp_all

section \<open>The contract\<close>

lemma pool_stored_lookup: "fmlookup (pool_stored m) h = map_option (\<lambda>a. mt_tx (pm_objs m a)) (fmlookup (pm_txs m) h)"
  by (simp add: pool_stored_def)

lemma heap_entry_stored:
  assumes "shape_inv HashTx m" "a \<in> set (pm_heap m)"
  shows "fmlookup (pool_stored m) (mt_hash (pm_objs m a)) = Some (mt_tx (pm_objs m a))"
  using linked_heap [of HashTx m a] assms by (simp add: shape_inv_def pool_stored_lookup)

lemma pool_keyed:
  assumes "pool_inv HashTx m" "fmlookup (pool_stored m) h = Some tx"
  shows "h = HashTx tx"
proof -
  obtain a where a: "fmlookup (pm_txs m) h = Some a" "tx = mt_tx (pm_objs m a)"
    using assms(2) by (auto simp: pool_stored_lookup)
  then show ?thesis
    using linked_lookup [of HashTx m h a] linked_heap [of HashTx m a] assms(1)
    by (auto simp: pool_inv_def shape_inv_def)
qed

lemma pool_hashes:
  assumes "pool_inv HashTx m" "enumerates ks (pool_stored m)"
  shows "priority_TxHashes ks m = ks"
proof -
  have "mt_hash (pm_objs m (the (fmlookup (pm_txs m) k))) = k" if k: "k \<in> set ks" for k
  proof -
    obtain a where "fmlookup (pm_txs m) k = Some a"
      using k enumerates_lookup [OF assms(2), of k] by (auto simp: pool_stored_lookup)
    then show ?thesis
      using linked_lookup [of HashTx m k a] assms(1) by (simp add: pool_inv_def shape_inv_def)
  qed
  then show ?thesis by (simp add: priority_TxHashes_def map_idI)
qed

lemma pool_inv_Flush: "pool_inv HashTx m \<Longrightarrow> pool_inv HashTx (priority_Flush m) \<and> pool_stored (priority_Flush m) = fmempty"
  by (auto simp: pool_inv_def shape_inv_def priority_Flush_def heap_ok_def heap_ordered_def
      heap_upto_def linked_def pool_weight_def pool_stored_def)

lemma pool_inv_SetTxValidator:
  "pool_inv HashTx (priority_SetTxValidator m v) = pool_inv HashTx m \<and>
   pool_stored (priority_SetTxValidator m v) = pool_stored m"
  by (simp add: pool_inv_def shape_inv_def priority_SetTxValidator_def heap_ok_def heap_ordered_def
      linked_def pool_weight_def pool_stored_def)

lemma priority_ReapTxs_eq:
  "\<exists>as. mset as = mset (pm_heap m) \<and> sorted_wrt (\<lambda>x y. pm_prio m y \<le> pm_prio m x) as \<and>
     priority_ReapTxs m b =
       take_fitting (if b \<le> 0 then pm_maxBytes m else b) 0 (map (\<lambda>a. mt_tx (pm_objs m a)) as)"
proof (cases "pm_heap m = []")
  case True
  then show ?thesis by (intro exI [of _ "[]"]) (simp add: priority_ReapTxs_def)
next
  case False
  then show ?thesis
    using sort_outer_correct [of "pm_prio m" "pm_heap m"]
    by (intro exI [of _ "sort_outer (pm_prio m) (pm_heap m) 0"]) (simp add: priority_ReapTxs_def)
qed

lemma priority_ReapTxs_stored:
  assumes "shape_inv HashTx m" "tx \<in> set (priority_ReapTxs m b)"
  shows "\<exists>h. fmlookup (pool_stored m) h = Some tx"
proof -
  obtain as where as: "mset as = mset (pm_heap m)" "priority_ReapTxs m b =
      take_fitting (if b \<le> 0 then pm_maxBytes m else b) 0 (map (\<lambda>a. mt_tx (pm_objs m a)) as)"
    using priority_ReapTxs_eq by blast
  then have "tx \<in> set (map (\<lambda>a. mt_tx (pm_objs m a)) as)"
    using assms(2) take_fitting_subset by fastforce
  then obtain a where "a \<in> set (pm_heap m)" "tx = mt_tx (pm_objs m a)"
    using mset_eq_setD [OF as(1)] by auto
  then show ?thesis using heap_entry_stored [OF assms(1)] by blast
qed

text \<open>What the contract asks of \<open>AddTx\<close>, for any way of making the object.\<close>

lemma pool_AddTx_contract:
  assumes m: "pool_inv HashTx m" and mk: "makes mk"
    and r: "pool_AddTx HashTx mk m tx = Some (e, m')"
  shows "pool_inv HashTx m'" "pm_validator m' = pm_validator m"
    and "e = None \<Longrightarrow> effective_validator (pm_validator m) tx = None \<and>
      fmlookup (pool_stored m) (HashTx tx) = None \<and>
      (\<exists>ev. pool_stored m' = fmupd (HashTx tx) tx (fmdrop_set ev (pool_stored m)))"
    and "e \<noteq> None \<Longrightarrow> \<exists>ev. pool_stored m' = fmdrop_set ev (pool_stored m)"
proof -
  have "pool_inv HashTx m' \<and> pm_validator m' = pm_validator m \<and>
    (e = None \<longrightarrow> effective_validator (pm_validator m) tx = None \<and>
      fmlookup (pool_stored m) (HashTx tx) = None \<and>
      (\<exists>ev. pool_stored m' = fmupd (HashTx tx) tx (fmdrop_set ev (pool_stored m)))) \<and>
    (e \<noteq> None \<longrightarrow> (\<exists>ev. pool_stored m' = fmdrop_set ev (pool_stored m)))"
    using m
  proof (cases rule: pool_AddTx_cases [of HashTx m mk tx])
    case (failed err n ev)
    then have rem: "removal HashTx ev m m'" and e: "e = Some err" using r by (simp_all add: evictions_def)
    have "pm_rest m' = pm_rest m" using rem by (simp add: removal_def)
    then show ?thesis
      using e pool_inv_removal [OF m rem] removal_stored [OF rem] rest_agree(5) by blast
  next
    case (added m1 ev)
    let ?p = "pm_priorityFunc m tx"
    have rem: "removal HashTx ev m m1" using added by (simp add: evictions_def)
    have re: "pm_rest m1 = pm_rest m" and sh: "shape_inv HashTx m1" using rem by (simp_all add: removal_def)
    have m': "m' = pool_insert mk m1 (HashTx tx) tx ?p" and e: "e = None" using added(1) r by simp_all
    have new: "fmlookup (pm_txs m1) (HashTx tx) = None"
      using added(3) rem by (simp add: removal_def)
    note i = insert_entry [OF sh mk new m']
    have "pool_inv HashTx m'"
      unfolding m' using pool_inv_removal [OF m rem] mk new added(5,6) rest_agree(2,3) [OF re]
      by (intro pool_inv_insert) simp_all
    moreover have "fmlookup (pool_stored m) (HashTx tx) = None"
      using added(3) by (simp add: pool_stored_lookup)
    moreover have "pool_stored m' = fmupd (HashTx tx) tx (fmdrop_set ev (pool_stored m))"
      using i removal_stored [OF rem] by simp
    ultimately show ?thesis using i e added(4) rest_agree(5) [OF re] by auto
  qed
  then show "pool_inv HashTx m'" "pm_validator m' = pm_validator m"
    "e = None \<Longrightarrow> effective_validator (pm_validator m) tx = None \<and>
      fmlookup (pool_stored m) (HashTx tx) = None \<and>
      (\<exists>ev. pool_stored m' = fmupd (HashTx tx) tx (fmdrop_set ev (pool_stored m)))"
    "e \<noteq> None \<Longrightarrow> \<exists>ev. pool_stored m' = fmdrop_set ev (pool_stored m)"
    by blast+
qed

lemma priority_makes: "makes (\<lambda>hash tx priority. \<lparr>mt_hash = hash, mt_tx = tx,
    mt_priority = priority, mt_addedAt = now, mt_heapIndex = 0\<rparr>)"
  by (simp add: makes_def)

lemma priority_AddTx_contract:
  assumes m: "pool_inv HashTx m" and r: "priority_AddTx HashTx now m t = Some (e, m')"
  shows "pool_inv HashTx m' \<and> pm_validator m' = pm_validator m \<and>
    (e = None \<longrightarrow> (\<exists>tx ev. t = Some tx \<and> effective_validator (pm_validator m) tx = None \<and>
      fmlookup (pool_stored m) (HashTx tx) = None \<and>
      pool_stored m' = fmupd (HashTx tx) tx (fmdrop_set ev (pool_stored m)))) \<and>
    (e \<noteq> None \<longrightarrow> (\<exists>ev. pool_stored m' = fmdrop_set ev (pool_stored m)))"
proof (cases t)
  case None
  then have "e = Some ErrInvalidTx" "m' = m" using r by (simp_all add: priority_AddTx_def)
  then show ?thesis using m by (metis fmdrop_set_null option.distinct(1))
next
  case (Some tx)
  then have "pool_AddTx HashTx (\<lambda>hash tx priority. \<lparr>mt_hash = hash, mt_tx = tx,
    mt_priority = priority, mt_addedAt = now, mt_heapIndex = 0\<rparr>) m tx = Some (e, m')"
    using r by (simp add: priority_AddTx_def)
  note c = pool_AddTx_contract [OF m priority_makes this]
  show ?thesis using c Some by blast
qed

lemma pool_AddTx_total: "pool_inv HashTx m \<Longrightarrow> pool_AddTx HashTx mk m tx \<noteq> None"
  by (cases rule: pool_AddTx_cases [of HashTx m mk tx]) simp_all

lemma priority_AddTx_total: "pool_inv HashTx m \<Longrightarrow> priority_AddTx HashTx now m t \<noteq> None"
  by (cases t) (simp_all add: priority_AddTx_def pool_AddTx_total)

lemma pool_RemoveTxs_contract:
  assumes "pool_inv HashTx m" "pool_RemoveTxs m hs = Some m'"
  shows "pool_inv HashTx m' \<and> pool_stored m' = fmdrop_set (set hs) (pool_stored m) \<and>
    pm_validator m' = pm_validator m"
proof -
  have rem: "removal HashTx (set hs) m m'"
    using pool_RemoveTxs_removal [of HashTx m hs] assms by (auto simp: pool_inv_def)
  have "pm_rest m' = pm_rest m" using rem by (simp add: removal_def)
  then show ?thesis
    using pool_inv_removal [OF assms(1) rem] removal_stored [OF rem] rest_agree(5) by blast
qed

lemma pool_RemoveTxs_total: "pool_inv HashTx m \<Longrightarrow> pool_RemoveTxs m hs \<noteq> None"
  using pool_RemoveTxs_removal [of HashTx m hs] by (auto simp: pool_inv_def)

lemma priority_ReapTxs_bound: "0 < b \<Longrightarrow> total_len (priority_ReapTxs m b) \<le> b"
  using priority_ReapTxs_eq [of m b] take_fitting_bound [of b 0] by auto

interpretation priority: mempool_contract "priority_mempool HashTx" HashTx "pool_inv HashTx"
  pool_stored "\<lambda>_ _ _. True" "\<lambda>m tx. effective_validator (pm_validator m) tx = None"
  for HashTx
proof (unfold_locales, goal_cases)
  case (1 m now t)
  then show ?case using priority_AddTx_total by (simp add: priority_mempool_def)
next
  case (2 m now t e m')
  then show ?case using priority_AddTx_contract [of HashTx m now t e m'] by (simp add: priority_mempool_def)
next
  case (3 m now t e m' tx)
  then show ?case using priority_AddTx_contract [of HashTx m now t e m'] by (simp add: priority_mempool_def)
next
  case (4 m now t m')
  then show ?case
    using priority_AddTx_contract [of HashTx m now t None m'] by (simp add: priority_mempool_def)
next
  case (5 m now t err m')
  then show ?case
    using priority_AddTx_contract [of HashTx m now t "Some err" m'] by (simp add: priority_mempool_def)
next
  case (6 m hs)
  then show ?case using pool_RemoveTxs_total by (simp add: priority_mempool_def)
next
  case (7 m hs m')
  then show ?case using pool_RemoveTxs_contract [of HashTx m hs m'] by (simp add: priority_mempool_def)
next
  case (8 m)
  then show ?case
    using pool_inv_Flush [of HashTx m] by (simp add: priority_mempool_def) (simp add: priority_Flush_def)
next
  case (9 m v)
  then show ?case
    using pool_inv_SetTxValidator [of HashTx m v]
    by (simp add: priority_mempool_def) (simp add: priority_SetTxValidator_def)
next
  case (10 m now h)
  then show ?case by (simp add: priority_mempool_def priority_HasTx_def pool_stored_lookup)
next
  case (11 m now h)
  then show ?case
    by (simp add: priority_mempool_def priority_GetTx_def pool_stored_lookup split: option.split)
next
  case (12 m tx now b)
  then show ?case
    using priority_ReapTxs_stored [of HashTx m tx b] by (simp add: priority_mempool_def pool_inv_def)
next
  case (13 m b now)
  then show ?case using priority_ReapTxs_bound by (simp add: priority_mempool_def)
next
  case (14 m)
  then show ?case by (simp add: priority_mempool_def priority_Size_def pool_stored_def)
next
  case (15 m)
  then show ?case
    by (simp add: priority_mempool_def priority_SizeBytes_def pool_inv_def pool_weight_def)
next
  case (16 m ks)
  then show ?case
    using pool_hashes [of HashTx m ks] by (simp add: priority_mempool_def enumerates_def)
next
  case (17 m h tx)
  then show ?case by (rule pool_keyed)
qed

section \<open>Properties\<close>

lemma pool_inv_new: "pool_inv HashTx (NewPriorityMempool maxTxs maxBytes pf)"
  by (simp add: pool_inv_def shape_inv_def NewPriorityMempool_def heap_ok_def heap_ordered_def
      heap_upto_def linked_def pool_weight_def pool_stored_def)

lemma pool_inv_SetPriorityFunc: "pool_inv HashTx (priority_SetPriorityFunc m fn) = pool_inv HashTx m"
  by (simp add: pool_inv_def shape_inv_def priority_SetPriorityFunc_def heap_ok_def heap_ordered_def
      linked_def pool_weight_def pool_stored_def)

lemma pool_stored_dom: "fmdom' (pool_stored m) = fmdom' (pm_txs m)"
  by (simp add: pool_stored_def)

lemma linked_hashes:
  assumes "linked HashTx m"
  shows "(\<lambda>a. mt_hash (pm_objs m a)) ` set (pm_heap m) = fmdom' (pm_txs m)"
  using linked_lookup [OF assms] linked_heap [OF assms] by (force simp: fmlookup_dom'_iff image_iff)

lemma linked_priority:
  "linked HashTx m \<Longrightarrow> a \<in> set (pm_heap m) \<Longrightarrow>
   priority_GetPriority m (mt_hash (pm_objs m a)) = pm_prio m a"
  by (simp add: priority_GetPriority_def linked_heap)

text \<open>
  C14: No sequence of calls on a new \<open>PriorityMempool\<close> panics, and after it the pool is
  consistent: every \<open>heapIndex\<close> is the position of its entry in the heap, the heap is ordered
  by priority, map and heap hold the same entries, each under the hash of its transaction,
  \<open>sizeBytes\<close> is the total length, and both limits hold.
\<close>

theorem priority_run_safe:
  "\<exists>m. mempool_run (priority_mempool HashTx) (NewPriorityMempool maxTxs maxBytes pf) cs = Some m \<and>
     pool_inv HashTx m"
  by (rule priority.run_inv) (rule pool_inv_new)

text \<open>
  C17: \<open>HighestPriority\<close> of a consistent pool is the maximum of \<open>GetPriority\<close> over the
  transactions it holds.
\<close>

theorem priority_highest_is_max:
  assumes m: "pool_inv HashTx m" and ne: "fmdom' (pool_stored m) \<noteq> {}"
  shows "priority_HighestPriority m = Max (priority_GetPriority m ` fmdom' (pool_stored m))"
proof -
  have sh: "heap_ordered m" "linked HashTx m" using m by (simp_all add: pool_inv_def shape_inv_def)
  have heap: "pm_heap m \<noteq> []" using ne linked_hashes [OF sh(2)] by (auto simp: pool_stored_dom)
  have dom: "priority_GetPriority m ` fmdom' (pool_stored m) = pm_prio m ` set (pm_heap m)"
    unfolding pool_stored_dom linked_hashes [OF sh(2), symmetric] image_image
    using linked_priority [OF sh(2)] by (intro image_cong) auto
  have "pm_prio m a \<le> pm_prio m (pm_heap m ! 0)" if "a \<in> set (pm_heap m)" for a
    using txh.ordered_root [of m a] that sh(1) by (simp add: heap_ordered_def)
  then have "Max (pm_prio m ` set (pm_heap m)) = pm_prio m (pm_heap m ! 0)"
    using heap by (intro Max_eqI) auto
  then show ?thesis using heap dom by (simp add: priority_HighestPriority_def)
qed

text \<open>
  C16: \<open>PriorityMempool.ReapTxs\<close> lists the pool's transactions by priority, highest first,
  each once, up to the byte limit in force, and stops only where the next one would exceed it.
\<close>

theorem priority_reap_sorted:
  assumes m: "pool_inv HashTx m" and limit: "limit = (if b \<le> 0 then pm_maxBytes m else b)"
  shows "\<exists>hs n. distinct hs \<and> set hs = fmdom' (pool_stored m) \<and>
    sorted_wrt (\<lambda>h k. priority_GetPriority m k \<le> priority_GetPriority m h) hs \<and>
    priority_ReapTxs m b = map (\<lambda>h. the (fmlookup (pool_stored m) h)) (take n hs) \<and>
    (0 < limit \<longrightarrow> total_len (priority_ReapTxs m b) \<le> limit) \<and>
    (n < length hs \<longrightarrow> 0 < limit \<and>
       limit < total_len (priority_ReapTxs m b @ [the (fmlookup (pool_stored m) (hs ! n))]))"
proof -
  obtain as where as: "mset as = mset (pm_heap m)" "sorted_wrt (\<lambda>x y. pm_prio m y \<le> pm_prio m x) as"
    "priority_ReapTxs m b = take_fitting limit 0 (map (\<lambda>a. mt_tx (pm_objs m a)) as)"
    using priority_ReapTxs_eq [of m b] limit by blast
  have sh: "shape_inv HashTx m" and l: "linked HashTx m" and d: "distinct (pm_heap m)"
    using m by (simp_all add: pool_inv_def shape_inv_def heap_ok_def)
  have set: "set as = set (pm_heap m)" using as(1) by (rule mset_eq_setD)
  define hs where "hs = map (\<lambda>a. mt_hash (pm_objs m a)) as"
  have txs: "map (\<lambda>a. mt_tx (pm_objs m a)) as = map (\<lambda>h. the (fmlookup (pool_stored m) h)) hs"
    using heap_entry_stored [OF sh] set by (simp add: hs_def)
  have "inj_on (\<lambda>a. mt_hash (pm_objs m a)) (set (pm_heap m))"
    using linked_heap [OF l] by (intro inj_onI) (metis option.inject)
  then have "distinct hs"
    using d set mset_eq_imp_distinct_iff [OF as(1)] by (simp add: hs_def distinct_map)
  moreover have "set hs = fmdom' (pool_stored m)"
    unfolding pool_stored_dom linked_hashes [OF l, symmetric] by (simp add: hs_def set)
  moreover have "sorted_wrt (\<lambda>h k. priority_GetPriority m k \<le> priority_GetPriority m h) hs"
    unfolding hs_def sorted_wrt_map
    by (rule sorted_wrt_mono_rel [OF _ as(2)]) (simp add: linked_priority [OF l] set)
  moreover obtain n where n: "priority_ReapTxs m b = take n (map (\<lambda>h. the (fmlookup (pool_stored m) h)) hs)"
    using take_fitting_prefix [of limit 0] unfolding as(3) txs by blast
  moreover have "0 < limit \<and> limit < total_len (priority_ReapTxs m b @ [the (fmlookup (pool_stored m) (hs ! n))])"
    if nl: "n < length hs"
  proof -
    let ?xs = "map (\<lambda>h. the (fmlookup (pool_stored m) h)) hs"
    have "?xs = take n ?xs @ ?xs ! n # drop (Suc n) ?xs" using nl by (intro id_take_nth_drop) simp
    from take_fitting_maximal [OF n [unfolded as(3) txs] this] show ?thesis using n nl by simp
  qed
  ultimately show ?thesis
    using take_fitting_bound [of limit 0 "map (\<lambda>a. mt_tx (pm_objs m a)) as"] as(3)
    by (intro exI [of _ hs] exI [of _ n]) (simp add: take_map)
qed

text \<open>
  C18: An \<open>AddTx\<close> drops a transaction only if its priority is strictly lower than that of the
  newcomer and no higher than that of any old transaction that stays; the others keep their
  data and their priority.
\<close>

theorem priority_add_evicts_lowest:
  assumes m: "pool_inv HashTx m" and r: "priority_AddTx HashTx now m (Some tx) = Some (e, m')"
    and h: "fmlookup (pool_stored m) h = Some old" and gone: "fmlookup (pool_stored m') h = None"
  shows "priority_GetPriority m h < pm_priorityFunc m tx \<and>
    (\<forall>k. fmlookup (pool_stored m) k \<noteq> None \<and> fmlookup (pool_stored m') k \<noteq> None \<longrightarrow>
       priority_GetPriority m h \<le> priority_GetPriority m k \<and>
       fmlookup (pool_stored m') k = fmlookup (pool_stored m) k)"
proof -
  let ?mk = "\<lambda>hash tx priority. \<lparr>mt_hash = hash, mt_tx = tx, mt_priority = priority,
    mt_addedAt = now, mt_heapIndex = 0\<rparr>"
  let ?p = "pm_priorityFunc m tx"
  have "\<exists>m1 ev. evictions HashTx ?p ev m m1 \<and> (pool_stored m' = pool_stored m1 \<or>
      (fmlookup (pool_stored m) (HashTx tx) = None \<and> pool_stored m' = fmupd (HashTx tx) tx (pool_stored m1)))"
    using m
  proof (cases rule: pool_AddTx_cases [of HashTx m ?mk tx])
    case (failed err n ev)
    then show ?thesis using r by (auto simp: priority_AddTx_def)
  next
    case (added m1 ev)
    then have sh: "shape_inv HashTx m1" and new: "fmlookup (pm_txs m1) (HashTx tx) = None"
      by (simp_all add: evictions_def removal_def)
    have "m' = pool_insert ?mk m1 (HashTx tx) tx ?p" using added(1) r by (simp add: priority_AddTx_def)
    from insert_entry [OF sh priority_makes new this] added show ?thesis
      by (auto simp: pool_stored_lookup)
  qed
  then obtain m1 ev where ev: "evictions HashTx ?p ev m m1"
    and st: "pool_stored m' = pool_stored m1 \<or>
      (fmlookup (pool_stored m) (HashTx tx) = None \<and> pool_stored m' = fmupd (HashTx tx) tx (pool_stored m1))"
    by blast
  have rem: "removal HashTx ev m m1" using ev by (simp add: evictions_def)
  have s1: "pool_stored m1 = fmdrop_set ev (pool_stored m)" "pm_txs m1 = fmdrop_set ev (pm_txs m)"
    using removal_stored [OF rem] rem by (simp_all add: removal_def)
  have "h \<in> ev" using st h gone by (auto simp: s1 split: if_splits)
  then obtain a where a: "fmlookup (pm_txs m) h = Some a" "pm_prio m a < ?p"
    "\<And>k b. fmlookup (pm_txs m1) k = Some b \<Longrightarrow> pm_prio m a \<le> pm_prio m b"
    using ev unfolding evictions_def by blast
  have stay: "k \<notin> ev \<and> fmlookup (pool_stored m') k = fmlookup (pool_stored m) k"
    if "fmlookup (pool_stored m) k \<noteq> None" "fmlookup (pool_stored m') k \<noteq> None" for k
    using st that by (auto simp: s1 split: if_splits)
  have "priority_GetPriority m h \<le> priority_GetPriority m k"
    if k: "fmlookup (pool_stored m) k \<noteq> None" "fmlookup (pool_stored m') k \<noteq> None" for k
  proof -
    obtain b where b: "fmlookup (pm_txs m) k = Some b" using k(1) by (auto simp: pool_stored_lookup)
    then have "pm_prio m a \<le> pm_prio m b" using a(3) [of k b] stay [OF k] by (simp add: s1)
    then show ?thesis using a(1) b by (simp add: priority_GetPriority_def)
  qed
  then show ?thesis using a stay by (simp add: priority_GetPriority_def)
qed

text \<open>
  C35: A transaction larger than the whole byte capacity whose priority beats every stored one
  is refused with \<open>ErrMempoolFull\<close>, but only after the pool has been emptied to make room
  for it.
\<close>

theorem priority_oversized_tx_empties_pool:
  assumes m: "pool_inv HashTx m" and cap: "0 < pm_maxBytes m" "pm_maxBytes m < int (length tx)"
    and ok: "effective_validator (pm_validator m) tx = None" "fmlookup (pool_stored m) (HashTx tx) = None"
    and room: "pm_maxTxs m \<le> 0 \<or> int (map_len (pool_stored m)) < pm_maxTxs m"
    and low: "\<And>h. fmlookup (pool_stored m) h \<noteq> None \<Longrightarrow> priority_GetPriority m h < pm_priorityFunc m tx"
  shows "\<exists>m'. priority_AddTx HashTx now m (Some tx) = Some (Some ErrMempoolFull, m') \<and>
    pool_stored m' = fmempty"
proof -
  let ?p = "pm_priorityFunc m tx" and ?sz = "int (length tx)"
  have sh: "shape_inv HashTx m" using m by (simp add: pool_inv_def)
  from sh obtain b m1 ev where b: "evict_for_bytes m ?p ?sz = Some (b, m1)" "evictions HashTx ?p ev m m1"
    "if b then pm_maxBytes m > 0 \<longrightarrow> pm_sizeBytes m1 + ?sz \<le> pm_maxBytes m
     else pm_maxBytes m > 0 \<and> pm_sizeBytes m1 + ?sz > pm_maxBytes m \<and>
       (\<forall>a \<in> set (pm_heap m1). ?p \<le> pm_prio m1 a)"
    using evict_for_bytes_cases [OF sh, of ?p ?sz] by blast
  have rem: "removal HashTx ev m m1" using b(2) by (simp add: evictions_def)
  have "0 \<le> pm_sizeBytes m1"
    using pool_inv_removal [OF m rem] by (simp add: pool_inv_def pool_weight_def map_weight_nonneg)
  then have nb: "\<not> b" using b(3) cap by (auto split: if_splits)
  have l1: "linked HashTx m1" and txs: "pm_txs m1 = fmdrop_set ev (pm_txs m)" and re: "pm_rest m1 = pm_rest m"
    using rem by (simp_all add: removal_def shape_inv_def)
  have False if a: "a \<in> set (pm_heap m1)" for a
  proof -
    have "fmlookup (pm_txs m1) (mt_hash (pm_objs m1 a)) = Some a" using linked_heap [OF l1 a] by simp
    then have k: "fmlookup (pm_txs m) (mt_hash (pm_objs m1 a)) = Some a" by (simp add: txs split: if_splits)
    then have "pm_prio m a < ?p"
      using low [of "mt_hash (pm_objs m1 a)"] by (simp add: pool_stored_lookup priority_GetPriority_def)
    moreover have "?p \<le> pm_prio m1 a" using b(3) nb a by simp
    ultimately show False using rest_agree(8) [OF re] by simp
  qed
  then have "pm_heap m1 = []" by (metis list.set_intros(1) neq_Nil_conv)
  then have "pool_stored m1 = fmempty"
    using linked_txs_heap [OF l1] by (simp add: pool_stored_def)
  moreover have "fmlookup (pm_txs m) (HashTx tx) = None" using ok(2) by (simp add: pool_stored_lookup)
  then have "priority_AddTx HashTx now m (Some tx) = Some (Some ErrMempoolFull, m1)"
    using ok(1) room b(1) nb
    by (auto simp: priority_AddTx_def pool_AddTx_def Let_def pool_stored_def)
  ultimately show ?thesis by blast
qed

section \<open>Witnesses\<close>

text \<open>Two transactions, of priorities 5 and 3; the hash is the identity.\<close>

definition ex_priority_pool :: "mempoolTx priorityMempool" where
  "ex_priority_pool =
     \<lparr>pm_objs = (\<lambda>_. empty_tx)
        (0 := \<lparr>mt_hash = [1], mt_tx = [1], mt_priority = 3, mt_addedAt = 0, mt_heapIndex = 1\<rparr>,
         1 := \<lparr>mt_hash = [2, 2], mt_tx = [2, 2], mt_priority = 5, mt_addedAt = 0, mt_heapIndex = 0\<rparr>),
      pm_next = 2, pm_txs = fmupd [2, 2] 1 (fmupd [1] 0 fmempty), pm_heap = [1, 0], pm_maxTxs = 2,
      pm_maxBytes = 3, pm_priorityFunc = (\<lambda>tx. 4), pm_validator = Some AcceptAllTxValidator,
      pm_sizeBytes = 3\<rparr>"

lemma ex_priority_pool_inv: "pool_inv (\<lambda>tx. tx) ex_priority_pool"
  by (simp add: pool_inv_def shape_inv_def ex_priority_pool_def heap_ok_def heap_ordered_def
      heap_upto_def linked_def pool_weight_def pool_stored_def pm_prio_def parent_def
      less_Suc_eq all_conj_distrib map_len_simps weight_simps)

lemma ex_priority_pool_stored:
  "pool_stored ex_priority_pool = fmupd [2, 2] [2, 2] (fmupd [1] [1] fmempty)"
  "pm_maxBytes ex_priority_pool = 3" "pm_priorityFunc ex_priority_pool = (\<lambda>tx. 4)"
  "priority_GetPriority ex_priority_pool [1] = 3" "priority_GetPriority ex_priority_pool [2, 2] = 5"
  by (rule fmap_ext) (simp_all add: ex_priority_pool_def pool_stored_def priority_GetPriority_def
      pm_prio_def)

theorem priority_highest_is_max_witness:
  "priority_HighestPriority ex_priority_pool = 5 \<and>
   priority_HighestPriority ex_priority_pool =
     Max (priority_GetPriority ex_priority_pool ` fmdom' (pool_stored ex_priority_pool))"
  using priority_highest_is_max [OF ex_priority_pool_inv]
  by (simp add: ex_priority_pool_stored)

theorem priority_reap_sorted_witness:
  "priority_ReapTxs ex_priority_pool 2 = [[2, 2]] \<and>
   (\<exists>hs n. set hs = {[1], [2, 2]} \<and>
      sorted_wrt (\<lambda>h k. priority_GetPriority ex_priority_pool k \<le> priority_GetPriority ex_priority_pool h) hs \<and>
      priority_ReapTxs ex_priority_pool 2
        = map (\<lambda>h. the (fmlookup (pool_stored ex_priority_pool) h)) (take n hs))"
proof -
  have "priority_ReapTxs ex_priority_pool 2 = [[2, 2]]"
    by (simp add: priority_ReapTxs_def ex_priority_pool_def sort_outer.simps sort_inner.simps pm_prio_def)
  moreover obtain hs n where "set hs = fmdom' (pool_stored ex_priority_pool)"
    "sorted_wrt (\<lambda>h k. priority_GetPriority ex_priority_pool k \<le> priority_GetPriority ex_priority_pool h) hs"
    "priority_ReapTxs ex_priority_pool 2
        = map (\<lambda>h. the (fmlookup (pool_stored ex_priority_pool) h)) (take n hs)"
    using priority_reap_sorted [OF ex_priority_pool_inv, of 2 2] by auto
  moreover have "fmdom' (pool_stored ex_priority_pool) = {[1], [2, 2]}"
    by (simp add: ex_priority_pool_stored(1) insert_commute)
  ultimately show ?thesis by blast
qed

lemma ex_priority_pool_add:
  "\<exists>m'. priority_AddTx (\<lambda>tx. tx) 0 ex_priority_pool (Some [7]) = Some (None, m') \<and>
     fmlookup (pool_stored m') [1] = None \<and> fmlookup (pool_stored m') [2, 2] = Some [2, 2]"
  by (simp add: priority_AddTx_def pool_AddTx_def ex_priority_pool_def AcceptAllTxValidator_def
      map_len_simps evictLowestLocked_def pm_prio_def heap_Remove_def txHeap_Pop_def set_heapIndex_def
      evict_for_bytes.simps pool_insert_def heap_Push_def txHeap_Push_def heap_up.simps parent_def
      txHeap_Less_def pool_stored_def Let_def)

theorem priority_add_evicts_lowest_witness:
  "priority_GetPriority ex_priority_pool [1] < pm_priorityFunc ex_priority_pool [7] \<and>
   priority_GetPriority ex_priority_pool [1] \<le> priority_GetPriority ex_priority_pool [2, 2]"
proof -
  obtain m' where m': "priority_AddTx (\<lambda>tx. tx) 0 ex_priority_pool (Some [7]) = Some (None, m')"
    "fmlookup (pool_stored m') [1] = None" "fmlookup (pool_stored m') [2, 2] = Some [2, 2]"
    using ex_priority_pool_add by blast
  show ?thesis
    using priority_add_evicts_lowest [OF ex_priority_pool_inv m'(1) _ m'(2), of "[1]"] m'(3)
    by (simp add: ex_priority_pool_stored(1))
qed

theorem priority_oversized_tx_empties_pool_witness:
  "\<exists>m'. priority_AddTx (\<lambda>tx. tx) 0
        (ex_priority_pool\<lparr>pm_priorityFunc := (\<lambda>tx. 9), pm_maxTxs := 0\<rparr>) (Some [9, 9, 9, 9])
      = Some (Some ErrMempoolFull, m') \<and> pool_stored m' = fmempty"
proof (rule priority_oversized_tx_empties_pool)
  let ?m = "ex_priority_pool\<lparr>pm_priorityFunc := (\<lambda>tx. 9), pm_maxTxs := 0\<rparr>"
  show "pool_inv (\<lambda>tx. tx) ?m"
    by (simp add: pool_inv_def shape_inv_def ex_priority_pool_def heap_ok_def heap_ordered_def
        heap_upto_def linked_def pool_weight_def pool_stored_def pm_prio_def parent_def
        less_Suc_eq all_conj_distrib map_len_simps weight_simps)
  fix h
  show "fmlookup (pool_stored ?m) h \<noteq> None \<Longrightarrow>
      priority_GetPriority ?m h < pm_priorityFunc ?m [9, 9, 9, 9]"
    by (cases "h = [1]"; cases "h = [2, 2]")
      (simp_all add: ex_priority_pool_def pool_stored_lookup priority_GetPriority_def pm_prio_def)
qed (simp_all add: ex_priority_pool_def AcceptAllTxValidator_def pool_stored_def map_len_simps)

end
