(* ===== verification/TTLMempool.thy ===== *)
theory TTLMempool
  imports PriorityMempool
begin

text \<open>
  \<open>pkg/mempool/ttl_mempool.go\<close>. The transactions and the pool of the TTL mempool are those of
  the priority mempool with further fields (an expiry time; a size limit, the time to live, the
  cleanup interval); heap, eviction and removal are textually the same loops and are shared.
  Times are integers; the reading of the clock is an argument.
\<close>

section \<open>State and operations\<close>

record ttlTx = mempoolTx +
  tt_expiresAt :: int

record ttlMempool = "ttlTx priorityMempool" +
  tm_maxTxSize :: int
  tm_ttl :: int
  tm_cleanupInterval :: int
  tm_stopped :: bool

definition empty_ttlTx :: ttlTx where
  "empty_ttlTx = \<lparr>mt_hash = [], mt_tx = [], mt_priority = 0, mt_addedAt = 0, mt_heapIndex = 0,
     tt_expiresAt = 0\<rparr>"

text \<open>\<open>time.Minute\<close> in nanoseconds.\<close>

definition time_Minute :: int where
  "time_Minute = 60 * 1000000000"

definition NewTTLMempool ::
  "int \<Rightarrow> int \<Rightarrow> int \<Rightarrow> int \<Rightarrow> int \<Rightarrow> priorityFunc option \<Rightarrow> ttlMempool" where
  "NewTTLMempool maxTxs maxBytes maxTxSize ttl cleanupInterval pf =
     \<lparr>pm_objs = (\<lambda>_. empty_ttlTx), pm_next = 0, pm_txs = fmempty, pm_heap = [], pm_maxTxs = maxTxs,
      pm_maxBytes = maxBytes,
      pm_priorityFunc = (case pf of None \<Rightarrow> DefaultPriorityFunc | Some f \<Rightarrow> f),
      pm_validator = None, pm_sizeBytes = 0, tm_maxTxSize = maxTxSize,
      tm_ttl = (if ttl \<le> 0 then 30 * time_Minute else ttl),
      tm_cleanupInterval = (if cleanupInterval \<le> 0 then time_Minute else cleanupInterval),
      tm_stopped = False\<rparr>"

text \<open>\<open>now.After(mtx.expiresAt)\<close> for the object at an address.\<close>

definition expired :: "int \<Rightarrow> ttlMempool \<Rightarrow> nat \<Rightarrow> bool" where
  "expired now m a \<longleftrightarrow> now > tt_expiresAt (pm_objs m a)"

text \<open>
  \<open>removeExpired\<close> collects the expired keys, in the order \<open>ks\<close> of its range over \<open>txs\<close>, and
  removes each with the same three steps as \<open>RemoveTxs\<close>; it returns how many it collected.
\<close>

definition ttl_removeExpired :: "int \<Rightarrow> bytes list \<Rightarrow> ttlMempool \<Rightarrow> (nat \<times> ttlMempool) option" where
  "ttl_removeExpired now ks m =
     (let exp = filter (\<lambda>k. case fmlookup (pm_txs m) k of
                               Some a \<Rightarrow> expired now m a | None \<Rightarrow> False) ks
      in case pool_RemoveTxs m exp of
           None \<Rightarrow> None
         | Some m' \<Rightarrow> Some (length exp, m'))"

text \<open>Closing the channel a second time panics.\<close>

definition ttl_Stop :: "ttlMempool \<Rightarrow> ttlMempool option" where
  "ttl_Stop m = (if tm_stopped m then None else Some (m\<lparr>tm_stopped := True\<rparr>))"

definition ttl_AddTxWithTTL ::
  "(bytes \<Rightarrow> bytes) \<Rightarrow> int \<Rightarrow> ttlMempool \<Rightarrow> slice \<Rightarrow> int \<Rightarrow> (error option \<times> ttlMempool) option" where
  "ttl_AddTxWithTTL HashTx now m t ttl =
     (case t of
        None \<Rightarrow> Some (Some ErrInvalidTx, m)
      | Some tx \<Rightarrow>
          if tm_maxTxSize m > 0 \<and> int (length tx) > tm_maxTxSize m then Some (Some ErrTxTooLarge, m)
          else pool_AddTx HashTx
            (\<lambda>hash tx priority. \<lparr>mt_hash = hash, mt_tx = tx, mt_priority = priority,
               mt_addedAt = now, mt_heapIndex = 0, tt_expiresAt = now + ttl\<rparr>) m tx)"

definition ttl_AddTx ::
  "(bytes \<Rightarrow> bytes) \<Rightarrow> int \<Rightarrow> ttlMempool \<Rightarrow> slice \<Rightarrow> (error option \<times> ttlMempool) option" where
  "ttl_AddTx HashTx now m t = ttl_AddTxWithTTL HashTx now m t (tm_ttl m)"

definition ttl_evictLowestLocked :: "ttlMempool \<Rightarrow> int \<Rightarrow> (bool \<times> ttlMempool) option" where
  "ttl_evictLowestLocked m newPriority = evictLowestLocked m newPriority"

definition ttl_RemoveTxs :: "ttlMempool \<Rightarrow> bytes list \<Rightarrow> ttlMempool option" where
  "ttl_RemoveTxs m hashes = pool_RemoveTxs m hashes"

definition ttl_ReapTxs :: "int \<Rightarrow> ttlMempool \<Rightarrow> int \<Rightarrow> bytes list" where
  "ttl_ReapTxs now m maxBytes =
     (let limit = (if maxBytes \<le> 0 then pm_maxBytes m else maxBytes) in
      if pm_heap m = [] then []
      else let sorted = sort_outer (pm_prio m) (filter (\<lambda>a. \<not> expired now m a) (pm_heap m)) 0
           in take_fitting limit 0 (map (\<lambda>a. mt_tx (pm_objs m a)) sorted))"

definition ttl_HasTx :: "int \<Rightarrow> ttlMempool \<Rightarrow> bytes \<Rightarrow> bool" where
  "ttl_HasTx now m hash =
     (case fmlookup (pm_txs m) hash of None \<Rightarrow> False | Some a \<Rightarrow> \<not> expired now m a)"

definition ttl_GetTx :: "int \<Rightarrow> ttlMempool \<Rightarrow> bytes \<Rightarrow> error + bytes" where
  "ttl_GetTx now m hash =
     (case fmlookup (pm_txs m) hash of
        None \<Rightarrow> Inl ErrTxNotFound
      | Some a \<Rightarrow> if expired now m a then Inl ErrTxNotFound else Inr (mt_tx (pm_objs m a)))"

definition ttl_Size :: "ttlMempool \<Rightarrow> int" where
  "ttl_Size m = int (map_len (pm_txs m))"

text \<open>The count over the range does not depend on its order.\<close>

definition ttl_SizeActive :: "int \<Rightarrow> bytes list \<Rightarrow> ttlMempool \<Rightarrow> int" where
  "ttl_SizeActive now ks m =
     int (length (filter (\<lambda>k. case fmlookup (pm_txs m) k of
                                Some a \<Rightarrow> \<not> expired now m a | None \<Rightarrow> False) ks))"

definition ttl_SizeBytes :: "ttlMempool \<Rightarrow> int" where
  "ttl_SizeBytes m = pm_sizeBytes m"

definition ttl_Flush :: "ttlMempool \<Rightarrow> ttlMempool" where
  "ttl_Flush m = m\<lparr>pm_txs := fmempty, pm_heap := [], pm_sizeBytes := 0\<rparr>"

definition ttl_TxHashes :: "bytes list \<Rightarrow> ttlMempool \<Rightarrow> bytes list" where
  "ttl_TxHashes ks m = map (\<lambda>k. mt_hash (pm_objs m (the (fmlookup (pm_txs m) k)))) ks"

definition ttl_GetTTL :: "int \<Rightarrow> ttlMempool \<Rightarrow> bytes \<Rightarrow> int" where
  "ttl_GetTTL now m hash =
     (case fmlookup (pm_txs m) hash of
        None \<Rightarrow> 0
      | Some a \<Rightarrow> let remaining = tt_expiresAt (pm_objs m a) - now
                  in if remaining < 0 then 0 else remaining)"

definition set_expiresAt :: "nat \<Rightarrow> int \<Rightarrow> ttlMempool \<Rightarrow> ttlMempool" where
  "set_expiresAt a t m = m\<lparr>pm_objs := (pm_objs m)(a := (pm_objs m a)\<lparr>tt_expiresAt := t\<rparr>)\<rparr>"

definition ttl_ExtendTTL :: "ttlMempool \<Rightarrow> bytes \<Rightarrow> int \<Rightarrow> bool \<times> ttlMempool" where
  "ttl_ExtendTTL m hash extension =
     (case fmlookup (pm_txs m) hash of
        None \<Rightarrow> (False, m)
      | Some a \<Rightarrow> (True, set_expiresAt a (tt_expiresAt (pm_objs m a) + extension) m))"

definition ttl_SetTTL :: "ttlMempool \<Rightarrow> bytes \<Rightarrow> int \<Rightarrow> bool \<times> ttlMempool" where
  "ttl_SetTTL m hash expiresAt =
     (case fmlookup (pm_txs m) hash of
        None \<Rightarrow> (False, m)
      | Some a \<Rightarrow> (True, set_expiresAt a expiresAt m))"

definition ttl_GetPriority :: "ttlMempool \<Rightarrow> bytes \<Rightarrow> int" where
  "ttl_GetPriority m hash =
     (case fmlookup (pm_txs m) hash of None \<Rightarrow> 0 | Some a \<Rightarrow> pm_prio m a)"

definition ttl_SetTxValidator :: "ttlMempool \<Rightarrow> txValidator option \<Rightarrow> ttlMempool" where
  "ttl_SetTxValidator m v = m\<lparr>pm_validator := v\<rparr>"

definition ttl_mempool :: "(bytes \<Rightarrow> bytes) \<Rightarrow> ttlMempool mempool" where
  "ttl_mempool HashTx = \<lparr>
     AddTx = ttl_AddTx HashTx,
     RemoveTxs = ttl_RemoveTxs,
     ReapTxs = ttl_ReapTxs,
     HasTx = ttl_HasTx,
     GetTx = ttl_GetTx,
     Size = ttl_Size,
     SizeBytes = ttl_SizeBytes,
     Flush = ttl_Flush,
     TxHashes = ttl_TxHashes,
     SetTxValidator = ttl_SetTxValidator\<rparr>"

text \<open>The operations the TTL mempool has beyond the interface, and the cleanup goroutine's.\<close>

datatype ttl_call =
    TCall mempool_call
  | TAddWithTTL int slice int
  | TRemoveExpired int "bytes list"
  | TExtendTTL bytes int
  | TSetTTL bytes int

fun ttl_exec :: "(bytes \<Rightarrow> bytes) \<Rightarrow> ttlMempool \<Rightarrow> ttl_call \<Rightarrow> ttlMempool option" where
  "ttl_exec HashTx m (TCall c) = mempool_exec (ttl_mempool HashTx) m c"
| "ttl_exec HashTx m (TAddWithTTL now t ttl) = map_option snd (ttl_AddTxWithTTL HashTx now m t ttl)"
| "ttl_exec HashTx m (TRemoveExpired now ks) = map_option snd (ttl_removeExpired now ks m)"
| "ttl_exec HashTx m (TExtendTTL h d) = Some (snd (ttl_ExtendTTL m h d))"
| "ttl_exec HashTx m (TSetTTL h t) = Some (snd (ttl_SetTTL m h t))"

fun ttl_run :: "(bytes \<Rightarrow> bytes) \<Rightarrow> ttlMempool \<Rightarrow> ttl_call list \<Rightarrow> ttlMempool option" where
  "ttl_run HashTx m [] = Some m"
| "ttl_run HashTx m (c # cs) = Option.bind (ttl_exec HashTx m c) (\<lambda>m'. ttl_run HashTx m' cs)"

section \<open>Invariant and contract\<close>

definition ttl_inv :: "(bytes \<Rightarrow> bytes) \<Rightarrow> ttlMempool \<Rightarrow> bool" where
  "ttl_inv HashTx m \<longleftrightarrow> pool_inv HashTx m \<and> 0 < tm_ttl m"

text \<open>Whether the entry under a hash is there and not expired.\<close>

definition ttl_live :: "int \<Rightarrow> ttlMempool \<Rightarrow> bytes \<Rightarrow> bool" where
  "ttl_live now m h \<longleftrightarrow> (case fmlookup (pm_txs m) h of None \<Rightarrow> False | Some a \<Rightarrow> \<not> expired now m a)"

lemma ttl_rest_agree:
  assumes "pm_rest t = pm_rest m"
  shows "tt_expiresAt (pm_objs t a) = tt_expiresAt (pm_objs m a)" "tm_ttl t = tm_ttl m"
  using arg_cong [OF assms, of "\<lambda>m. tt_expiresAt (pm_objs m a)"] arg_cong [OF assms, of tm_ttl]
  by (simp_all add: pm_rest_def pm_frame_def)

lemma ttl_frame_agree:
  assumes "pm_frame t = pm_frame m"
  shows "tt_expiresAt (pm_objs t a) = tt_expiresAt (pm_objs m a)" "tm_ttl t = tm_ttl m"
  using ttl_rest_agree [OF frame_rest [OF assms]] by simp_all

abbreviation ttl_mk :: "int \<Rightarrow> int \<Rightarrow> bytes \<Rightarrow> bytes \<Rightarrow> int \<Rightarrow> ttlTx" where
  "ttl_mk now ttl \<equiv> (\<lambda>hash tx priority. \<lparr>mt_hash = hash, mt_tx = tx, mt_priority = priority,
     mt_addedAt = now, mt_heapIndex = 0, tt_expiresAt = now + ttl\<rparr>)"

lemma ttl_makes: "makes (ttl_mk now ttl)"
  by (simp add: makes_def)

text \<open>The new entry expires after its time to live.\<close>

lemma ttl_add_expiry:
  assumes m: "pool_inv HashTx m" and r: "pool_AddTx HashTx (ttl_mk now ttl) m tx = Some (e, m')"
  shows "tm_ttl m' = tm_ttl m \<and>
    (e = None \<longrightarrow> (\<exists>a. fmlookup (pm_txs m') (HashTx tx) = Some a \<and> tt_expiresAt (pm_objs m' a) = now + ttl))"
  using m
proof (cases rule: pool_AddTx_cases [of HashTx m "ttl_mk now ttl" tx])
  case (failed err n ev)
  then have "pm_rest n = pm_rest m" "e = Some err" "m' = n"
    using r by (simp_all add: evictions_def removal_def)
  then show ?thesis using ttl_rest_agree(2) [of n m] by simp
next
  case (added m1 ev)
  have sh: "shape_inv HashTx m1" and new: "fmlookup (pm_txs m1) (HashTx tx) = None"
    and re: "pm_rest m1 = pm_rest m"
    using added by (simp_all add: evictions_def removal_def)
  have m': "m' = pool_insert (ttl_mk now ttl) m1 (HashTx tx) tx (pm_priorityFunc m tx)"
    using added(1) r by simp
  note i = insert_entry [OF sh ttl_makes new m']
  have "pm_frame m' = pm_frame (m1\<lparr>pm_objs := (pm_objs m1)(pm_next m1 :=
        ttl_mk now ttl (HashTx tx) tx (pm_priorityFunc m tx)),
      pm_next := Suc (pm_next m1), pm_txs := fmupd (HashTx tx) (pm_next m1) (pm_txs m1),
      pm_sizeBytes := pm_sizeBytes m1 + int (length tx)\<rparr>)"
    using i by blast
  note fr = ttl_frame_agree [OF this]
  show ?thesis using i ttl_rest_agree(2) [OF re] by (simp add: fr)
qed

lemma ttl_AddTxWithTTL_contract:
  assumes m: "pool_inv HashTx m" and r: "ttl_AddTxWithTTL HashTx now m t ttl = Some (e, m')"
  shows "pool_inv HashTx m' \<and> tm_ttl m' = tm_ttl m \<and> pm_validator m' = pm_validator m \<and>
    (e = None \<longrightarrow> (\<exists>tx ev. t = Some tx \<and> effective_validator (pm_validator m) tx = None \<and>
      fmlookup (pool_stored m) (HashTx tx) = None \<and>
      pool_stored m' = fmupd (HashTx tx) tx (fmdrop_set ev (pool_stored m)) \<and>
      (\<exists>a. fmlookup (pm_txs m') (HashTx tx) = Some a \<and> tt_expiresAt (pm_objs m' a) = now + ttl))) \<and>
    (e \<noteq> None \<longrightarrow> (\<exists>ev. pool_stored m' = fmdrop_set ev (pool_stored m)))"
proof (cases "\<exists>tx. t = Some tx \<and> pool_AddTx HashTx (ttl_mk now ttl) m tx = Some (e, m')")
  case True
  then obtain tx where t: "t = Some tx" and c: "pool_AddTx HashTx (ttl_mk now ttl) m tx = Some (e, m')"
    by blast
  show ?thesis using pool_AddTx_contract [OF m ttl_makes c] ttl_add_expiry [OF m c] t by blast
next
  case False
  then have "m' = m" "e \<noteq> None"
    using r by (auto simp: ttl_AddTxWithTTL_def split: option.splits if_splits)
  then show ?thesis using m by (metis fmdrop_set_null)
qed

lemma ttl_AddTxWithTTL_total: "pool_inv HashTx m \<Longrightarrow> ttl_AddTxWithTTL HashTx now m t ttl \<noteq> None"
  using pool_AddTx_total [of HashTx m "ttl_mk now ttl"]
  by (auto simp: ttl_AddTxWithTTL_def split: option.split)

lemma ttl_RemoveTxs_contract:
  assumes "ttl_inv HashTx m" "ttl_RemoveTxs m hs = Some m'"
  shows "ttl_inv HashTx m' \<and> pool_stored m' = fmdrop_set (set hs) (pool_stored m) \<and>
    pm_txs m' = fmdrop_set (set hs) (pm_txs m) \<and> pm_rest m' = pm_rest m"
proof -
  have m: "pool_inv HashTx m" and r: "pool_RemoveTxs m hs = Some m'"
    using assms by (simp_all add: ttl_inv_def ttl_RemoveTxs_def)
  have rem: "removal HashTx (set hs) m m'"
    using pool_RemoveTxs_removal [of HashTx m hs] m r by (auto simp: pool_inv_def)
  then have "pm_rest m' = pm_rest m" by (simp add: removal_def)
  then show ?thesis
    using assms pool_RemoveTxs_contract [OF m r] rem ttl_rest_agree(2) [of m' m]
    by (simp add: ttl_inv_def removal_def)
qed

lemma ttl_same:
  "ttl_Size = priority_Size" "ttl_SizeBytes = priority_SizeBytes" "ttl_Flush = priority_Flush"
  "ttl_TxHashes = priority_TxHashes" "ttl_SetTxValidator = priority_SetTxValidator"
  "ttl_GetPriority = priority_GetPriority"
  by (simp_all add: fun_eq_iff ttl_Size_def priority_Size_def ttl_SizeBytes_def priority_SizeBytes_def
      ttl_Flush_def priority_Flush_def ttl_TxHashes_def priority_TxHashes_def ttl_SetTxValidator_def
      priority_SetTxValidator_def ttl_GetPriority_def priority_GetPriority_def)

lemma ttl_ReapTxs_eq:
  "\<exists>as. mset as = mset (filter (\<lambda>a. \<not> expired now m a) (pm_heap m)) \<and>
     sorted_wrt (\<lambda>x y. pm_prio m y \<le> pm_prio m x) as \<and>
     ttl_ReapTxs now m b =
       take_fitting (if b \<le> 0 then pm_maxBytes m else b) 0 (map (\<lambda>a. mt_tx (pm_objs m a)) as)"
proof (cases "pm_heap m = []")
  case True
  then show ?thesis by (intro exI [of _ "[]"]) (simp add: ttl_ReapTxs_def)
next
  case False
  let ?hs = "filter (\<lambda>a. \<not> expired now m a) (pm_heap m)"
  show ?thesis
    using sort_outer_correct [of "pm_prio m" ?hs] False
    by (intro exI [of _ "sort_outer (pm_prio m) ?hs 0"]) (simp add: ttl_ReapTxs_def)
qed

lemma ttl_ReapTxs_live:
  assumes m: "ttl_inv HashTx m" and tx: "tx \<in> set (ttl_ReapTxs now m b)"
  shows "\<exists>h. fmlookup (pool_stored m) h = Some tx \<and> ttl_live now m h"
proof -
  obtain as where as: "mset as = mset (filter (\<lambda>a. \<not> expired now m a) (pm_heap m))" "ttl_ReapTxs now m b =
      take_fitting (if b \<le> 0 then pm_maxBytes m else b) 0 (map (\<lambda>a. mt_tx (pm_objs m a)) as)"
    using ttl_ReapTxs_eq by blast
  have "tx \<in> set (map (\<lambda>a. mt_tx (pm_objs m a)) as)"
    using tx take_fitting_subset unfolding as(2) by blast
  then obtain a where a: "a \<in> set (pm_heap m)" "tx = mt_tx (pm_objs m a)" "\<not> expired now m a"
    using mset_eq_setD [OF as(1)] by auto
  have sh: "shape_inv HashTx m" using m by (simp add: ttl_inv_def pool_inv_def)
  have "fmlookup (pm_txs m) (mt_hash (pm_objs m a)) = Some a"
    using linked_heap [of HashTx m a] a(1) sh by (simp add: shape_inv_def)
  then show ?thesis
    using heap_entry_stored [OF sh a(1)] a by (intro exI [of _ "mt_hash (pm_objs m a)"]) (simp add: ttl_live_def)
qed

interpretation ttlpool: mempool_contract "ttl_mempool HashTx" HashTx "ttl_inv HashTx"
  pool_stored ttl_live "\<lambda>m tx. effective_validator (pm_validator m) tx = None"
  for HashTx
proof (unfold_locales, goal_cases)
  case (1 m now t)
  then show ?case
    using ttl_AddTxWithTTL_total [of HashTx m now t] by (simp add: ttl_mempool_def ttl_AddTx_def ttl_inv_def)
next
  case (2 m now t e m')
  then show ?case
    using ttl_AddTxWithTTL_contract [of HashTx m now t "tm_ttl m" e m']
    by (simp add: ttl_mempool_def ttl_AddTx_def ttl_inv_def)
next
  case (3 m now t e m' tx)
  then show ?case
    using ttl_AddTxWithTTL_contract [of HashTx m now t "tm_ttl m" e m']
    by (simp add: ttl_mempool_def ttl_AddTx_def ttl_inv_def)
next
  case (4 m now t m')
  then have "pool_inv HashTx m" "ttl_AddTxWithTTL HashTx now m t (tm_ttl m) = Some (None, m')"
    and "0 < tm_ttl m"
    by (simp_all add: ttl_mempool_def ttl_AddTx_def ttl_inv_def)
  then show ?case
    using ttl_AddTxWithTTL_contract [of HashTx m now t "tm_ttl m" None m']
    by (force simp: ttl_live_def expired_def)
next
  case (5 m now t err m')
  then show ?case
    using ttl_AddTxWithTTL_contract [of HashTx m now t "tm_ttl m" "Some err" m']
    by (simp add: ttl_mempool_def ttl_AddTx_def ttl_inv_def)
next
  case (6 m hs)
  then show ?case
    using pool_RemoveTxs_total [of HashTx m hs] by (simp add: ttl_mempool_def ttl_RemoveTxs_def ttl_inv_def)
next
  case (7 m hs m')
  then show ?case
    using ttl_RemoveTxs_contract [of HashTx m hs m'] rest_agree(5) [of m' m] by (simp add: ttl_mempool_def)
next
  case (8 m)
  then show ?case
    using pool_inv_Flush [of HashTx m]
    by (simp add: ttl_mempool_def ttl_inv_def ttl_same) (simp add: priority_Flush_def)
next
  case (9 m v)
  then show ?case
    using pool_inv_SetTxValidator [of HashTx m v]
    by (simp add: ttl_mempool_def ttl_inv_def ttl_same) (simp add: priority_SetTxValidator_def)
next
  case (10 m now h)
  then show ?case
    by (simp add: ttl_mempool_def ttl_HasTx_def ttl_live_def pool_stored_lookup split: option.split)
next
  case (11 m now h)
  then show ?case
    by (simp add: ttl_mempool_def ttl_GetTx_def ttl_live_def pool_stored_lookup split: option.split)
next
  case (12 m tx now b)
  then show ?case using ttl_ReapTxs_live [of HashTx m tx now b] by (simp add: ttl_mempool_def)
next
  case (13 m b now)
  then show ?case
    using ttl_ReapTxs_eq [of now m b] take_fitting_bound [of b 0] by (auto simp: ttl_mempool_def)
next
  case (14 m)
  then show ?case by (simp add: ttl_mempool_def ttl_Size_def pool_stored_def)
next
  case (15 m)
  then show ?case
    by (simp add: ttl_mempool_def ttl_SizeBytes_def ttl_inv_def pool_inv_def pool_weight_def)
next
  case (16 m ks)
  then show ?case
    using pool_hashes [of HashTx m ks] by (simp add: ttl_mempool_def ttl_same enumerates_def ttl_inv_def)
next
  case (17 m h tx)
  then show ?case using pool_keyed [of HashTx m h tx] by (simp add: ttl_inv_def)
qed

section \<open>The operations beyond the interface\<close>

lemma set_expiresAt_simps [simp]:
  "pm_txs (set_expiresAt a t m) = pm_txs m" "pm_heap (set_expiresAt a t m) = pm_heap m"
  "pm_next (set_expiresAt a t m) = pm_next m" "pm_sizeBytes (set_expiresAt a t m) = pm_sizeBytes m"
  "pm_maxTxs (set_expiresAt a t m) = pm_maxTxs m" "pm_maxBytes (set_expiresAt a t m) = pm_maxBytes m"
  "pm_validator (set_expiresAt a t m) = pm_validator m" "tm_ttl (set_expiresAt a t m) = tm_ttl m"
  "mt_hash (pm_objs (set_expiresAt a t m) b) = mt_hash (pm_objs m b)"
  "mt_tx (pm_objs (set_expiresAt a t m) b) = mt_tx (pm_objs m b)"
  "mt_heapIndex (pm_objs (set_expiresAt a t m) b) = mt_heapIndex (pm_objs m b)"
  "tt_expiresAt (pm_objs (set_expiresAt a t m) b) = (if b = a then t else tt_expiresAt (pm_objs m b))"
  "pm_prio (set_expiresAt a t m) = pm_prio m"
  by (simp_all add: set_expiresAt_def pm_prio_def fun_eq_iff)

lemma set_expiresAt_inv [simp]:
  "ttl_inv HashTx (set_expiresAt a t m) = ttl_inv HashTx m" "pool_stored (set_expiresAt a t m) = pool_stored m"
  by (simp_all add: ttl_inv_def pool_inv_def shape_inv_def heap_ok_def heap_ordered_def linked_def
      pool_weight_def pool_stored_def)

lemma ttl_inv_Extend: "ttl_inv HashTx m \<Longrightarrow> ttl_inv HashTx (snd (ttl_ExtendTTL m h d))"
  by (simp add: ttl_ExtendTTL_def split: option.split)

lemma ttl_inv_Set: "ttl_inv HashTx m \<Longrightarrow> ttl_inv HashTx (snd (ttl_SetTTL m h t))"
  by (simp add: ttl_SetTTL_def split: option.split)

lemma ttl_removeExpired_total:
  assumes "ttl_inv HashTx m"
  obtains n m' where "ttl_removeExpired now ks m = Some (n, m')" "ttl_inv HashTx m'"
proof -
  let ?exp = "filter (\<lambda>k. case fmlookup (pm_txs m) k of Some a \<Rightarrow> expired now m a | None \<Rightarrow> False) ks"
  obtain m' where m': "ttl_RemoveTxs m ?exp = Some m'"
    using pool_RemoveTxs_total [of HashTx m ?exp] assms by (auto simp: ttl_RemoveTxs_def ttl_inv_def)
  then have "ttl_inv HashTx m'" using ttl_RemoveTxs_contract [OF assms] by blast
  then show ?thesis using m' that by (simp add: ttl_removeExpired_def ttl_RemoveTxs_def)
qed

lemma ttl_exec_inv:
  assumes m: "ttl_inv HashTx m"
  shows "\<exists>m'. ttl_exec HashTx m c = Some m' \<and> ttl_inv HashTx m'"
proof (cases c)
  case (TCall x)
  then show ?thesis using ttlpool.exec_inv [OF m, of x] by simp
next
  case (TAddWithTTL now t ttl)
  obtain e m' where r: "ttl_AddTxWithTTL HashTx now m t ttl = Some (e, m')"
    using ttl_AddTxWithTTL_total [of HashTx m now t ttl] m by (auto simp: ttl_inv_def)
  then show ?thesis
    using ttl_AddTxWithTTL_contract [OF _ r] m TAddWithTTL by (simp add: ttl_inv_def)
next
  case (TRemoveExpired now ks)
  from m obtain n m' where "ttl_removeExpired now ks m = Some (n, m')" "ttl_inv HashTx m'"
    by (rule ttl_removeExpired_total)
  then show ?thesis using TRemoveExpired by simp
qed (use m in \<open>simp_all add: ttl_inv_Extend ttl_inv_Set\<close>)

lemma ttl_inv_new: "ttl_inv HashTx (NewTTLMempool maxTxs maxBytes maxTxSize ttl ci pf)"
  by (simp add: ttl_inv_def pool_inv_def shape_inv_def NewTTLMempool_def heap_ok_def heap_ordered_def
      heap_upto_def linked_def pool_weight_def pool_stored_def time_Minute_def)

section \<open>Properties\<close>


text \<open>
  C19: A cleanup run removes exactly the expired transactions: what is left is what was not
  expired, the count returned is the number of entries removed, and at that time \<open>Size\<close> and
  \<open>SizeActive\<close> agree.
\<close>

theorem ttl_removeExpired_exact:
  assumes m: "ttl_inv HashTx m" and ks: "enumerates ks (pm_txs m)"
  shows "\<exists>n m'. ttl_removeExpired now ks m = Some (n, m') \<and>
    pool_stored m' = fmfilter (ttl_live now m) (pool_stored m) \<and>
    ttl_Size m' + int n = ttl_Size m \<and> ttl_Size m' = ttl_SizeActive now ks m \<and>
    (\<forall>h. fmlookup (pool_stored m') h \<noteq> None \<longrightarrow> ttl_HasTx now m' h)"
proof -
  let ?P = "\<lambda>k. case fmlookup (pm_txs m) k of Some a \<Rightarrow> expired now m a | None \<Rightarrow> False"
  let ?Q = "\<lambda>k. case fmlookup (pm_txs m) k of Some a \<Rightarrow> \<not> expired now m a | None \<Rightarrow> False"
  let ?exp = "filter ?P ks"
  have PQ: "?Q k \<longleftrightarrow> \<not> ?P k" if k: "k \<in> set ks" for k
    using enumerates_lookup [OF ks, of k] k by (auto split: option.splits)
  obtain m' where m': "ttl_RemoveTxs m ?exp = Some m'"
    using pool_RemoveTxs_total [of HashTx m ?exp] m by (auto simp: ttl_RemoveTxs_def ttl_inv_def)
  note c = ttl_RemoveTxs_contract [OF m m']
  have exp: "k \<in> set ?exp \<longleftrightarrow> ?P k" for k
    using enumerates_lookup [OF ks, of k] by (auto split: option.splits)
  have "pool_stored m' = fmfilter (ttl_live now m) (pool_stored m)"
  proof (rule fmap_ext)
    fix h
    have "h \<in> set ?exp \<longleftrightarrow> fmlookup (pm_txs m) h \<noteq> None \<and> \<not> ttl_live now m h"
      using exp [of h] by (auto simp: ttl_live_def split: option.splits)
    then show "fmlookup (pool_stored m') h = fmlookup (fmfilter (ttl_live now m) (pool_stored m)) h"
      using c by (auto simp: pool_stored_lookup)
  qed
  moreover have len: "length (filter ?Q ks) + length ?exp = length ks"
    using sum_length_filter_compl [of ?P ks] filter_cong [OF refl PQ, of ks] by simp
  moreover have "enumerates (filter ?Q ks) (pm_txs m')"
    using c ks exp PQ by (auto simp: enumerates_def)
  then have "map_len (pm_txs m') = length (filter ?Q ks)" by (rule map_len_enumerates)
  moreover have "map_len (pm_txs m) = length ks" using ks by (rule map_len_enumerates)
  moreover have "ttl_HasTx now m' h" if h: "fmlookup (pool_stored m') h \<noteq> None" for h
  proof -
    obtain a where a: "fmlookup (pm_txs m') h = Some a" using h by (auto simp: pool_stored_lookup)
    then have "fmlookup (pm_txs m) h = Some a" "h \<notin> set ?exp" using c by (auto split: if_splits)
    moreover have "pm_rest m' = pm_rest m" using c by blast
    ultimately show ?thesis
      using a exp [of h] ttl_rest_agree(1) [of m' m a] by (simp add: ttl_HasTx_def expired_def) blast
  qed
  ultimately show ?thesis
    using m' by (intro exI [of _ "length ?exp"] exI [of _ m'])
      (simp add: ttl_removeExpired_def ttl_RemoveTxs_def ttl_Size_def ttl_SizeActive_def)
qed

text \<open>
  C20: \<open>TTLMempool.ReapTxs\<close> lists exactly the transactions that are not expired at the time of
  the call, by priority, highest first, up to the byte limit in force.
\<close>

theorem ttl_reap_unexpired_sorted:
  assumes m: "ttl_inv HashTx m" and limit: "limit = (if b \<le> 0 then pm_maxBytes m else b)"
  shows "\<exists>hs n. distinct hs \<and> set hs = {h. ttl_HasTx now m h} \<and>
    sorted_wrt (\<lambda>h k. ttl_GetPriority m k \<le> ttl_GetPriority m h) hs \<and>
    ttl_ReapTxs now m b = map (\<lambda>h. the (fmlookup (pool_stored m) h)) (take n hs) \<and>
    (0 < limit \<longrightarrow> total_len (ttl_ReapTxs now m b) \<le> limit) \<and>
    (n < length hs \<longrightarrow> 0 < limit \<and>
       limit < total_len (ttl_ReapTxs now m b @ [the (fmlookup (pool_stored m) (hs ! n))]))"
proof -
  let ?live = "filter (\<lambda>a. \<not> expired now m a) (pm_heap m)"
  let ?lk = "\<lambda>h. the (fmlookup (pool_stored m) h)"
  obtain as where as: "mset as = mset ?live" "sorted_wrt (\<lambda>x y. pm_prio m y \<le> pm_prio m x) as"
    "ttl_ReapTxs now m b = take_fitting limit 0 (map (\<lambda>a. mt_tx (pm_objs m a)) as)"
    using ttl_ReapTxs_eq [of now m b] limit by blast
  have sh: "shape_inv HashTx m" and l: "linked HashTx m" and d: "distinct (pm_heap m)"
    using m by (simp_all add: ttl_inv_def pool_inv_def shape_inv_def heap_ok_def)
  have set: "set as = set ?live" using as(1) by (rule mset_eq_setD)
  define hs where "hs = map (\<lambda>a. mt_hash (pm_objs m a)) as"
  have txs: "map (\<lambda>a. mt_tx (pm_objs m a)) as = map ?lk hs"
    using heap_entry_stored [OF sh] set by (simp add: hs_def)
  have look: "fmlookup (pm_txs m) (mt_hash (pm_objs m a)) = Some a" if "a \<in> set (pm_heap m)" for a
    using linked_heap [OF l that] by simp
  have "inj_on (\<lambda>a. mt_hash (pm_objs m a)) (set as)"
  proof (rule inj_onI)
    fix x y
    assume xy: "x \<in> set as" "y \<in> set as" "mt_hash (pm_objs m x) = mt_hash (pm_objs m y)"
    then have "x \<in> set (pm_heap m)" "y \<in> set (pm_heap m)" by (simp_all add: set)
    then have "Some x = Some y" using look [of x] look [of y] xy(3) by metis
    then show "x = y" by simp
  qed
  then have "distinct hs"
    using d mset_eq_imp_distinct_iff [OF as(1)] by (simp add: hs_def distinct_map)
  moreover have "set hs = {h. ttl_HasTx now m h}"
  proof (intro set_eqI iffI)
    fix h
    assume "h \<in> set hs"
    then show "h \<in> {h. ttl_HasTx now m h}" by (auto simp: hs_def set ttl_HasTx_def look)
  next
    fix h
    assume "h \<in> {h. ttl_HasTx now m h}"
    then obtain a where a: "fmlookup (pm_txs m) h = Some a" "\<not> expired now m a"
      by (auto simp: ttl_HasTx_def split: option.splits)
    with linked_lookup [OF l a(1)] show "h \<in> set hs" by (auto simp: hs_def set)
  qed
  moreover have "sorted_wrt (\<lambda>h k. ttl_GetPriority m k \<le> ttl_GetPriority m h) hs"
    unfolding hs_def sorted_wrt_map
    by (rule sorted_wrt_mono_rel [OF _ as(2)]) (simp add: ttl_GetPriority_def look set)
  moreover obtain n where n: "ttl_ReapTxs now m b = take n (map ?lk hs)"
    using take_fitting_prefix [of limit 0] unfolding as(3) txs by blast
  moreover have "0 < limit \<and> limit < total_len (ttl_ReapTxs now m b @ [?lk (hs ! n)])"
    if nl: "n < length hs"
  proof -
    have "map ?lk hs = take n (map ?lk hs) @ map ?lk hs ! n # drop (Suc n) (map ?lk hs)"
      using nl by (intro id_take_nth_drop) simp
    from take_fitting_maximal [OF n [unfolded as(3) txs] this] show ?thesis using n nl by simp
  qed
  ultimately show ?thesis
    using take_fitting_bound [of limit 0 "map (\<lambda>a. mt_tx (pm_objs m a)) as"] as(3)
    by (intro exI [of _ hs] exI [of _ n]) (simp add: take_map)
qed

text \<open>
  C21: As long as its validator is not replaced, every transaction a \<open>TTLMempool\<close> holds after
  any interface calls was accepted by the validator that was set at the start; with no
  validator set it stays empty.
\<close>

theorem ttl_only_validated:
  assumes run: "mempool_run (ttl_mempool HashTx)
      (ttl_SetTxValidator (NewTTLMempool maxTxs maxBytes maxTxSize ttl ci pf) v) cs = Some m"
    and cs: "\<forall>w. CallSetValidator w \<notin> set cs"
  shows "\<forall>h tx. fmlookup (pool_stored m) h = Some tx \<longrightarrow> effective_validator v tx = None \<and> h = HashTx tx"
proof (intro allI impI)
  fix h tx
  assume h: "fmlookup (pool_stored m) h = Some tx"
  define m0 where "m0 = ttl_SetTxValidator (NewTTLMempool maxTxs maxBytes maxTxSize ttl ci pf) v"
  have m0: "ttl_inv HashTx m0"
    using ttlpool.set_validator [OF ttl_inv_new [of HashTx maxTxs maxBytes maxTxSize ttl ci pf], of v]
    unfolding m0_def ttl_mempool_def by simp
  have init: "pool_stored m0 = fmempty" "pm_validator m0 = v"
    by (simp_all add: m0_def ttl_SetTxValidator_def NewTTLMempool_def pool_stored_def)
  note run = run [folded m0_def]
  have "ttl_inv HashTx m" using ttlpool.run_inv [OF m0, of cs] run by simp
  then have "h = HashTx tx" using h by (rule ttlpool.keyed)
  moreover have "fmlookup (pool_stored m0) h = Some tx \<or> effective_validator (pm_validator m0) tx = None"
    using m0 cs run h by (rule ttlpool.run_accepted)
  then have "effective_validator v tx = None" by (simp add: init)
  ultimately show "effective_validator v tx = None \<and> h = HashTx tx" by blast
qed

section \<open>Witnesses\<close>

text \<open>Two transactions; at time 10 the first has expired.\<close>

definition ex_ttl_pool :: ttlMempool where
  "ex_ttl_pool =
     \<lparr>pm_objs = (\<lambda>_. empty_ttlTx)
        (0 := \<lparr>mt_hash = [1], mt_tx = [1], mt_priority = 3, mt_addedAt = 0, mt_heapIndex = 1,
               tt_expiresAt = 5\<rparr>,
         1 := \<lparr>mt_hash = [2, 2], mt_tx = [2, 2], mt_priority = 5, mt_addedAt = 0, mt_heapIndex = 0,
               tt_expiresAt = 20\<rparr>),
      pm_next = 2, pm_txs = fmupd [2, 2] 1 (fmupd [1] 0 fmempty), pm_heap = [1, 0], pm_maxTxs = 2,
      pm_maxBytes = 3, pm_priorityFunc = (\<lambda>tx. 4), pm_validator = Some AcceptAllTxValidator,
      pm_sizeBytes = 3, tm_maxTxSize = 0, tm_ttl = 1, tm_cleanupInterval = 1, tm_stopped = False\<rparr>"

lemma ex_ttl_pool_inv: "ttl_inv (\<lambda>tx. tx) ex_ttl_pool"
  by (simp add: ttl_inv_def pool_inv_def shape_inv_def ex_ttl_pool_def heap_ok_def heap_ordered_def
      heap_upto_def linked_def pool_weight_def pool_stored_def pm_prio_def parent_def
      less_Suc_eq all_conj_distrib map_len_simps weight_simps)

theorem ttl_removeExpired_exact_witness:
  "\<exists>n m'. ttl_removeExpired 10 [[1], [2, 2]] ex_ttl_pool = Some (n, m') \<and>
     ttl_Size m' + int n = 2 \<and> ttl_Size m' = 1 \<and>
     pool_stored m' = fmfilter (ttl_live 10 ex_ttl_pool) (pool_stored ex_ttl_pool)"
proof -
  have "enumerates [[1], [2, 2]] (pm_txs ex_ttl_pool)"
    by (simp add: enumerates_def ex_ttl_pool_def insert_commute)
  moreover have "ttl_SizeActive 10 [[1], [2, 2]] ex_ttl_pool = 1" "ttl_Size ex_ttl_pool = 2"
    by (simp_all add: ttl_SizeActive_def ttl_Size_def expired_def ex_ttl_pool_def map_len_simps)
  ultimately show ?thesis
    using ttl_removeExpired_exact [OF ex_ttl_pool_inv, of "[[1], [2, 2]]" 10] by fastforce
qed

theorem ttl_reap_unexpired_sorted_witness:
  "ttl_ReapTxs 10 ex_ttl_pool 0 = [[2, 2]] \<and>
   (\<exists>hs n. set hs = {h. ttl_HasTx 10 ex_ttl_pool h} \<and>
      ttl_ReapTxs 10 ex_ttl_pool 0 = map (\<lambda>h. the (fmlookup (pool_stored ex_ttl_pool) h)) (take n hs))"
proof -
  have "ttl_ReapTxs 10 ex_ttl_pool 0 = [[2, 2]]"
    by (simp add: ttl_ReapTxs_def ex_ttl_pool_def sort_outer.simps sort_inner.simps expired_def)
  then show ?thesis
    using ttl_reap_unexpired_sorted [OF ex_ttl_pool_inv refl, of 10 0] by blast
qed

theorem ttl_only_validated_witness:
  "\<exists>m. mempool_run (ttl_mempool (\<lambda>tx. tx))
         (ttl_SetTxValidator (NewTTLMempool 0 0 0 0 0 None) (Some (\<lambda>tx. if tx = [9] then None else Some ErrInvalidTx)))
         [CallAdd 0 (Some [8]), CallAdd 0 (Some [9])] = Some m \<and>
     fmlookup (pool_stored m) [9] = Some [9] \<and> fmlookup (pool_stored m) [8] = None"
proof -
  let ?v = "Some (\<lambda>tx. if tx = [9] then None else Some ErrInvalidTx)"
  let ?m0 = "ttl_SetTxValidator (NewTTLMempool 0 0 0 0 0 None) ?v"
  let ?cs = "[CallAdd 0 (Some [8]), CallAdd 0 (Some [9])]"
  have "\<exists>m. mempool_run (ttl_mempool (\<lambda>tx. tx)) ?m0 ?cs = Some m \<and>
      fmlookup (pool_stored m) [9] = Some [9]"
    by (simp add: ttl_mempool_def ttl_SetTxValidator_def NewTTLMempool_def ttl_AddTx_def
        ttl_AddTxWithTTL_def pool_AddTx_def Let_def evict_for_bytes.simps pool_insert_def heap_Push_def
        txHeap_Push_def set_heapIndex_def heap_up.simps parent_def pool_stored_def)
  then obtain m where m: "mempool_run (ttl_mempool (\<lambda>tx. tx)) ?m0 ?cs = Some m"
    "fmlookup (pool_stored m) [9] = Some [9]" by blast
  have "\<forall>h tx. fmlookup (pool_stored m) h = Some tx \<longrightarrow> effective_validator ?v tx = None \<and> h = tx"
    using ttl_only_validated [OF m(1)] by simp
  then have "fmlookup (pool_stored m) [8] \<noteq> Some tx" for tx by (cases "tx = [8]") fastforce+
  then have "fmlookup (pool_stored m) [8] = None" by (cases "fmlookup (pool_stored m) [8]") blast+
  with m show ?thesis by blast
qed

end
