(* ===== verification/Validation.thy ===== *)
theory Validation
  imports Prelude
begin

text \<open>\<open>pkg/types/validation.go\<close>: the limits and checks that the message handlers apply to their input.\<close>

section \<open>Limits\<close>

definition MaxBatchSize :: int where "MaxBatchSize = 1000"
definition MinBatchSize :: int where "MinBatchSize = 1"
definition MaxBlockHeight :: int where "MaxBlockHeight = 2 ^ 62 - 1"
definition MaxMessageSize :: int where "MaxMessageSize = 10 * 1024 * 1024"
definition MaxTransactionSize :: int where "MaxTransactionSize = 1 * 1024 * 1024"
definition MaxKeySize :: int where "MaxKeySize = 1024"
definition MaxValueSize :: int where "MaxValueSize = 10 * 1024 * 1024"
definition MaxAddressesPerResponse :: int where "MaxAddressesPerResponse = 100"
definition MaxPeers :: int where "MaxPeers = 1000"

section \<open>Checks\<close>

definition ValidateHeight :: "int \<Rightarrow> error option" where
  "ValidateHeight height =
     (if height < 0 then Some ErrInvalidHeight
      else if height > MaxBlockHeight then Some ErrInvalidHeight
      else None)"

definition ValidateHeightRange :: "int \<Rightarrow> int \<Rightarrow> error option" where
  "ValidateHeightRange from to =
     (case ValidateHeight from of
        Some e \<Rightarrow> Some e
      | None \<Rightarrow>
          (case ValidateHeight to of
             Some e \<Rightarrow> Some e
           | None \<Rightarrow> if from > to then Some ErrInvalidHeight else None))"

definition ValidateBatchSize :: "int \<Rightarrow> int \<Rightarrow> error option" where
  "ValidateBatchSize sz maxSize0 =
     (let maxSize = (if maxSize0 \<le> 0 then MaxBatchSize else maxSize0) in
      if sz < MinBatchSize then Some ErrInvalidBatchSize
      else if sz > maxSize then Some ErrInvalidBatchSize
      else None)"

definition ValidateMessageSize :: "int \<Rightarrow> error option" where
  "ValidateMessageSize sz =
     (if sz \<le> 0 then Some ErrInvalidSize
      else if sz > MaxMessageSize then Some ErrDataTooLarge
      else None)"

definition ValidateTransactionSize :: "int \<Rightarrow> error option" where
  "ValidateTransactionSize sz =
     (if sz \<le> 0 then Some ErrInvalidSize
      else if sz > MaxTransactionSize then Some ErrDataTooLarge
      else None)"

definition ValidateKeySize :: "bytes \<Rightarrow> error option" where
  "ValidateKeySize key =
     (if length key = 0 then Some ErrEmptyData
      else if int (length key) > MaxKeySize then Some ErrDataTooLarge
      else None)"

definition ValidateValueSize :: "bytes \<Rightarrow> error option" where
  "ValidateValueSize val =
     (if length val = 0 then Some ErrEmptyData
      else if int (length val) > MaxValueSize then Some ErrDataTooLarge
      else None)"

definition ValidateHash :: "bytes \<Rightarrow> int \<Rightarrow> error option" where
  "ValidateHash hash expectedLen =
     (if length hash = 0 then Some ErrEmptyData
      else if expectedLen > 0 \<and> int (length hash) \<noteq> expectedLen then Some ErrInvalidSize
      else None)"

text \<open>The height is a pointer that may be nil.\<close>

definition ValidateBlockData :: "int option \<Rightarrow> bytes \<Rightarrow> bytes \<Rightarrow> error option" where
  "ValidateBlockData height hash data =
     (case (case height of None \<Rightarrow> None | Some h \<Rightarrow> ValidateHeight h) of
        Some e \<Rightarrow> Some e
      | None \<Rightarrow>
          (case ValidateHash hash 0 of
             Some e \<Rightarrow> Some e
           | None \<Rightarrow>
               if length data = 0 then Some ErrEmptyData
               else if int (length data) > MaxMessageSize then Some ErrDataTooLarge
               else None))"

definition ValidatePeerCount :: "int \<Rightarrow> error option" where
  "ValidatePeerCount cnt =
     (if cnt < 0 then Some ErrInvalidSize
      else if cnt > MaxPeers then Some ErrInvalidSize
      else None)"

definition ValidateAddressCount :: "int \<Rightarrow> error option" where
  "ValidateAddressCount cnt =
     (if cnt < 0 then Some ErrInvalidSize
      else if cnt > MaxAddressesPerResponse then Some ErrInvalidSize
      else None)"

text \<open>
  A value of type \<open>any\<close> as \<open>isNil\<close> can tell it apart: the nil interface, a pointer of one of the
  listed types with the bit that it is nil, or anything else.
\<close>

datatype pointerType = PInt | PInt32 | PInt64 | PUint | PUint32 | PUint64 | PString | PBool | PFloat32
  | PFloat64 | PBytes

datatype anyValue = NilInterface | Pointer pointerType bool | OtherPointer bool | NonPointer

definition isNil :: "anyValue \<Rightarrow> bool" where
  "isNil v = (case v of NilInterface \<Rightarrow> True | Pointer t null \<Rightarrow> null | OtherPointer null \<Rightarrow> False | NonPointer \<Rightarrow> False)"

definition MustNotBeNil :: "anyValue \<Rightarrow> string \<Rightarrow> error option" where
  "MustNotBeNil ptr name = (if isNil ptr then Some (ErrOther (name @ '' is required'')) else None)"

definition ClampBatchSize :: "int \<Rightarrow> int \<Rightarrow> int" where
  "ClampBatchSize sz maxSize0 =
     (let maxSize = (if maxSize0 \<le> 0 then MaxBatchSize else maxSize0) in
      if sz < MinBatchSize then MinBatchSize
      else if sz > maxSize then maxSize
      else sz)"

section \<open>Facts the handlers use\<close>

lemma ValidateHeight_None_iff: "ValidateHeight h = None \<longleftrightarrow> 0 \<le> h \<and> h \<le> MaxBlockHeight"
  by (auto simp: ValidateHeight_def)

text \<open>A valid height can be incremented and doubled without overflow.\<close>

lemma valid_height_no_overflow:
  "ValidateHeight h = None \<Longrightarrow> in_i64 (h + 1) \<and> in_i64 (2 * h)"
  by (simp add: ValidateHeight_None_iff MaxBlockHeight_def in_i64_def)

text \<open>Clamping gives a valid sz, the nearest one, and leaves a valid sz alone.\<close>

lemma ClampBatchSize_valid: "ValidateBatchSize (ClampBatchSize sz m) m = None"
  by (auto simp: ValidateBatchSize_def ClampBatchSize_def Let_def MaxBatchSize_def MinBatchSize_def)

lemma ClampBatchSize_id: "ValidateBatchSize sz m = None \<Longrightarrow> ClampBatchSize sz m = sz"
  by (auto simp: ValidateBatchSize_def ClampBatchSize_def Let_def split: if_splits)

lemma ClampBatchSize_nearest:
  "ValidateBatchSize s m = None \<Longrightarrow> \<bar>sz - ClampBatchSize sz m\<bar> \<le> \<bar>sz - s\<bar>"
  by (auto simp: ValidateBatchSize_def ClampBatchSize_def Let_def split: if_splits)

lemma ValidateBlockData_None_iff:
  "ValidateBlockData (Some h) hash data = None \<longleftrightarrow>
     0 \<le> h \<and> h \<le> MaxBlockHeight \<and> hash \<noteq> [] \<and> data \<noteq> [] \<and> int (length data) \<le> MaxMessageSize"
  by (auto simp: ValidateBlockData_def ValidateHash_def ValidateHeight_def split: option.splits if_splits)

end
