(* ===== verification/VoteSet.thy ===== *)
theory VoteSet
  imports ValidatorSet
begin

text \<open>
  \<open>pkg/consensus/bft/types.go\<close>: \<open>RoundVoteSet\<close> and \<open>HeightVoteSet\<close> over any implementation of the
  \<open>ValidatorSet\<close> interface. Where the code ranges over the map of vote counts, the order is the
  argument \<open>ks\<close>; the results are shown not to depend on it.
\<close>

section \<open>Votes\<close>

record vote =
  vt_Type :: int
  vt_Height :: int
  vt_Round :: int
  vt_BlockHash :: bytes
  vt_ValidatorIndex :: "16 word"
  vt_Signature :: bytes

abbreviation VoteTypePrevote :: int where
  "VoteTypePrevote \<equiv> 1"

abbreviation VoteTypePrecommit :: int where
  "VoteTypePrecommit \<equiv> 2"

section \<open>RoundVoteSet\<close>

record 'v roundVoteSet =
  rv_round :: int
  rv_validatorSet :: "'v option"
  rv_voteType :: int
  rv_votes :: "vote option list"
  rv_voteCounts :: "(bytes, int) fmap"

definition NewRoundVoteSet ::
  "('v, 'z) validatorSet_scheme \<Rightarrow> int \<Rightarrow> 'v option \<Rightarrow> int \<Rightarrow> 'v roundVoteSet" where
  "NewRoundVoteSet V rnd valSet voteType =
     (let count = (case valSet of None \<Rightarrow> 0 | Some vs \<Rightarrow> Count V vs)
      in \<lparr>rv_round = rnd, rv_validatorSet = valSet, rv_voteType = voteType,
          rv_votes = replicate count None, rv_voteCounts = fmempty\<rparr>)"

definition rvs_AddVote ::
  "('v, 'z) validatorSet_scheme \<Rightarrow> 'v roundVoteSet \<Rightarrow> vote \<Rightarrow> bool \<times> 'v roundVoteSet" where
  "rvs_AddVote V rvs vote =
     (if vt_Type vote \<noteq> rv_voteType rvs \<or> vt_Round vote \<noteq> rv_round rvs then (False, rvs)
      else
        let idx = unat (vt_ValidatorIndex vote) in
        if idx \<ge> length (rv_votes rvs) then (False, rvs)
        else if rv_votes rvs ! idx \<noteq> None then (False, rvs)
        else
          let votingPower = (case rv_validatorSet rvs of
                None \<Rightarrow> 0
              | Some vs \<Rightarrow> (case GetByIndex V vs (vt_ValidatorIndex vote) of
                    None \<Rightarrow> 0 | Some v \<Rightarrow> v_VotingPower v));
              key = vt_BlockHash vote;
              old = (case fmlookup (rv_voteCounts rvs) key of None \<Rightarrow> 0 | Some c \<Rightarrow> c)
          in (True, rvs\<lparr>rv_votes := (rv_votes rvs)[idx := Some vote],
                        rv_voteCounts := fmupd key (i64 (old + votingPower)) (rv_voteCounts rvs)\<rparr>))"

text \<open>\<open>None\<close> is the result \<open>false, nil\<close>.\<close>

definition rvs_HasTwoThirdsMajority ::
  "('v, 'z) validatorSet_scheme \<Rightarrow> 'v roundVoteSet \<Rightarrow> bytes list \<Rightarrow> bytes option" where
  "rvs_HasTwoThirdsMajority V rvs ks =
     (case rv_validatorSet rvs of
        None \<Rightarrow> None
      | Some vs \<Rightarrow>
          let quorum = Quorum V vs
          in List.find (\<lambda>hash. the (fmlookup (rv_voteCounts rvs) hash) \<ge> quorum) ks)"

definition rvs_GetVotesByBlock :: "'v roundVoteSet \<Rightarrow> bytes \<Rightarrow> vote list" where
  "rvs_GetVotesByBlock rvs blockHash =
     List.map_filter (\<lambda>vote. case vote of
        None \<Rightarrow> None | Some v \<Rightarrow> if vt_BlockHash v = blockHash then Some v else None) (rv_votes rvs)"

definition rvs_TotalVotingPower :: "'v roundVoteSet \<Rightarrow> bytes list \<Rightarrow> int" where
  "rvs_TotalVotingPower rvs ks =
     fold (\<lambda>k total. i64 (total + the (fmlookup (rv_voteCounts rvs) k))) ks 0"

section \<open>HeightVoteSet\<close>

record 'v heightVoteSet =
  hv_height :: int
  hv_validatorSet :: "'v option"
  hv_rounds :: "(int, 'v roundVoteSet) fmap"

definition NewHeightVoteSet :: "int \<Rightarrow> 'v option \<Rightarrow> 'v heightVoteSet" where
  "NewHeightVoteSet height valSet = \<lparr>hv_height = height, hv_validatorSet = valSet, hv_rounds = fmempty\<rparr>"

definition hvs_AddVote ::
  "('v, 'z) validatorSet_scheme \<Rightarrow> 'v heightVoteSet \<Rightarrow> vote \<Rightarrow> bool \<times> 'v heightVoteSet" where
  "hvs_AddVote V hvs vote =
     (if vt_Height vote \<noteq> hv_height hvs then (False, hvs)
      else
        let rvs = (case fmlookup (hv_rounds hvs) (vt_Round vote) of
              Some rvs \<Rightarrow> rvs
            | None \<Rightarrow> NewRoundVoteSet V (vt_Round vote) (hv_validatorSet hvs) (vt_Type vote))
        in (case rvs_AddVote V rvs vote of
              (added, rvs') \<Rightarrow> (added, hvs\<lparr>hv_rounds := fmupd (vt_Round vote) rvs' (hv_rounds hvs)\<rparr>)))"

definition hvs_GetVotes :: "'v heightVoteSet \<Rightarrow> int \<Rightarrow> 'v roundVoteSet option" where
  "hvs_GetVotes hvs rnd = fmlookup (hv_rounds hvs) rnd"

definition hvs_HasTwoThirdsMajority ::
  "('v, 'z) validatorSet_scheme \<Rightarrow> 'v heightVoteSet \<Rightarrow> int \<Rightarrow> bytes list \<Rightarrow> bytes option" where
  "hvs_HasTwoThirdsMajority V hvs rnd ks =
     (case fmlookup (hv_rounds hvs) rnd of None \<Rightarrow> None | Some rvs \<Rightarrow> rvs_HasTwoThirdsMajority V rvs ks)"

fun hvs_add_votes :: "('v, 'z) validatorSet_scheme \<Rightarrow> 'v heightVoteSet \<Rightarrow> vote list \<Rightarrow> 'v heightVoteSet" where
  "hvs_add_votes V hvs [] = hvs"
| "hvs_add_votes V hvs (vote # votes) = hvs_add_votes V (snd (hvs_AddVote V hvs vote)) votes"

section \<open>What is counted\<close>

text \<open>The positions of the validators whose stored vote is for \<open>h\<close>.\<close>

definition voters :: "'v roundVoteSet \<Rightarrow> bytes \<Rightarrow> nat set" where
  "voters rvs h = {i. i < length (rv_votes rvs) \<and> (\<exists>v. rv_votes rvs ! i = Some v \<and> vt_BlockHash v = h)}"

context validator_set
begin

definition rvs_ok :: "'v \<Rightarrow> 'v roundVoteSet \<Rightarrow> bool" where
  "rvs_ok vs rvs \<longleftrightarrow> inv vs \<and> rv_validatorSet rvs = Some vs \<and> length (rv_votes rvs) = length (members vs) \<and>
     (\<forall>i < length (rv_votes rvs). \<forall>v. rv_votes rvs ! i = Some v \<longrightarrow>
        unat (vt_ValidatorIndex v) = i \<and> vt_Type v = rv_voteType rvs \<and> vt_Round v = rv_round rvs) \<and>
     (\<forall>h. fmlookup (rv_voteCounts rvs) h =
        (if voters rvs h = {} then None else Some (power_at (members vs) (voters rvs h))))"

lemma rvs_ok_new: "inv vs \<Longrightarrow> rvs_ok vs (NewRoundVoteSet V r (Some vs) t)"
  by (simp add: rvs_ok_def NewRoundVoteSet_def count voters_def)

lemma voters_bound: "rvs_ok vs rvs \<Longrightarrow> voters rvs h \<subseteq> {..<length (members vs)}"
  by (auto simp: rvs_ok_def voters_def)

lemma power_at_in_range:
  assumes "inv vs" "A \<subseteq> {..<length (members vs)}"
  shows "0 \<le> power_at (members vs) A" "power_at (members vs) A \<le> TotalVotingPower V vs"
    "in_i64 (power_at (members vs) A)"
proof -
  show l: "0 \<le> power_at (members vs) A"
    using power_at_mono [OF assms(1) _ assms(2), of "{}"] by (simp add: power_at_def)
  show u: "power_at (members vs) A \<le> TotalVotingPower V vs"
    unfolding total [OF assms(1)] by (rule power_at_mono [OF assms]) simp
  show "in_i64 (power_at (members vs) A)"
    using l u total_range [OF assms(1)] by (simp add: in_i64_def)
qed

lemma voters_update:
  assumes "idx < length (rv_votes rvs)" "rv_votes rvs ! idx = None"
  shows "voters (rvs\<lparr>rv_votes := (rv_votes rvs)[idx := Some vote], rv_voteCounts := c\<rparr>) h =
    (if vt_BlockHash vote = h then insert idx (voters rvs h) else voters rvs h)"
  using assms by (auto simp: voters_def nth_list_update split: if_splits)

lemma rvs_ok_AddVote:
  assumes ok: "rvs_ok vs rvs"
  shows "rvs_ok vs (snd (rvs_AddVote V rvs vote))"
proof -
  let ?idx = "unat (vt_ValidatorIndex vote)" and ?h = "vt_BlockHash vote"
  show ?thesis
  proof (cases "vt_Type vote \<noteq> rv_voteType rvs \<or> vt_Round vote \<noteq> rv_round rvs \<or>
      ?idx \<ge> length (rv_votes rvs) \<or> rv_votes rvs ! ?idx \<noteq> None")
    case True
    then have "snd (rvs_AddVote V rvs vote) = rvs" by (auto simp: rvs_AddVote_def Let_def)
    then show ?thesis using ok by simp
  next
    case False
    then have f: "vt_Type vote = rv_voteType rvs" "vt_Round vote = rv_round rvs"
      "?idx < length (rv_votes rvs)" "rv_votes rvs ! ?idx = None" by simp_all
    have vs: "inv vs" "rv_validatorSet rvs = Some vs" "length (rv_votes rvs) = length (members vs)"
      using ok by (simp_all add: rvs_ok_def)
    have new: "?idx \<notin> voters rvs ?h" using f(4) by (simp add: voters_def)
    have bound: "insert ?idx (voters rvs ?h) \<subseteq> {..<length (members vs)}"
      using voters_bound [OF ok] f(3) vs(3) by simp
    have fin: "finite (voters rvs ?h)" using voters_bound [OF ok] finite_subset by blast
    define old where "old = (case fmlookup (rv_voteCounts rvs) ?h of None \<Rightarrow> 0 | Some c \<Rightarrow> c)"
    have old: "old = power_at (members vs) (voters rvs ?h)"
      using ok by (simp add: old_def rvs_ok_def power_at_def)
    have sum: "old + v_VotingPower (members vs ! ?idx) = power_at (members vs) (insert ?idx (voters rvs ?h))"
      using new fin by (simp add: old power_at_def)
    define c where "c = fmupd ?h (power_at (members vs) (insert ?idx (voters rvs ?h))) (rv_voteCounts rvs)"
    have eq: "snd (rvs_AddVote V rvs vote) = rvs\<lparr>rv_votes := (rv_votes rvs)[?idx := Some vote], rv_voteCounts := c\<rparr>"
    proof -
      have get: "GetByIndex V vs (vt_ValidatorIndex vote) = Some (members vs ! ?idx)"
        using by_index [OF vs(1), of "vt_ValidatorIndex vote"] f(3) vs(3) by simp
      have "i64 (old + v_VotingPower (members vs ! ?idx)) = power_at (members vs) (insert ?idx (voters rvs ?h))"
        unfolding sum by (rule i64_id [OF power_at_in_range(3) [OF vs(1) bound]])
      then show ?thesis
        using f vs(2) by (simp add: rvs_AddVote_def Let_def get c_def old_def)
    qed
    have cnt: "fmlookup c h = (if (if ?h = h then insert ?idx (voters rvs h) else voters rvs h) = {} then None
        else Some (power_at (members vs) (if ?h = h then insert ?idx (voters rvs h) else voters rvs h)))" for h
      using ok by (simp add: c_def rvs_ok_def)
    have stored: "unat (vt_ValidatorIndex v) = i \<and> vt_Type v = rv_voteType rvs \<and> vt_Round v = rv_round rvs"
      if "i < length (rv_votes rvs)" "(rv_votes rvs)[?idx := Some vote] ! i = Some v" for i v
    proof (cases "i = ?idx")
      case True
      then have "v = vote" using that nth_list_update_eq [OF f(3), of "Some vote"] by simp
      then show ?thesis using True f by simp
    next
      case False
      then have "rv_votes rvs ! i = Some v" using that(2) by simp
      then show ?thesis using ok that(1) unfolding rvs_ok_def by blast
    qed
    let ?r = "rvs\<lparr>rv_votes := (rv_votes rvs)[?idx := Some vote], rv_voteCounts := c\<rparr>"
    have sel: "rv_votes ?r = (rv_votes rvs)[?idx := Some vote]" "rv_voteCounts ?r = c"
      "rv_validatorSet ?r = Some vs" "rv_voteType ?r = rv_voteType rvs" "rv_round ?r = rv_round rvs"
      using vs(2) by simp_all
    show ?thesis
      unfolding eq rvs_ok_def voters_update [OF f(3,4)] sel length_list_update
      by (intro conjI allI impI vs cnt refl) (use stored in blast)+
  qed
qed

text \<open>A block has a majority when validators with a quorum of the power have voted for it.\<close>

lemma majority_iff:
  assumes ok: "rvs_ok vs rvs" and ks: "enumerates ks (rv_voteCounts rvs)"
  shows "rvs_HasTwoThirdsMajority V rvs ks = Some h \<longleftrightarrow> Quorum V vs \<le> power_at (members vs) (voters rvs h)"
proof -
  have vs: "inv vs" "rv_validatorSet rvs = Some vs" using ok by (simp_all add: rvs_ok_def)
  have dom: "k \<in> set ks \<longleftrightarrow> voters rvs k \<noteq> {}" for k
    using ok ks by (auto simp: enumerates_def rvs_ok_def fmdom'_alt_def fmlookup_dom_iff)
  have count_of: "the (fmlookup (rv_voteCounts rvs) k) = power_at (members vs) (voters rvs k)" if "k \<in> set ks" for k
    using ok that dom [of k] by (simp add: rvs_ok_def)
  have nonneg: "0 \<le> TotalVotingPower V vs" using power_at_in_range [OF vs(1), of "{}"] by simp
  have unique: "a = b" if "Quorum V vs \<le> power_at (members vs) (voters rvs a)"
    "Quorum V vs \<le> power_at (members vs) (voters rvs b)" for a b
  proof (rule ccontr)
    assume "a \<noteq> b"
    then have "voters rvs a \<inter> voters rvs b = {}" by (auto simp: voters_def)
    then show False
      using quorum_overlap [OF vs(1) voters_bound [OF ok] voters_bound [OF ok] that] nonneg by (simp add: power_at_def)
  qed
  have q: "k \<in> set ks" if "Quorum V vs \<le> power_at (members vs) (voters rvs k)" for k
    using that dom quorum_min [OF vs(1)] nonneg by (auto simp: power_at_def)
  let ?P = "\<lambda>hash. the (fmlookup (rv_voteCounts rvs) hash) \<ge> Quorum V vs"
  have find: "rvs_HasTwoThirdsMajority V rvs ks = List.find ?P ks"
    using vs by (simp add: rvs_HasTwoThirdsMajority_def)
  show ?thesis
  proof
    assume "rvs_HasTwoThirdsMajority V rvs ks = Some h"
    then have "h \<in> set ks" "?P h" unfolding find by (auto simp: find_Some_iff)
    then show "Quorum V vs \<le> power_at (members vs) (voters rvs h)" using count_of by simp
  next
    assume h: "Quorum V vs \<le> power_at (members vs) (voters rvs h)"
    then have "?P h" "h \<in> set ks" using q [OF h] count_of by simp_all
    then obtain k where k: "List.find ?P ks = Some k" by (metis (no_types, lifting) find_None_iff not_None_eq)
    then have "k \<in> set ks" "?P k" by (auto simp: find_Some_iff)
    then have "k = h" using unique h count_of by simp
    then show "rvs_HasTwoThirdsMajority V rvs ks = Some h" using k find by simp
  qed
qed

text \<open>Majorities for two blocks, seen by two nodes, have equivocators in common.\<close>

lemma conflicting_majorities:
  assumes a: "rvs_ok vs a" "enumerates ks (rv_voteCounts a)" "rvs_HasTwoThirdsMajority V a ks = Some h"
    and b: "rvs_ok vs b" "enumerates ks' (rv_voteCounts b)" "rvs_HasTwoThirdsMajority V b ks' = Some h'"
  shows "TotalVotingPower V vs < 3 * power_at (members vs) (voters a h \<inter> voters b h')"
proof (rule quorum_overlap [OF _ voters_bound [OF a(1)] voters_bound [OF b(1)]])
  show "inv vs" using a(1) by (simp add: rvs_ok_def)
qed (use a b majority_iff in blast)+

definition hvs_ok :: "'v \<Rightarrow> 'v heightVoteSet \<Rightarrow> bool" where
  "hvs_ok vs hvs \<longleftrightarrow> inv vs \<and> hv_validatorSet hvs = Some vs \<and>
     (\<forall>r rvs. fmlookup (hv_rounds hvs) r = Some rvs \<longrightarrow> rvs_ok vs rvs \<and> rv_round rvs = r)"

lemma rvs_AddVote_frame:
  "rv_round (snd (rvs_AddVote V rvs vote)) = rv_round rvs \<and> rv_voteType (snd (rvs_AddVote V rvs vote)) = rv_voteType rvs"
  by (simp add: rvs_AddVote_def Let_def)

lemma hvs_ok_AddVote:
  assumes ok: "hvs_ok vs hvs"
  shows "hvs_ok vs (snd (hvs_AddVote V hvs vote))"
proof -
  define rvs where "rvs = (case fmlookup (hv_rounds hvs) (vt_Round vote) of Some rvs \<Rightarrow> rvs
      | None \<Rightarrow> NewRoundVoteSet V (vt_Round vote) (hv_validatorSet hvs) (vt_Type vote))"
  have "rvs_ok vs rvs \<and> rv_round rvs = vt_Round vote"
    using ok rvs_ok_new by (auto simp: rvs_def hvs_ok_def NewRoundVoteSet_def Let_def split: option.split)
  then have "rvs_ok vs (snd (rvs_AddVote V rvs vote))" "rv_round (snd (rvs_AddVote V rvs vote)) = vt_Round vote"
    using rvs_ok_AddVote rvs_AddVote_frame by auto
  moreover have "snd (hvs_AddVote V hvs vote) = (if vt_Height vote \<noteq> hv_height hvs then hvs
      else hvs\<lparr>hv_rounds := fmupd (vt_Round vote) (snd (rvs_AddVote V rvs vote)) (hv_rounds hvs)\<rparr>)"
    by (simp add: hvs_AddVote_def Let_def rvs_def [symmetric] case_prod_beta)
  ultimately show ?thesis using ok by (auto simp: hvs_ok_def split: if_splits)
qed

lemma hvs_ok_add_votes: "hvs_ok vs hvs \<Longrightarrow> hvs_ok vs (hvs_add_votes V hvs votes)"
  by (induction votes arbitrary: hvs) (simp_all add: hvs_ok_AddVote)

lemma hvs_ok_new: "inv vs \<Longrightarrow> hvs_ok vs (NewHeightVoteSet h (Some vs))"
  by (simp add: hvs_ok_def NewHeightVoteSet_def)

end

section \<open>Properties\<close>


text \<open>
  C2: When two nodes with the same validator set see majorities for two different blocks in one
  round and of one type, then validators with more than a third of the power have voted for
  both: each of them has a vote for one block at the one node and a vote for the other block at
  the other node.
\<close>

theorem conflicting_majorities_equivocate:
  assumes vs: "vs_inv vs"
    and a: "hvs_GetVotes (hvs_add_votes simple_set (NewHeightVoteSet height (Some vs)) votes) r = Some a"
      "enumerates ks (rv_voteCounts a)" "rvs_HasTwoThirdsMajority simple_set a ks = Some h"
    and b: "hvs_GetVotes (hvs_add_votes simple_set (NewHeightVoteSet height (Some vs)) votes') r = Some b"
      "enumerates ks' (rv_voteCounts b)" "rvs_HasTwoThirdsMajority simple_set b ks' = Some h'"
    and ty: "rv_voteType a = rv_voteType b" and ne: "h \<noteq> h'"
  shows "\<exists>E. vs_TotalVotingPower vs < 3 * power_at (vs_validators vs) E \<and>
    (\<forall>i \<in> E. \<exists>v v'. rv_votes a ! i = Some v \<and> rv_votes b ! i = Some v' \<and>
       vt_ValidatorIndex v = vt_ValidatorIndex v' \<and> vt_Round v = r \<and> vt_Round v' = r \<and>
       vt_Type v = vt_Type v' \<and> vt_BlockHash v \<noteq> vt_BlockHash v')"
proof -
  have ok: "sv.rvs_ok vs a" "rv_round a = r" "sv.rvs_ok vs b" "rv_round b = r"
    using sv.hvs_ok_add_votes [OF sv.hvs_ok_new [OF vs], of height] a(1) b(1)
    unfolding sv.hvs_ok_def hvs_GetVotes_def by blast+
  have stored: "unat (vt_ValidatorIndex v) = i \<and> vt_Type v = rv_voteType x \<and> vt_Round v = rv_round x \<and>
      vt_BlockHash v = hash"
    if "sv.rvs_ok vs x" "i \<in> voters x hash" "rv_votes x ! i = Some v" for x i v hash
    using that by (auto simp: sv.rvs_ok_def voters_def)
  have "\<exists>v v'. rv_votes a ! i = Some v \<and> rv_votes b ! i = Some v' \<and>
       vt_ValidatorIndex v = vt_ValidatorIndex v' \<and> vt_Round v = r \<and> vt_Round v' = r \<and>
       vt_Type v = vt_Type v' \<and> vt_BlockHash v \<noteq> vt_BlockHash v'" if i: "i \<in> voters a h \<inter> voters b h'" for i
  proof -
    obtain v v' where v: "rv_votes a ! i = Some v" "rv_votes b ! i = Some v'"
      using i by (auto simp: voters_def)
    then have "unat (vt_ValidatorIndex v) = unat (vt_ValidatorIndex v')"
      using stored [OF ok(1) _ v(1), of h] stored [OF ok(3) _ v(2), of h'] i by simp
    then have "vt_ValidatorIndex v = vt_ValidatorIndex v'" by (rule unsigned_word_eqI)
    then show ?thesis
      using stored [OF ok(1) _ v(1), of h] stored [OF ok(3) _ v(2), of h'] i v ok(2,4) ty ne by auto
  qed
  moreover have "vs_TotalVotingPower vs < 3 * power_at (vs_validators vs) (voters a h \<inter> voters b h')"
    using sv.conflicting_majorities [OF ok(1) a(2,3) ok(3) b(2,3)] by (simp add: simple_set_def)
  ultimately show ?thesis by blast
qed

section \<open>Witnesses\<close>

definition ex_vote :: "16 word \<Rightarrow> bytes \<Rightarrow> vote" where
  "ex_vote i h = \<lparr>vt_Type = VoteTypePrevote, vt_Height = 7, vt_Round = 0, vt_BlockHash = h,
     vt_ValidatorIndex = i, vt_Signature = []\<rparr>"

definition ex_round :: "vote list \<Rightarrow> simpleValidatorSet roundVoteSet" where
  "ex_round votes = the (hvs_GetVotes (hvs_add_votes simple_set (NewHeightVoteSet 7 (Some ex_set)) votes) 0)"

abbreviation ex_votes :: "vote list" where
  "ex_votes \<equiv> [ex_vote 0 [1], ex_vote 1 [1], ex_vote 1 [2], ex_vote 2 [1]]"

abbreviation ex_votes' :: "vote list" where
  "ex_votes' \<equiv> [ex_vote 3 [2], ex_vote 1 [2], ex_vote 2 [2]]"

lemma ex_round_majority:
  "hvs_GetVotes (hvs_add_votes simple_set (NewHeightVoteSet 7 (Some ex_set)) ex_votes) 0 = Some (ex_round ex_votes)"
  "hvs_GetVotes (hvs_add_votes simple_set (NewHeightVoteSet 7 (Some ex_set)) ex_votes') 0 = Some (ex_round ex_votes')"
  "rvs_HasTwoThirdsMajority simple_set (ex_round ex_votes) [[1]] = Some [1]"
  "rvs_HasTwoThirdsMajority simple_set (ex_round ex_votes') [[2]] = Some [2]"
  "rv_voteType (ex_round ex_votes) = rv_voteType (ex_round ex_votes')"
  by code_simp+

lemma ex_round_counts:
  "enumerates [[1]] (rv_voteCounts (ex_round ex_votes))"
  "enumerates [[2]] (rv_voteCounts (ex_round ex_votes'))"
proof -
  have "fmdom (rv_voteCounts (ex_round ex_votes)) = {|[1]|}" "fmdom (rv_voteCounts (ex_round ex_votes')) = {|[2]|}"
    by code_simp+
  then show "enumerates [[1]] (rv_voteCounts (ex_round ex_votes))"
    "enumerates [[2]] (rv_voteCounts (ex_round ex_votes'))"
    by (simp_all add: enumerates_def fmdom'_alt_def)
qed


theorem conflicting_majorities_equivocate_witness:
  "\<exists>E. 40 < 3 * power_at (vs_validators ex_set) E \<and>
     (\<forall>i \<in> E. \<exists>v v'. rv_votes (ex_round ex_votes) ! i = Some v \<and> rv_votes (ex_round ex_votes') ! i = Some v' \<and>
        vt_BlockHash v \<noteq> vt_BlockHash v')"
proof -
  have "[1 :: byte] \<noteq> [2]" by simp
  from conflicting_majorities_equivocate [OF ex_set_inv ex_round_majority(1) ex_round_counts(1) ex_round_majority(3)
      ex_round_majority(2) ex_round_counts(2) ex_round_majority(4,5) this]
  have "\<exists>E. vs_TotalVotingPower ex_set < 3 * power_at (vs_validators ex_set) E \<and>
     (\<forall>i \<in> E. \<exists>v v'. rv_votes (ex_round ex_votes) ! i = Some v \<and> rv_votes (ex_round ex_votes') ! i = Some v' \<and>
        vt_BlockHash v \<noteq> vt_BlockHash v')" by blast
  then show ?thesis by (simp add: vs_TotalVotingPower_def ex_set_def)
qed

end
