(* ===== verification/Spec2Isabelle.thy ===== *)
theory Spec2Isabelle
  imports AddressBook BadgerDB Container Detector HeaderStore ProposerSelection Pruner RateLimit SimpleMempool TTLMempool Validation VoteSet
begin

text \<open>
  \<^bold>\<open>blockberry\<close> is a framework for blockchain nodes, written in Go: it supplies mempools, block stores,
  validator sets, vote counting, peer bookkeeping and component life cycles, and leaves consensus and
  the application to plug-ins. This development models the parts of the repository that decide
  something, each in a theory of its own, and proves what makes them correct.

  \<^bold>\<open>How Go is represented.\<close> Theory \<open>Prelude\<close> fixes it for all theories. A byte is an \<open>8 word\<close>; a
  \<open>[]byte\<close> is a list of bytes, or an option of it where the code tells \<open>nil\<close> from empty; an \<open>int64\<close> is
  an \<open>int\<close> on which every addition that can overflow is written with \<open>i64\<close>, the reduction to 64 bits,
  and division with \<open>go_div\<close>, which truncates; \<open>uint16\<close> and \<open>uint64\<close> are words. A struct is a record,
  a map is an \<open>fmap\<close>. Go ranges over a map in an order that is not specified: the order is an argument
  (a list \<open>ks\<close> with \<open>enumerates ks m\<close>, or a function \<open>ord\<close> that gives one), and theorems hold for every
  such order. The clock is an argument \<open>now\<close>. An error is a value of the datatype \<open>error\<close>; an operation
  that returns \<open>error\<close> gives \<open>None\<close> for \<open>nil\<close>; one that returns a value or an error gives a sum; an
  operation that can panic gives \<open>None\<close> for it. A loop that may not end is a \<open>partial_function\<close>. Mutexes
  are not modelled: each exported method that holds the lock throughout is one atomic step. Hashing,
  signature verification, decoding and \<open>sort.Slice\<close> are parameters, with what is used of them as
  hypotheses.

  \<^bold>\<open>Transactions waiting for a block (\<open>pkg/mempool\<close>).\<close>
  \<^item> \<open>Mempool\<close>: the interface as a record of methods, the validators, the no-op pool; the locale
    \<open>mempool_contract\<close> is what every pool promises, and its client lemmas are proved once.
  \<^item> \<open>SimpleMempool\<close>: the pool in insertion order; limits, and reaping the longest prefix that fits.
  \<^item> \<open>GoHeap\<close>: the sift loops of \<open>container/heap\<close> with the locale \<open>heap_order\<close>.
  \<^item> \<open>PriorityMempool\<close>: entries are shared objects, so the state has an object store, and the map and
    the heap hold addresses. The invariant links heap, map and back indices; eviction, highest priority,
    and the order of reaping follow.
  \<^item> \<open>TTLMempool\<close>: the same structure with expiry; the operations of the clean-up goroutine interleave
    with the others as steps.

  \<^bold>\<open>Blocks (\<open>pkg/blockstore\<close>).\<close>
  \<^item> \<open>BlockStore\<close>: interface, pruning strategies and configuration; locales \<open>block_store\<close> and
    \<open>complete_store\<close>.
  \<^item> \<open>MemoryStore\<close>, \<open>HeaderStore\<close>: the stores in memory, certificates and batches included; the
    header-only store refines the memory store under \<open>erase\<close>.
  \<^item> \<open>KVStore\<close>, \<open>LevelDB\<close>, \<open>BadgerDB\<close>: the stores on disk, over databases given by their methods and laws. \<open>KVStore\<close> has
    keys, values, the content of the database with its invariant, and the specification \<open>spec_step\<close>;
    \<open>LevelDB\<close> and \<open>BadgerDB\<close> show that every run of a store, restarts and failing writes included,
    follows it.
  \<^item> \<open>Pruner\<close>: the background pruner over the locale \<open>prunable_store\<close>, with its goroutine, \<open>Start\<close>,
    \<open>Stop\<close> and saves as interleaving steps.

  \<^bold>\<open>Validators and votes (\<open>pkg/consensus\<close>).\<close>
  \<^item> \<open>ValidatorSet\<close>: both implementations behind the locale \<open>validator_set\<close>; quorum, sign bytes and
    commit verification.
  \<^item> \<open>ProposerSelection\<close>: weighted round robin, its fairness and liveness, and the store of
    validator sets by height.
  \<^item> \<open>VoteSet\<close>: votes of a round and of a height; \<open>Detector\<close>: whether the node is a validator.

  \<^bold>\<open>The node around them.\<close>
  \<^item> \<open>Container\<close> (\<open>internal/container\<close>): Kahn's algorithm, start and stop order.
  \<^item> \<open>Validation\<close> (\<open>pkg/types/validation.go\<close>): checks of untrusted input.
  \<^item> \<open>RateLimit\<close> (\<open>internal/security/ratelimit.go\<close>): connection limits, the sliding-window limiter.
  \<^item> \<open>AddressBook\<close> (\<open>internal/pex/address_book.go\<close>): known peers, eviction, backoff, persistence.

  \<^bold>\<open>Bounds and fuel.\<close> No operation is modelled with fuel. Loops that recurse on something else than a
  list (the sift loops, Kahn's queue, the binary search, eviction until a transaction fits) have
  termination proofs; \<open>SetMaxAddresses\<close> of the address book is a \<open>partial_function\<close> because its loop
  need not end, and when it does is a theorem. Theorems about sums of voting power assume that the total
  is below a quarter or a half of the \<open>int64\<close> range where wrap-around would change the result; what happens beyond is
  stated as theorems of its own.

  \<^bold>\<open>Not modelled.\<close>
  \<^item> \<open>schema\<close>: generated encoders; decoded messages are data of the models that use them.
  \<^item> \<open>pkg/rpc\<close>, \<open>pkg/metrics\<close>, \<open>pkg/logging\<close>, \<open>pkg/tracing\<close>, \<open>cmd\<close>: servers, output and wiring of
    third-party libraries.
  \<^item> The token buckets of \<open>internal/security\<close>, \<open>internal/p2p\<close> and \<open>pkg/rpc/grpc\<close>: they compute with
    \<open>float64\<close>.
  \<^item> \<open>pkg/statestore\<close>, \<open>pkg/indexer\<close>: stores over
    third-party databases.
  \<^item> \<open>internal/handlers\<close>, \<open>internal/sync\<close>, \<open>internal/p2p\<close>, \<open>pkg/node\<close>, \<open>pkg/events\<close>, \<open>pkg/config\<close>: message
    handlers, peer management and wiring of the node.
  \<^item> JSON files, sockets, tickers and goroutine scheduling beyond the interleavings named above.
\<close>

end
